(* ===== verification/Hv_Prelude.thy ===== *)
theory Hv_Prelude
  imports Main "HOL-Library.Word" "HOL-Library.Multiset"
begin

text \<open>
  Vocabulary shared by every component of the hypervisor model: the machine word
  \<open>usize\<close> of the default build target (riscv64gc, see \<^verbatim>\<open>.cargo/config\<close>), the error codes
  of \<^verbatim>\<open>error.rs\<close>, Rust's \<open>Result\<close>, the operations of \<open>Vec\<close> and \<open>HashMap\<close> the sources use,
  byte intervals, and the lemmas that move word arithmetic to \<open>nat\<close>.

  Machine arithmetic is the wrap-around arithmetic of a build without overflow checks.
  Where a component proves that its additions stay below \<open>2 ^ 64\<close>, a build with
  overflow checks behaves the same way.
\<close>

named_theorems word_nat \<open>moving comparisons and arithmetic of words to natural numbers\<close>
named_theorems hv_spec \<open>functional descriptions of operations on well-formed states\<close>

type_synonym usize = "64 word"
type_synonym u64 = "64 word"

section \<open>Error codes and results\<close>

datatype Cause =
    NotImplemented
  | DeviceTreeBad
  | PhysicalCoreBadID
  | PhysicalCoreCountUnknown
  | ServiceAlreadyRegistered
  | ServiceNotAllowed
  | ServiceNotFound
  | MessageBadType
  | HeapNotInUse
  | HeapBadBlock
  | HeapNoFreeMem
  | HeapBadSize
  | PhysNoRAMFound
  | PhysNotEnoughFreeRAM
  | PhysRegionCollision
  | PhysRegionNoMatch
  | PhysRegionSplitOutOfBounds
  | VirtMemPhysNotSet
  | CapsuleIDExhaustion
  | CapsuleBadID
  | SchedNoTimer
  | LoaderSupervisorTooLarge
  | LoaderUnrecognizedSupervisor
  | LoaderBadEntry

datatype 'a result = Ok 'a | Err Cause

primrec is_ok :: "'a result \<Rightarrow> bool" where
  "is_ok (Ok a) = True"
| "is_ok (Err e) = False"

lemma is_ok_iff: "is_ok r \<longleftrightarrow> (\<exists>a. r = Ok a)"
  by (cases r) auto

section \<open>Vectors\<close>

text \<open>
  \<open>Vec::remove\<close> and \<open>Vec::insert\<close> panic when the index is out of range. The sources call
  them under a loop guard that keeps the index in range, and each model that uses these
  two functions keeps that guard.
\<close>

definition vec_remove :: "nat \<Rightarrow> 'a list \<Rightarrow> 'a list" where
  "vec_remove i xs = take i xs @ drop (Suc i) xs"

definition vec_insert :: "nat \<Rightarrow> 'a \<Rightarrow> 'a list \<Rightarrow> 'a list" where
  "vec_insert i x xs = take i xs @ x # drop i xs"

lemma vec_remove_append [simp]: "vec_remove (length as) (as @ x # bs) = as @ bs"
  by (simp add: vec_remove_def)

lemma vec_insert_append [simp]: "vec_insert (length as) x (as @ bs) = as @ x # bs"
  by (simp add: vec_insert_def)

lemma length_vec_remove [simp]: "i < length xs \<Longrightarrow> length (vec_remove i xs) = length xs - 1"
  by (simp add: vec_remove_def)

section \<open>Words as numbers\<close>

lemma unat_le_iff [word_nat]: "a \<le> b \<longleftrightarrow> unat a \<le> unat (b :: usize)"
  by (rule word_le_nat_alt)

lemma unat_less_iff [word_nat]: "a < b \<longleftrightarrow> unat a < unat (b :: usize)"
  by (rule word_less_nat_alt)

lemma unat_eq_iff: "a = b \<longleftrightarrow> unat a = unat (b :: usize)"
  by (simp add: word_unat_eq_iff)

lemma usize_bound [simp]: "unat (a :: usize) < 2 ^ 64"
  using unsigned_less[of a, where ?'a = nat] by simp

lemma usize_bound_num [simp]: "unat (a :: usize) < 18446744073709551616"
  using unsigned_less[of a, where ?'a = nat] by simp

lemma usize_eq_0_iff: "(a :: usize) = 0 \<longleftrightarrow> unat a = 0"
  by (simp add: unat_eq_zero)

lemma unat_add_nowrap:
  "unat a + unat b < 2 ^ 64 \<Longrightarrow> unat (a + b) = unat a + unat (b :: usize)"
  by (simp add: unat_word_ariths)

lemma unat_sub_nowrap: "unat b \<le> unat a \<Longrightarrow> unat (a - b) = unat a - unat (b :: usize)"
  by (simp add: unat_sub word_le_nat_alt)

lemma unat_add_mod: "unat (a + b) = (unat a + unat (b :: usize)) mod 2 ^ 64"
  by (simp add: unat_word_ariths)

section \<open>Byte intervals\<close>

text \<open>The bytes of an area of \<open>s\<close> bytes that starts at address \<open>a\<close>.\<close>

definition bytes :: "usize \<Rightarrow> usize \<Rightarrow> nat set" where
  "bytes a s = {unat a ..< unat a + unat s}"

lemma bytes_empty_iff [simp]: "bytes a s = {} \<longleftrightarrow> s = 0"
  by (simp add: bytes_def usize_eq_0_iff)

lemma bytes_zero [simp]: "bytes a 0 = {}"
  by (simp add: bytes_def)

lemma finite_bytes [simp]: "finite (bytes a s)"
  by (simp add: bytes_def)

lemma card_bytes: "card (bytes a s) = unat s"
  by (simp add: bytes_def)

lemma bytes_disjoint_iff:
  assumes "s \<noteq> 0" and "t \<noteq> 0"
  shows "bytes a s \<inter> bytes b t = {} \<longleftrightarrow>
    unat a + unat s \<le> unat b \<or> unat b + unat t \<le> unat a"
proof
  assume dis: "bytes a s \<inter> bytes b t = {}"
  show "unat a + unat s \<le> unat b \<or> unat b + unat t \<le> unat a"
  proof (rule ccontr)
    assume "\<not> ?thesis"
    then have "max (unat a) (unat b) \<in> bytes a s \<inter> bytes b t"
      using assms by (auto simp: bytes_def max_def usize_eq_0_iff)
    with dis show False by blast
  qed
qed (auto simp: bytes_def)

lemma bytes_split:
  assumes "unat s \<le> unat t" and "unat a + unat t < 2 ^ 64"
  shows "bytes a t = bytes a s \<union> bytes (a + s) (t - s)"
    and "bytes a s \<inter> bytes (a + s) (t - s) = {}"
  using assms by (auto simp: bytes_def unat_add_nowrap unat_sub_nowrap)

lemma bytes_join:
  assumes "unat a + unat s + unat t < 2 ^ 64"
  shows "bytes a s \<union> bytes (a + s) t = bytes a (s + t)"
  using assms by (auto simp: bytes_def unat_add_nowrap)

section \<open>Symmetric relations between the members of a list\<close>

lemma sorted_wrt_mset_cong:
  assumes sym: "\<And>x y. R x y \<Longrightarrow> R y x" and "sorted_wrt R xs" and "mset xs = mset ys"
  shows "sorted_wrt R ys"
  using assms(2,3)
proof (induction xs arbitrary: ys)
  case (Cons x xs)
  have "x \<in> set ys" using Cons.prems(2) by (metis list.set_intros(1) set_mset_mset)
  then obtain us vs where ys: "ys = us @ x # vs" by (meson split_list)
  then have "mset xs = mset (us @ vs)" using Cons.prems(2) by simp
  moreover from this have "set xs = set (us @ vs)" by (metis set_mset_mset)
  ultimately show ?case
    using Cons.IH[of "us @ vs"] Cons.prems(1) by (auto simp: ys sorted_wrt_append intro: sym)
qed simp

section \<open>Reachable states\<close>

text \<open>The states a system can come to, and the interface of an invariant.\<close>

inductive reachable :: "('x \<Rightarrow> bool) \<Rightarrow> ('x \<Rightarrow> 'x \<Rightarrow> bool) \<Rightarrow> 'x \<Rightarrow> bool" for start step where
  first: "start x \<Longrightarrow> reachable start step x"
| follow: "reachable start step x \<Longrightarrow> step x y \<Longrightarrow> reachable start step y"

locale invariant_system =
  fixes start :: "'x \<Rightarrow> bool" and step :: "'x \<Rightarrow> 'x \<Rightarrow> bool" and inv :: "'x \<Rightarrow> bool"
  assumes start_inv: "start x \<Longrightarrow> inv x"
    and step_inv: "inv x \<Longrightarrow> step x y \<Longrightarrow> inv y"
begin

lemma reachable_inv: "reachable start step x \<Longrightarrow> inv x"
  by (induction rule: reachable.induct) (auto intro: start_inv step_inv)

end

end
