(* ===== verification/Hv_Heap.thy ===== *)
theory Hv_Heap
  imports Hv_Prelude "HOL-Library.Monad_Syntax"
begin

text \<open>
  The per-core hypervisor heap, \<^verbatim>\<open>src/hypervisor/heap.rs\<close>: a singly linked list of blocks with
  in-memory headers, first-fit allocation that carves from the end of a free block, and
  consolidation of neighbouring free blocks. Headers live in an explicit store from
  addresses to \<open>HeapBlock\<close>s. A result \<open>None\<close> means that the code dereferences an address
  that holds no header, or does not return; the theorems show that neither happens on a
  well-formed heap. The linked list is related to a list of abstract blocks by \<open>heap_view\<close>,
  and every operation is shown to refine an operation on that list.
\<close>

section \<open>Blocks and heaps\<close>

datatype HeapMagic = Free | InUse

record HeapBlock =
  blk_next :: "usize option"
  blk_size :: usize
  blk_magic :: HeapMagic

definition HEAP_BLOCK_SIZE :: usize where
  "HEAP_BLOCK_SIZE = 64"

text \<open>
  \<open>size_of::<HeapBlock>()\<close> on the 64-bit targets: 16 bytes for \<open>Option<*mut HeapBlock>\<close>
  (raw pointers have no niche), 8 for the size, 4 for the C-sized enum, padded to 32.
\<close>

definition size_of_HeapBlock :: usize where
  "size_of_HeapBlock = 32"

text \<open>The field \<open>heap_mem\<close> is the memory the block pointers point into.\<close>

record Heap =
  block_list_head :: usize
  block_header_size :: usize
  heap_mem :: "usize \<rightharpoonup> HeapBlock"

section \<open>Operations\<close>

definition heap_init :: "Heap \<Rightarrow> usize \<Rightarrow> usize \<Rightarrow> Heap" where
  "heap_init h start sz =
     h\<lparr>heap_mem := (heap_mem h)(start \<mapsto> \<lparr>blk_next = None, blk_size = sz, blk_magic = Free\<rparr>),
       block_header_size := size_of_HeapBlock,
       block_list_head := start\<rparr>"

definition heap_free :: "Heap \<Rightarrow> usize \<Rightarrow> (unit result \<times> Heap) option" where
  "heap_free h to_free =
     (let ptr = to_free - block_header_size h in
      do {
        b \<leftarrow> heap_mem h ptr;
        (case blk_magic b of
           InUse \<Rightarrow> Some (Ok (), h\<lparr>heap_mem := (heap_mem h)(ptr \<mapsto> b\<lparr>blk_magic := Free\<rparr>)\<rparr>)
         | Free \<Rightarrow> Some (Err HeapNotInUse, h))
      })"

text \<open>
  One visit of the loop in \<open>consolidate\<close>: \<open>block\<close> has header \<open>b\<close> and successor \<open>next\<close>; returns
  the memory and the largest merged block seen. The header of the successor is read only
  when \<open>block\<close> is free, as the short-circuit conjunction in the source does.
\<close>

definition consolidate_visit ::
  "(usize \<rightharpoonup> HeapBlock) \<Rightarrow> usize \<Rightarrow> HeapBlock \<Rightarrow> usize \<Rightarrow> usize \<Rightarrow> ((usize \<rightharpoonup> HeapBlock) \<times> usize) option" where
  "consolidate_visit m block b nxt largest_merged_block =
     (if blk_magic b = Free
      then do {
        n \<leftarrow> m nxt;
        (if blk_magic n = Free \<and> block + blk_size b = nxt
         then let merged_size = blk_size b + blk_size n in
              Some (m(block \<mapsto> b\<lparr>blk_size := merged_size, blk_next := blk_next n\<rparr>),
                    if merged_size > largest_merged_block then merged_size else largest_merged_block)
         else Some (m, largest_merged_block))
      }
      else Some (m, largest_merged_block))"

partial_function (option) consolidate_loop ::
  "(usize \<rightharpoonup> HeapBlock) \<Rightarrow> usize \<Rightarrow> usize \<Rightarrow> ((usize \<rightharpoonup> HeapBlock) \<times> usize) option" where
  "consolidate_loop m block largest =
     do {
       b \<leftarrow> m block;
       (case blk_next b of
          None \<Rightarrow> Some (m, largest)
        | Some nxt \<Rightarrow>
            do {
              (m', largest') \<leftarrow> consolidate_visit m block b nxt largest;
              b' \<leftarrow> m' block;
              (case blk_next b' of
                 Some n \<Rightarrow> consolidate_loop m' n largest'
               | None \<Rightarrow> Some (m', largest'))
            })
     }"

text \<open>The corner case after the loop: the head of the list lies right above its successor.\<close>

definition consolidate_corner :: "Heap \<Rightarrow> usize \<Rightarrow> (usize \<times> Heap) option" where
  "consolidate_corner h largest =
     do {
       b \<leftarrow> heap_mem h (block_list_head h);
       (if blk_magic b = Free
        then case blk_next b of
          Some nxt \<Rightarrow>
            do {
              n \<leftarrow> heap_mem h nxt;
              (if blk_magic n = Free \<and> nxt + blk_size n = block_list_head h
               then let sz = blk_size n + blk_size b in
                    Some (if sz > largest then sz else largest,
                          h\<lparr>heap_mem := (heap_mem h)(nxt \<mapsto> n\<lparr>blk_size := sz\<rparr>),
                            block_list_head := nxt\<rparr>)
               else Some (largest, h))
            }
        | None \<Rightarrow> Some (largest, h)
        else Some (largest, h))
     }"

definition heap_consolidate :: "Heap \<Rightarrow> (usize \<times> Heap) option" where
  "heap_consolidate h =
     do {
       (m, largest) \<leftarrow> consolidate_loop (heap_mem h) (block_list_head h) 0;
       consolidate_corner (h\<lparr>heap_mem := m\<rparr>) largest
     }"

definition size_required :: "usize \<Rightarrow> usize \<Rightarrow> usize" where
  "size_required size_of_T num =
     (let size_req = size_of_T * num + size_of_HeapBlock
      in (size_req div HEAP_BLOCK_SIZE + 1) * HEAP_BLOCK_SIZE)"

definition take_whole :: "Heap \<Rightarrow> usize \<Rightarrow> HeapBlock \<Rightarrow> usize result \<times> Heap" where
  "take_whole h search_block b =
     (Ok (search_block + block_header_size h),
      h\<lparr>heap_mem := (heap_mem h)(search_block \<mapsto> b\<lparr>blk_magic := InUse\<rparr>)\<rparr>)"

definition carve_end :: "Heap \<Rightarrow> usize \<Rightarrow> HeapBlock \<Rightarrow> usize \<Rightarrow> usize result \<times> Heap" where
  "carve_end h search_block b size_req =
     (let b' = b\<lparr>blk_size := blk_size b - size_req\<rparr>;
          found_ptr = search_block + blk_size b'
      in (Ok (found_ptr + block_header_size h),
          h\<lparr>heap_mem := (heap_mem h)(search_block \<mapsto> b',
              found_ptr \<mapsto> \<lparr>blk_next = Some (block_list_head h), blk_size = size_req, blk_magic = InUse\<rparr>),
            block_list_head := found_ptr\<rparr>))"

partial_function (option) alloc_search ::
  "usize \<Rightarrow> Heap \<Rightarrow> usize \<Rightarrow> (usize result \<times> Heap) option" where
  "alloc_search size_req h search_block =
     do {
       b \<leftarrow> heap_mem h search_block;
       (if blk_magic b = Free \<and> blk_size b \<ge> size_req
        then if blk_size b - size_req < HEAP_BLOCK_SIZE
             then Some (take_whole h search_block b)
             else Some (carve_end h search_block b size_req)
        else case blk_next b of
          None \<Rightarrow>
            do {
              (largest, h') \<leftarrow> heap_consolidate h;
              (if largest < HEAP_BLOCK_SIZE then Some (Err HeapNoFreeMem, h')
               else alloc_search size_req h' (block_list_head h'))
            }
        | Some n \<Rightarrow> alloc_search size_req h n)
     }"

definition heap_alloc :: "usize \<Rightarrow> Heap \<Rightarrow> usize \<Rightarrow> (usize result \<times> Heap) option" where
  "heap_alloc size_of_T h num =
     (if num = 0 then Some (Err HeapBadSize, h)
      else alloc_search (size_required size_of_T num) h (block_list_head h))"

section \<open>The abstract heap: a list of blocks\<close>

text \<open>An abstract block is its address, its size and its state.\<close>

type_synonym ablock = "usize \<times> usize \<times> HeapMagic"

fun linked :: "(usize \<rightharpoonup> HeapBlock) \<Rightarrow> usize option \<Rightarrow> ablock list \<Rightarrow> bool" where
  "linked m p [] \<longleftrightarrow> p = None"
| "linked m p ((a, s, g) # xs) \<longleftrightarrow>
     p = Some a \<and> (\<exists>n. m a = Some \<lparr>blk_next = n, blk_size = s, blk_magic = g\<rparr> \<and> linked m n xs)"

definition heap_view :: "Heap \<Rightarrow> ablock list \<Rightarrow> bool" where
  "heap_view h xs \<longleftrightarrow> linked (heap_mem h) (Some (block_list_head h)) xs \<and> distinct (map fst xs)
     \<and> block_header_size h = size_of_HeapBlock"

fun apass :: "ablock list \<Rightarrow> usize \<Rightarrow> ablock list \<times> usize" where
  "apass ((a, s, g) # (a2, s2, g2) # xs) l =
     (if g = Free \<and> g2 = Free \<and> a + s = a2
      then (case apass xs (if s + s2 > l then s + s2 else l) of (ys, l') \<Rightarrow> ((a, s + s2, Free) # ys, l'))
      else (case apass ((a2, s2, g2) # xs) l of (ys, l') \<Rightarrow> ((a, s, g) # ys, l')))"
| "apass [] l = ([], l)"
| "apass [b] l = ([b], l)"

fun acorner :: "ablock list \<Rightarrow> usize \<Rightarrow> ablock list \<times> usize" where
  "acorner ((a, s, g) # (a2, s2, g2) # xs) l =
     (if g = Free \<and> g2 = Free \<and> a2 + s2 = a
      then ((a2, s2 + s, Free) # xs, if s2 + s > l then s2 + s else l)
      else ((a, s, g) # (a2, s2, g2) # xs, l))"
| "acorner [] l = ([], l)"
| "acorner [b] l = ([b], l)"

definition aconsolidate :: "ablock list \<Rightarrow> ablock list \<times> usize" where
  "aconsolidate xs = (case apass xs 0 of (ys, l) \<Rightarrow> acorner ys l)"

definition fits :: "usize \<Rightarrow> ablock \<Rightarrow> bool" where
  "fits q x \<longleftrightarrow> (case x of (a, s, g) \<Rightarrow> g = Free \<and> q \<le> s)"

definition atake :: "usize \<Rightarrow> ablock list \<Rightarrow> ablock \<Rightarrow> ablock list \<Rightarrow> usize \<times> ablock list" where
  "atake q as x bs =
     (case x of (a, s, g) \<Rightarrow>
        if s - q < HEAP_BLOCK_SIZE then (a, as @ (a, s, InUse) # bs)
        else (a + (s - q), (a + (s - q), q, InUse) # as @ (a, s - q, g) # bs))"

lemma apass_length:
  "apass xs l = (ys, l') \<Longrightarrow> length ys < length xs \<or> ys = xs \<and> l' = l"
  by (induction xs l arbitrary: ys l' rule: apass.induct) (fastforce split: if_splits prod.splits)+

lemma acorner_length:
  "acorner xs l = (ys, l') \<Longrightarrow> length ys < length xs \<or> ys = xs \<and> l' = l"
  by (induction xs l rule: acorner.induct) (auto split: if_splits)

lemma aconsolidate_length:
  "aconsolidate xs = (ys, l) \<Longrightarrow> length ys < length xs \<or> ys = xs \<and> l = 0"
  by (auto simp: aconsolidate_def split: prod.splits dest!: apass_length acorner_length)

function aalloc :: "usize \<Rightarrow> ablock list \<Rightarrow> usize option \<times> ablock list" where
  "aalloc q xs =
     (case List.extract (fits q) xs of
        Some (as, x, bs) \<Rightarrow> (case atake q as x bs of (a, ys) \<Rightarrow> (Some a, ys))
      | None \<Rightarrow>
          (case aconsolidate xs of (ys, l) \<Rightarrow>
             if l < HEAP_BLOCK_SIZE then (None, ys) else aalloc q ys))"
  by pat_completeness auto
termination
  by (relation "measure (\<lambda>(q, xs). length xs)")
    (auto simp: HEAP_BLOCK_SIZE_def dest!: aconsolidate_length[OF sym])

declare aalloc.simps [simp del]

section \<open>The linked list implements the list of blocks\<close>

lemma linked_upd [simp]: "a \<notin> fst ` set xs \<Longrightarrow> linked (m(a := b)) p xs = linked m p xs"
  by (induction m p xs rule: linked.induct) auto

lemma linked_None [simp]: "linked m None xs \<longleftrightarrow> xs = []"
  by (cases xs) auto

lemma consolidate_visit_merge:
  assumes "m a = Some b" "m a2 = Some n" "blk_magic b = Free" "blk_magic n = Free" "a + blk_size b = a2"
  shows "consolidate_visit m a b a2 l =
    Some (m(a \<mapsto> b\<lparr>blk_size := blk_size b + blk_size n, blk_next := blk_next n\<rparr>),
          if blk_size b + blk_size n > l then blk_size b + blk_size n else l)"
  using assms by (simp add: consolidate_visit_def Let_def)

lemma consolidate_visit_skip:
  assumes "m a2 = Some n" "\<not> (blk_magic b = Free \<and> blk_magic n = Free \<and> a + blk_size b = a2)"
  shows "consolidate_visit m a b a2 l = Some (m, l)"
  using assms by (auto simp: consolidate_visit_def)

lemma consolidate_loop_refines:
  assumes "linked m (Some a) zs" and "distinct (map fst zs)" and "apass zs l = (ys, l')"
  shows "\<exists>m'. consolidate_loop m a l = Some (m', l') \<and> linked m' (Some a) ys
     \<and> (\<forall>x. x \<notin> fst ` set zs \<longrightarrow> m' x = m x) \<and> fst ` set ys \<subseteq> fst ` set zs \<and> distinct (map fst ys)"
  using assms
proof (induction zs l arbitrary: a m ys l' rule: apass.induct)
  case (1 a0 s g a2 s2 g2 xs l)
  from "1.prems"(1,2) obtain n where a: "a0 = a" and ma: "m a = Some \<lparr>blk_next = Some a2, blk_size = s, blk_magic = g\<rparr>"
    and m2: "m a2 = Some \<lparr>blk_next = n, blk_size = s2, blk_magic = g2\<rparr>" and rest: "linked m n xs"
    and notin: "a \<notin> fst ` set xs" "a2 \<notin> fst ` set xs" "a \<noteq> a2" and dist: "distinct (map fst xs)"
    by auto
  show ?case
  proof (cases "g = Free \<and> g2 = Free \<and> a + s = a2")
    case True
    let ?l = "if s + s2 > l then s + s2 else l"
    let ?m = "m(a \<mapsto> \<lparr>blk_next = n, blk_size = s + s2, blk_magic = Free\<rparr>)"
    obtain zs where zs: "apass xs ?l = (zs, l')" and ys: "ys = (a, s + s2, Free) # zs"
      using "1.prems"(3) True a by (auto split: prod.splits)
    have step: "consolidate_loop m a l =
        (case n of Some k \<Rightarrow> consolidate_loop ?m k ?l | None \<Rightarrow> Some (?m, ?l))"
      using ma m2 True
      by (subst consolidate_loop.simps) (simp add: consolidate_visit_def Let_def split: option.splits)
    show ?thesis
    proof (cases xs)
      case Nil
      then show ?thesis using step zs ys rest notin a by auto
    next
      case (Cons x xs')
      obtain a3 s3 g3 where x: "x = (a3, s3, g3)" by (cases x)
      then have n: "n = Some a3" using rest Cons by simp
      have "linked ?m (Some a3) xs" using rest n notin(1) by simp
      moreover have "g = Free \<and> g2 = Free \<and> a0 + s = a2" using True a by simp
      ultimately obtain m' where m': "consolidate_loop ?m a3 ?l = Some (m', l')" "linked m' (Some a3) zs"
        "\<forall>x. x \<notin> fst ` set xs \<longrightarrow> m' x = ?m x" "fst ` set zs \<subseteq> fst ` set xs" "distinct (map fst zs)"
        using "1.IH"(1)[OF _ _ dist zs] by blast
      have "m' a = ?m a" using m'(3) notin(1) by auto
      then show ?thesis using step n m' ys notin a by auto
    qed
  next
    case False
    obtain zs where zs: "apass ((a2, s2, g2) # xs) l = (zs, l')" and ys: "ys = (a, s, g) # zs"
      using "1.prems"(3) False a by (auto split: prod.splits)
    have step: "consolidate_loop m a l = consolidate_loop m a2 l"
      using ma m2 False
      by (subst consolidate_loop.simps) (auto simp: consolidate_visit_def split: option.splits)
    obtain m' where m': "consolidate_loop m a2 l = Some (m', l')" "linked m' (Some a2) zs"
        "\<forall>x. x \<notin> fst ` set ((a2, s2, g2) # xs) \<longrightarrow> m' x = m x"
        "fst ` set zs \<subseteq> fst ` set ((a2, s2, g2) # xs)" "distinct (map fst zs)"
      using "1.IH"(2)[OF _ _ _ zs, of m a2] False a m2 rest dist notin by auto
    have "m' a = m a" using m'(3) notin by auto
    then show ?thesis using step m' ys ma notin a by auto
  qed
next
  case (2 l)
  then show ?case by simp
next
  case (3 v l)
  then show ?case by (cases v) (subst consolidate_loop.simps, auto)
qed

lemma consolidate_corner_refines:
  assumes "heap_view h xs" and "acorner xs l = (ys, l')"
  shows "\<exists>h'. consolidate_corner h l = Some (l', h') \<and> heap_view h' ys"
proof (cases "(xs, l)" rule: acorner.cases)
  case (1 a s g a2 s2 g2 zs l)
  then obtain n where hd: "block_list_head h = a" "block_header_size h = size_of_HeapBlock"
    and ma: "heap_mem h a = Some \<lparr>blk_next = Some a2, blk_size = s, blk_magic = g\<rparr>"
    and m2: "heap_mem h a2 = Some \<lparr>blk_next = n, blk_size = s2, blk_magic = g2\<rparr>"
    and rest: "linked (heap_mem h) n zs" and notin: "a2 \<notin> fst ` set zs" "distinct (map fst zs)"
    using assms(1) by (auto simp: heap_view_def)
  from 1 hd ma m2 rest notin assms show ?thesis
    by (cases "g = Free"; cases "g2 = Free"; cases "a2 + s2 = a")
      (auto simp: consolidate_corner_def heap_view_def Let_def)
next
  case (2 l)
  then show ?thesis using assms by (simp add: heap_view_def)
next
  case (3 v l)
  then show ?thesis using assms
    by (cases v) (auto simp: heap_view_def consolidate_corner_def)
qed

lemma heap_consolidate_refines:
  assumes "heap_view h xs" and "aconsolidate xs = (ys, l)"
  shows "\<exists>h'. heap_consolidate h = Some (l, h') \<and> heap_view h' ys"
proof -
  obtain zs l0 where zs: "apass xs 0 = (zs, l0)" "acorner zs l0 = (ys, l)"
    using assms(2) by (auto simp: aconsolidate_def split: prod.splits)
  obtain m where "consolidate_loop (heap_mem h) (block_list_head h) 0 = Some (m, l0)"
    "linked m (Some (block_list_head h)) zs" "distinct (map fst zs)"
    using consolidate_loop_refines[OF _ _ zs(1)] assms(1) unfolding heap_view_def by blast
  moreover from this have "heap_view (h\<lparr>heap_mem := m\<rparr>) zs"
    using assms(1) by (simp add: heap_view_def)
  ultimately show ?thesis
    using consolidate_corner_refines[OF _ zs(2)] by (simp add: heap_consolidate_def)
qed

section \<open>Heaps whose blocks tile the heap area\<close>

definition abytes :: "ablock \<Rightarrow> nat set" where
  "abytes x = (case x of (a, s, g) \<Rightarrow> bytes a s)"

definition ablock_ok :: "ablock \<Rightarrow> bool" where
  "ablock_ok x \<longleftrightarrow> (case x of (a, s, g) \<Rightarrow> unat size_of_HeapBlock \<le> unat s)"

definition adisjoint :: "ablock \<Rightarrow> ablock \<Rightarrow> bool" where
  "adisjoint x y \<longleftrightarrow> abytes x \<inter> abytes y = {}"

text \<open>
  The blocks of a heap area of \<open>sz\<close> bytes at \<open>start\<close>: every block has room for its header, no
  two blocks overlap, and together they cover the area.
\<close>

definition tiled :: "usize \<Rightarrow> usize \<Rightarrow> ablock list \<Rightarrow> bool" where
  "tiled start sz xs \<longleftrightarrow> unat start + unat sz < 2 ^ 64 \<and> list_all ablock_ok xs
     \<and> sorted_wrt adisjoint xs \<and> \<Union> (abytes ` set xs) = bytes start sz"

definition in_use :: "ablock list \<Rightarrow> ablock multiset" where
  "in_use xs = filter_mset (\<lambda>x. snd (snd x) = InUse) (mset xs)"

lemma in_use_simps [simp]:
  "in_use [] = {#}"
  "in_use ((a, s, InUse) # xs) = add_mset (a, s, InUse) (in_use xs)"
  "in_use ((a, s, Free) # xs) = in_use xs"
  "in_use (xs @ ys) = in_use xs + in_use ys"
  by (simp_all add: in_use_def)

lemma adisjoint_sym: "adisjoint x y \<Longrightarrow> adisjoint y x"
  by (auto simp: adisjoint_def)

lemma tiled_mset: "tiled start sz xs \<Longrightarrow> mset xs = mset ys \<Longrightarrow> tiled start sz ys"
  using sorted_wrt_mset_cong[of adisjoint xs ys, OF adisjoint_sym] mset_eq_setD[of xs ys]
  by (simp add: tiled_def list_all_iff)

lemma tiled_area:
  assumes "tiled start sz xs" and "(a, s, g) \<in> set xs"
  shows "unat start \<le> unat a" and "unat a + unat s \<le> unat start + unat sz" and "32 \<le> unat s"
    and "unat a + unat s < 2 ^ 64"
proof -
  have s: "32 \<le> unat s" and sub: "bytes a s \<subseteq> bytes start sz" and lim: "unat start + unat sz < 2 ^ 64"
    using assms by (auto simp: tiled_def list_all_iff ablock_ok_def abytes_def size_of_HeapBlock_def)
  then have "unat a \<in> bytes start sz" "unat a + unat s - 1 \<in> bytes start sz"
    using sub by (auto simp: bytes_def subset_iff)
  with s lim show "unat start \<le> unat a" "unat a + unat s \<le> unat start + unat sz" "32 \<le> unat s"
    "unat a + unat s < 2 ^ 64"
    by (auto simp: bytes_def)
qed

lemma abytes_nonempty: "ablock_ok x \<Longrightarrow> unat (fst x) \<in> abytes x"
  by (cases x) (simp add: ablock_ok_def abytes_def bytes_def size_of_HeapBlock_def)

lemma tiled_distinct: "tiled start sz xs \<Longrightarrow> distinct (map fst xs)"
proof -
  have "list_all ablock_ok xs \<Longrightarrow> sorted_wrt adisjoint xs \<Longrightarrow> distinct (map fst xs)"
  proof (induction xs)
    case (Cons x xs)
    have "fst y \<noteq> fst x" if "y \<in> set xs" for y
      using that Cons.prems abytes_nonempty[of x] abytes_nonempty[of y]
      by (auto simp: adisjoint_def list_all_iff disjoint_iff)
    then have "fst x \<notin> fst ` set xs" by (metis imageE)
    with Cons show ?case by simp
  qed simp
  then show "tiled start sz xs \<Longrightarrow> distinct (map fst xs)" by (simp add: tiled_def)
qed

text \<open>Cutting a block in two, joining two neighbours and changing the state of a block keep the tiling.\<close>

lemma tiled_cut:
  assumes "tiled start sz ((a, s, g) # xs)" and "32 \<le> unat q" and "unat q + 32 \<le> unat s"
  shows "tiled start sz ((a + (s - q), q, g1) # (a, s - q, g2) # xs)"
proof -
  have lim: "unat a + unat s < 2 ^ 64" using tiled_area(4)[OF assms(1), of a s g] by simp
  then have sub: "unat (s - q) = unat s - unat q" "unat (a + (s - q)) = unat a + (unat s - unat q)"
    using assms(3) by (simp_all add: unat_sub_nowrap unat_add_nowrap)
  then have parts: "bytes a s = bytes (a + (s - q)) q \<union> bytes a (s - q)"
      "bytes (a + (s - q)) q \<inter> bytes a (s - q) = {}"
    using assms(3) by (auto simp: bytes_def)
  show ?thesis
    using assms sub(1) parts
    by (auto simp: tiled_def adisjoint_def abytes_def ablock_ok_def size_of_HeapBlock_def)
qed

lemma tiled_join:
  assumes "tiled start sz ((a, s, g) # (a2, s2, g2) # xs)" and "a + s = a2"
  shows "tiled start sz ((a, s + s2, g3) # xs)" and "unat (s + s2) = unat s + unat s2"
proof -
  have lim: "unat a + unat s < 2 ^ 64" "unat a2 + unat s2 < 2 ^ 64"
    using tiled_area(4)[OF assms(1), of a s g] tiled_area(4)[OF assms(1), of a2 s2 g2] by simp_all
  have a2: "unat a2 = unat a + unat s" using lim(1) assms(2) by (auto simp: unat_add_nowrap)
  then show sum: "unat (s + s2) = unat s + unat s2" using lim(2) by (intro unat_add_nowrap) simp
  have "bytes a (s + s2) = bytes a s \<union> bytes a2 s2"
    using a2 sum by (auto simp: bytes_def)
  then show "tiled start sz ((a, s + s2, g3) # xs)"
    using assms(1) sum
    by (auto simp: tiled_def adisjoint_def abytes_def ablock_ok_def)
qed

lemma tiled_state: "tiled start sz ((a, s, g) # xs) \<Longrightarrow> tiled start sz ((a, s, g') # xs)"
  by (auto simp: tiled_def adisjoint_def abytes_def ablock_ok_def)

lemma apass_tiled:
  assumes "tiled start sz (pre @ xs)" and "apass xs l = (ys, l')"
  shows "tiled start sz (pre @ ys) \<and> in_use ys = in_use xs"
  using assms
proof (induction xs l arbitrary: pre ys l' rule: apass.induct)
  case (1 a s g a2 s2 g2 xs l)
  show ?case
  proof (cases "g = Free \<and> g2 = Free \<and> a + s = a2")
    case True
    obtain zs where zs: "apass xs (if s + s2 > l then s + s2 else l) = (zs, l')"
      and ys: "ys = (a, s + s2, Free) # zs"
      using "1.prems"(2) True by (auto split: prod.splits)
    have "tiled start sz ((a, s, Free) # (a2, s2, Free) # pre @ xs)"
      by (rule tiled_mset[OF "1.prems"(1)]) (use True in simp)
    then have "tiled start sz ((a, s + s2, Free) # pre @ xs)" using True by (intro tiled_join(1)) auto
    then have "tiled start sz ((pre @ [(a, s + s2, Free)]) @ xs)" by (rule tiled_mset) simp
    from "1.IH"(1)[OF True this zs] True ys show ?thesis by simp
  next
    case False
    obtain zs where zs: "apass ((a2, s2, g2) # xs) l = (zs, l')" and ys: "ys = (a, s, g) # zs"
      using "1.prems"(2) False by (auto split: prod.splits)
    from "1.IH"(2)[OF False _ zs, of "pre @ [(a, s, g)]"] "1.prems"(1) ys show ?thesis
      by (cases g) (simp_all add: in_use_def)
  qed
qed auto

lemma acorner_tiled:
  assumes "tiled start sz xs" and "acorner xs l = (ys, l')"
  shows "tiled start sz ys \<and> in_use ys = in_use xs"
proof (cases "(xs, l)" rule: acorner.cases)
  case (1 a s g a2 s2 g2 zs l)
  show ?thesis
  proof (cases "g = Free \<and> g2 = Free \<and> a2 + s2 = a")
    case True
    have "tiled start sz ((a2, s2, Free) # (a, s, Free) # zs)"
      by (rule tiled_mset[OF assms(1)]) (use 1 True in simp)
    then have "tiled start sz ((a2, s2 + s, Free) # zs)" using True by (intro tiled_join(1)) auto
    with 1 True assms(2) show ?thesis by auto
  qed (use 1 assms in auto)
qed (use assms in auto)

lemma aconsolidate_tiled:
  assumes "tiled start sz xs" and "aconsolidate xs = (ys, l)"
  shows "tiled start sz ys \<and> in_use ys = in_use xs"
  using assms apass_tiled[of start sz "[]" xs 0] acorner_tiled
  by (fastforce simp: aconsolidate_def split: prod.splits)

text \<open>A merge reports at least 64 bytes, since each of the two blocks has room for its header.\<close>

lemma apass_largest:
  assumes "tiled start sz (pre @ xs)" and "apass xs l = (ys, l')"
  shows "l \<le> l' \<and> (ys = xs \<and> l' = l \<or> 64 \<le> unat l')"
  using assms
proof (induction xs l arbitrary: pre ys l' rule: apass.induct)
  case (1 a s g a2 s2 g2 xs l)
  show ?case
  proof (cases "g = Free \<and> g2 = Free \<and> a + s = a2")
    case True
    let ?l = "if s + s2 > l then s + s2 else l"
    obtain zs where zs: "apass xs ?l = (zs, l')" using "1.prems"(2) True by (auto split: prod.splits)
    have pair: "tiled start sz ((a, s, Free) # (a2, s2, Free) # pre @ xs)"
      by (rule tiled_mset[OF "1.prems"(1)]) (use True in simp)
    have "tiled start sz ((a, s + s2, Free) # pre @ xs)"
      using True by (intro tiled_join(1)[OF pair]) simp
    then have "tiled start sz ((pre @ [(a, s + s2, Free)]) @ xs)" by (rule tiled_mset) simp
    from "1.IH"(1)[OF True this zs] have "?l \<le> l'" by simp
    moreover have "unat (s + s2) = unat s + unat s2" "32 \<le> unat s" "32 \<le> unat s2"
      using tiled_join(2)[OF pair] tiled_area(3)[OF pair] True by auto
    ultimately show ?thesis by (auto simp: word_nat split: if_splits)
  next
    case False
    obtain zs where zs: "apass ((a2, s2, g2) # xs) l = (zs, l')" and ys: "ys = (a, s, g) # zs"
      using "1.prems"(2) False by (auto split: prod.splits)
    from "1.IH"(2)[OF False _ zs, of "pre @ [(a, s, g)]"] "1.prems"(1) ys show ?thesis by simp
  qed
qed auto

lemma acorner_largest:
  assumes "tiled start sz xs" and "acorner xs l = (ys, l')"
  shows "l \<le> l' \<and> (ys = xs \<and> l' = l \<or> 64 \<le> unat l')"
proof (cases "(xs, l)" rule: acorner.cases)
  case (1 a s g a2 s2 g2 zs l)
  show ?thesis
  proof (cases "g = Free \<and> g2 = Free \<and> a2 + s2 = a")
    case True
    have pair: "tiled start sz ((a2, s2, Free) # (a, s, Free) # zs)"
      by (rule tiled_mset[OF assms(1)]) (use 1 True in simp)
    have "unat (s2 + s) = unat s2 + unat s" "32 \<le> unat s" "32 \<le> unat s2"
      using tiled_join(2)[OF pair] tiled_area(3)[OF pair] True by auto
    then show ?thesis using 1 True assms(2) by (auto simp: word_nat split: if_splits)
  qed (use 1 assms in auto)
qed (use assms in auto)

lemma aconsolidate_largest:
  assumes "tiled start sz xs" and "aconsolidate xs = (ys, l)"
  shows "ys = xs \<and> l = 0 \<or> 64 \<le> unat l"
proof -
  obtain zs k where zs: "apass xs 0 = (zs, k)" "acorner zs k = (ys, l)"
    using assms(2) by (auto simp: aconsolidate_def split: prod.splits)
  have "tiled start sz zs" using apass_tiled[of start sz "[]" xs 0] assms(1) zs(1) by simp
  then show ?thesis
    using apass_largest[of start sz "[]" xs 0] acorner_largest[OF _ zs(2)] assms(1) zs(1)
    by (auto simp: word_nat)
qed

lemma atake_tiled:
  assumes "tiled start sz (as @ (a, s, Free) # bs)" and "q \<le> s" and "64 \<le> unat q"
    and "atake q as (a, s, Free) bs = (p, ys)"
  shows "tiled start sz ys" and "\<exists>t. q \<le> t \<and> unat t < unat q + 64 \<and> bytes p t \<subseteq> bytes a s
      \<and> in_use ys = add_mset (p, t, InUse) (in_use (as @ (a, s, Free) # bs))"
proof -
  have perm: "tiled start sz ((a, s, Free) # as @ bs)" by (rule tiled_mset[OF assms(1)]) simp
  have lim: "unat a + unat s < 2 ^ 64" using tiled_area(4)[OF assms(1), of a s Free] by simp
  have qs: "unat q \<le> unat s" "unat (s - q) = unat s - unat q"
    using assms(2) by (simp_all add: word_nat unat_sub_nowrap)
  show "tiled start sz ys"
  proof (cases "s - q < HEAP_BLOCK_SIZE")
    case True
    have "tiled start sz (as @ (a, s, InUse) # bs)"
      by (rule tiled_mset[OF tiled_state[OF perm]]) simp
    with True assms(4) show ?thesis by (auto simp: atake_def)
  next
    case False
    then have "unat q + 32 \<le> unat s" using qs by (simp add: word_nat HEAP_BLOCK_SIZE_def)
    then have "tiled start sz ((a + (s - q), q, InUse) # (a, s - q, Free) # as @ bs)"
      using assms(3) by (intro tiled_cut[OF perm]) auto
    then have "tiled start sz ((a + (s - q), q, InUse) # as @ (a, s - q, Free) # bs)"
      by (rule tiled_mset) simp
    with False assms(4) show ?thesis by (auto simp: atake_def)
  qed
  have "bytes (a + (s - q)) q \<subseteq> bytes a s"
    using qs lim by (auto simp: bytes_def unat_add_nowrap)
  with assms(2,4) qs show "\<exists>t. q \<le> t \<and> unat t < unat q + 64 \<and> bytes p t \<subseteq> bytes a s
      \<and> in_use ys = add_mset (p, t, InUse) (in_use (as @ (a, s, Free) # bs))"
    by (cases "s - q < HEAP_BLOCK_SIZE") (force simp: atake_def HEAP_BLOCK_SIZE_def word_nat)+
qed

lemma aalloc_tiled:
  assumes "tiled start sz xs" and "64 \<le> unat q" and "aalloc q xs = (r, ys)"
  shows "tiled start sz ys \<and>
    (case r of
       None \<Rightarrow> in_use ys = in_use xs \<and> filter (fits q) ys = [] \<and> aconsolidate ys = (ys, 0)
     | Some p \<Rightarrow> \<exists>t. q \<le> t \<and> unat t < unat q + 64 \<and> in_use ys = add_mset (p, t, InUse) (in_use xs))"
  using assms
proof (induction q xs rule: aalloc.induct)
  case (1 q xs)
  show ?case
  proof (cases "List.extract (fits q) xs")
    case None
    obtain zs l where zs: "aconsolidate xs = (zs, l)" by fastforce
    note cons = aconsolidate_tiled[OF "1.prems"(1) zs]
    show ?thesis
    proof (cases "l < HEAP_BLOCK_SIZE")
      case True
      then have "zs = xs" "l = 0"
        using aconsolidate_largest[OF "1.prems"(1) zs] by (auto simp: word_nat HEAP_BLOCK_SIZE_def)
      then have "r = None" "ys = xs"
        using None zs "1.prems"(3) by (subst (asm) aalloc.simps, simp add: HEAP_BLOCK_SIZE_def)+
      with None zs \<open>zs = xs\<close> \<open>l = 0\<close> "1.prems"(1) show ?thesis
        by (auto simp: extract_None_iff filter_empty_conv)
    next
      case False
      with None zs "1.prems"(3) have "aalloc q zs = (r, ys)"
        by (subst (asm) aalloc.simps) simp
      with "1.IH"[OF None zs[symmetric] False] cons "1.prems"(2) show ?thesis by (cases r) auto
    qed
  next
    case (Some t)
    obtain as x bs where t: "t = (as, x, bs)" by (cases t)
    then have xs: "xs = as @ x # bs" "fits q x" using Some by (simp_all add: extract_Some_iff)
    obtain a s where x: "x = (a, s, Free)" "q \<le> s" using xs(2) by (cases x) (auto simp: fits_def)
    obtain p where p: "atake q as x bs = (p, ys)" "r = Some p"
      using "1.prems"(3) Some t by (subst (asm) aalloc.simps) (auto split: prod.splits)
    have til: "tiled start sz (as @ (a, s, Free) # bs)" and tk: "atake q as (a, s, Free) bs = (p, ys)"
      using "1.prems"(1) p xs(1) x(1) by simp_all
    from atake_tiled[OF til x(2) "1.prems"(2) tk] p(2) xs(1) x(1) show ?thesis by auto
  qed
qed

section \<open>Allocation on the linked list\<close>

lemma linked_append_Cons:
  "linked m p (as @ (a, s, g) # bs) \<Longrightarrow>
     \<exists>n. m a = Some \<lparr>blk_next = n, blk_size = s, blk_magic = g\<rparr> \<and> linked m n bs"
  by (induction as arbitrary: p) auto

lemma linked_replace:
  assumes "linked m p (as @ (a, s, g) # bs)" and "a \<notin> fst ` set (as @ bs)"
    and "m a = Some b"
  shows "linked (m(a \<mapsto> b\<lparr>blk_size := s', blk_magic := g'\<rparr>)) p (as @ (a, s', g') # bs)"
  using assms by (induction as arbitrary: p) auto

lemma alloc_search_scan:
  assumes "linked (heap_mem h) (Some p) zs"
  shows "alloc_search q h p =
    (case List.extract (fits q) zs of
       Some (as, (a, s, g), bs) \<Rightarrow>
         (if s - q < HEAP_BLOCK_SIZE then Some (take_whole h a (the (heap_mem h a)))
          else Some (carve_end h a (the (heap_mem h a)) q))
     | None \<Rightarrow>
         do {
           (largest, h') \<leftarrow> heap_consolidate h;
           (if largest < HEAP_BLOCK_SIZE then Some (Err HeapNoFreeMem, h')
            else alloc_search q h' (block_list_head h'))
         })"
  using assms
proof (induction zs arbitrary: p)
  case (Cons z zs)
  obtain a s g where z: "z = (a, s, g)" by (cases z)
  with Cons.prems obtain n where p: "p = a"
    and ma: "heap_mem h a = Some \<lparr>blk_next = n, blk_size = s, blk_magic = g\<rparr>"
    and rest: "linked (heap_mem h) n zs" by auto
  show ?case
  proof (cases "fits q z")
    case True
    with z p ma show ?thesis
      by (subst alloc_search.simps) (simp add: fits_def extract_Nil_code extract_Cons_code)
  next
    case False
    show ?thesis
    proof (cases n)
      case None
      with False z p ma rest show ?thesis
        by (subst alloc_search.simps) (auto simp: fits_def extract_Nil_code extract_Cons_code)
    next
      case (Some k)
      with rest have "linked (heap_mem h) (Some k) zs" by simp
      note IH = Cons.IH[OF this]
      have "alloc_search q h p = alloc_search q h k"
        using False z p ma Some by (subst alloc_search.simps) (auto simp: fits_def)
      moreover have "List.extract (fits q) (z # zs) =
          map_option (\<lambda>(as, x, bs). (z # as, x, bs)) (List.extract (fits q) zs)"
        using False by (simp add: extract_Cons_code split: option.split)
      ultimately show ?thesis using IH by (simp split: option.split)
    qed
  qed
qed simp

lemma heap_view_append:
  assumes "heap_view h (as @ (a, s, g) # bs)"
  obtains n where "linked (heap_mem h) (Some (block_list_head h)) (as @ (a, s, g) # bs)"
    "heap_mem h a = Some \<lparr>blk_next = n, blk_size = s, blk_magic = g\<rparr>"
    "a \<notin> fst ` set (as @ bs)" "block_header_size h = size_of_HeapBlock"
    "distinct (map fst (as @ (a, s, g) # bs))"
proof -
  have lk: "linked (heap_mem h) (Some (block_list_head h)) (as @ (a, s, g) # bs)"
    and dist: "distinct (map fst (as @ (a, s, g) # bs))"
    and hdr: "block_header_size h = size_of_HeapBlock"
    using assms by (simp_all add: heap_view_def)
  have "a \<notin> fst ` set (as @ bs)" using dist by auto
  with linked_append_Cons[OF lk] lk hdr dist that show thesis by blast
qed

lemma heap_view_state:
  assumes "heap_view h (as @ (a, s, g) # bs)" and "heap_mem h a = Some b"
  shows "heap_view (h\<lparr>heap_mem := (heap_mem h)(a \<mapsto> b\<lparr>blk_magic := g'\<rparr>)\<rparr>) (as @ (a, s, g') # bs)"
proof -
  obtain n where h: "linked (heap_mem h) (Some (block_list_head h)) (as @ (a, s, g) # bs)"
    "heap_mem h a = Some \<lparr>blk_next = n, blk_size = s, blk_magic = g\<rparr>"
    "a \<notin> fst ` set (as @ bs)" "block_header_size h = size_of_HeapBlock"
    "distinct (map fst (as @ (a, s, g) # bs))"
    using heap_view_append[OF assms(1)] by blast
  have "b\<lparr>blk_size := s, blk_magic := g'\<rparr> = b\<lparr>blk_magic := g'\<rparr>" using h(2) assms(2) by simp
  then show ?thesis
    using linked_replace[OF h(1,3) assms(2), where s' = s and g' = g'] h(4,5) by (simp add: heap_view_def)
qed

lemma take_whole_view:
  assumes "heap_view h (as @ (a, s, g) # bs)"
  shows "\<exists>h'. take_whole h a (the (heap_mem h a)) = (Ok (a + size_of_HeapBlock), h')
    \<and> heap_view h' (as @ (a, s, InUse) # bs)"
proof -
  obtain n where ma: "heap_mem h a = Some \<lparr>blk_next = n, blk_size = s, blk_magic = g\<rparr>"
    and hdr: "block_header_size h = size_of_HeapBlock"
    using heap_view_append[OF assms] by blast
  from heap_view_state[OF assms ma, of InUse] show ?thesis
    by (simp add: take_whole_def ma hdr)
qed

lemma carve_end_view:
  assumes "heap_view h (as @ (a, s, g) # bs)" and "a + (s - q) \<notin> fst ` set (as @ (a, s, g) # bs)"
  shows "\<exists>h'. carve_end h a (the (heap_mem h a)) q = (Ok (a + (s - q) + size_of_HeapBlock), h')
    \<and> heap_view h' ((a + (s - q), q, InUse) # as @ (a, s - q, g) # bs)"
proof -
  obtain n where h: "linked (heap_mem h) (Some (block_list_head h)) (as @ (a, s, g) # bs)"
    "heap_mem h a = Some \<lparr>blk_next = n, blk_size = s, blk_magic = g\<rparr>"
    "a \<notin> fst ` set (as @ bs)" "block_header_size h = size_of_HeapBlock"
    "distinct (map fst (as @ (a, s, g) # bs))"
    using heap_view_append[OF assms(1)] by blast
  let ?m = "(heap_mem h)(a \<mapsto> \<lparr>blk_next = n, blk_size = s - q, blk_magic = g\<rparr>)"
  let ?b = "\<lparr>blk_next = Some (block_list_head h), blk_size = q, blk_magic = InUse\<rparr>"
  have lk: "linked ?m (Some (block_list_head h)) (as @ (a, s - q, g) # bs)"
    using linked_replace[OF h(1,3,2), where s' = "s - q" and g' = g] by simp
  have fresh: "a + (s - q) \<notin> fst ` set (as @ (a, s - q, g) # bs)" using assms(2) by simp
  have "linked (?m(a + (s - q) \<mapsto> ?b)) (Some (a + (s - q)))
      ((a + (s - q), q, InUse) # as @ (a, s - q, g) # bs)"
    using linked_upd[OF fresh] lk by simp
  moreover have "distinct (map fst ((a + (s - q), q, InUse) # as @ (a, s - q, g) # bs))"
    using fresh h(5) by auto
  ultimately show ?thesis
    using h(2,4) by (simp add: carve_end_def Let_def heap_view_def)
qed

lemma alloc_search_refines:
  assumes "heap_view h xs" and "tiled start sz xs" and "64 \<le> unat q" and "aalloc q xs = (r, ys)"
  shows "\<exists>h'. alloc_search q h (block_list_head h) =
      Some (case r of None \<Rightarrow> Err HeapNoFreeMem | Some a \<Rightarrow> Ok (a + size_of_HeapBlock), h')
    \<and> heap_view h' ys"
  using assms
proof (induction q xs arbitrary: h rule: aalloc.induct)
  case (1 q xs)
  have lk: "linked (heap_mem h) (Some (block_list_head h)) xs"
    using "1.prems"(1) by (simp add: heap_view_def)
  show ?case
  proof (cases "List.extract (fits q) xs")
    case None
    obtain zs l where zs: "aconsolidate xs = (zs, l)" by fastforce
    obtain h1 where h1: "heap_consolidate h = Some (l, h1)" "heap_view h1 zs"
      using heap_consolidate_refines[OF "1.prems"(1) zs] by blast
    have step: "alloc_search q h (block_list_head h) =
        (if l < HEAP_BLOCK_SIZE then Some (Err HeapNoFreeMem, h1)
         else alloc_search q h1 (block_list_head h1))"
      using alloc_search_scan[OF lk, of q] None h1(1) by simp
    show ?thesis
    proof (cases "l < HEAP_BLOCK_SIZE")
      case True
      with None zs "1.prems"(4) have "r = None" "ys = zs"
        by (subst (asm) aalloc.simps, simp)+
      with step True h1(2) show ?thesis by simp
    next
      case False
      with None zs "1.prems"(4) have "aalloc q zs = (r, ys)"
        by (subst (asm) aalloc.simps) simp
      from "1.IH"[OF None zs[symmetric] False h1(2) _ "1.prems"(3) this]
        aconsolidate_tiled[OF "1.prems"(2) zs] step False show ?thesis by simp
    qed
  next
    case (Some t)
    obtain as a s g bs where t: "t = (as, (a, s, g), bs)" by (metis prod.exhaust)
    then have xs: "xs = as @ (a, s, g) # bs" "q \<le> s" "g = Free"
      using Some by (simp_all add: extract_Some_iff fits_def)
    obtain p where p: "atake q as (a, s, g) bs = (p, ys)" "r = Some p"
      using "1.prems"(4) Some t by (subst (asm) aalloc.simps) (auto split: prod.splits)
    have "tiled start sz ys"
      using atake_tiled(1)[OF _ xs(2) "1.prems"(3)] "1.prems"(2) xs p by auto
    then have dist: "distinct (map fst ys)" by (rule tiled_distinct)
    show ?thesis
    proof (cases "s - q < HEAP_BLOCK_SIZE")
      case True
      with take_whole_view[of h as a s g bs] "1.prems"(1) xs(1) p alloc_search_scan[OF lk, of q] Some t
      show ?thesis by (auto simp: atake_def)
    next
      case False
      then have ys: "ys = (a + (s - q), q, InUse) # as @ (a, s - q, g) # bs" "p = a + (s - q)"
        using p by (auto simp: atake_def)
      have "a + (s - q) \<notin> fst ` set (as @ (a, s, g) # bs)" using dist ys by auto
      with carve_end_view[of h as a s g bs q] "1.prems"(1) xs(1) p(2) ys False
        alloc_search_scan[OF lk, of q] Some t
      show ?thesis by auto
    qed
  qed
qed

declare consolidate_loop.simps [code] alloc_search.simps [code]

section \<open>Sizes\<close>

lemma size_required_nat:
  assumes "unat size_of_T * unat num + 96 < 2 ^ 64"
  shows "unat (size_required size_of_T num) = ((unat size_of_T * unat num + 32) div 64 + 1) * 64"
proof -
  let ?n = "unat size_of_T * unat num"
  let ?w = "size_of_T * num + size_of_HeapBlock"
  have "unat (size_of_T * num) = ?n" using assms by (simp add: unat_word_ariths)
  then have w: "unat ?w = ?n + 32"
    using assms by (subst unat_add_nowrap) (simp_all add: size_of_HeapBlock_def)
  have small: "(?n + 32) div 64 * 64 \<le> ?n + 32" by simp
  have q: "unat (?w div HEAP_BLOCK_SIZE + 1) = (?n + 32) div 64 + 1"
    using small assms by (subst unat_add_nowrap) (simp_all add: unat_div w HEAP_BLOCK_SIZE_def)
  have "((?n + 32) div 64 + 1) * 64 < 2 ^ 64"
    using small assms by simp
  moreover have "unat (k * HEAP_BLOCK_SIZE) = unat k * 64 mod 2 ^ 64" for k :: usize
    by (simp add: unat_word_ariths HEAP_BLOCK_SIZE_def)
  ultimately show ?thesis by (simp only: size_required_def Let_def q mod_less)
qed

lemma whole_blocks:
  "64 \<le> (n div 64 + 1) * 64" "n < (n div 64 + 1) * 64" "(n div 64 + 1) * 64 \<le> n + (64 :: nat)"
  by presburger+

lemma size_required_bounds:
  assumes "unat size_of_T * unat num + 96 < 2 ^ 64"
  shows "64 \<le> unat (size_required size_of_T num)"
    and "unat size_of_T * unat num + 32 < unat (size_required size_of_T num)"
    and "unat (size_required size_of_T num) \<le> unat size_of_T * unat num + 96"
  using whole_blocks[of "unat size_of_T * unat num + 32"]
  unfolding size_required_nat[OF assms] by simp_all

section \<open>The blocks of a heap, computed\<close>

text \<open>Follows the list from an address and collects the blocks.\<close>

partial_function (option) walk :: "(usize \<rightharpoonup> HeapBlock) \<Rightarrow> usize option \<Rightarrow> ablock list option" where
  "walk m p =
     (case p of
        None \<Rightarrow> Some []
      | Some a \<Rightarrow>
          do {
            b \<leftarrow> m a;
            xs \<leftarrow> walk m (blk_next b);
            Some ((a, blk_size b, blk_magic b) # xs)
          })"

declare walk.simps [code]

definition heap_blocks :: "Heap \<Rightarrow> ablock list option" where
  "heap_blocks h = walk (heap_mem h) (Some (block_list_head h))"

definition heap_live :: "Heap \<Rightarrow> ablock multiset" where
  "heap_live h = (case heap_blocks h of None \<Rightarrow> {#} | Some xs \<Rightarrow> in_use xs)"

definition heap_ok :: "usize \<Rightarrow> usize \<Rightarrow> Heap \<Rightarrow> bool" where
  "heap_ok start sz h \<longleftrightarrow> (\<exists>xs. heap_view h xs \<and> tiled start sz xs)"

lemma linked_walk: "linked m p xs \<Longrightarrow> walk m p = Some xs"
proof (induction m p xs rule: linked.induct)
  case (2 m p a s g xs)
  then show ?case by (subst walk.simps) auto
qed (simp add: walk.simps)

lemma heap_view_blocks: "heap_view h xs \<Longrightarrow> heap_blocks h = Some xs"
  by (simp add: heap_view_def heap_blocks_def linked_walk)

lemma heap_view_live: "heap_view h xs \<Longrightarrow> heap_live h = in_use xs"
  by (simp add: heap_live_def heap_view_blocks)

lemma tiled_pair:
  assumes "tiled start sz xs" and "mset xs = add_mset x (add_mset y zs)"
  shows "adisjoint x y"
proof -
  obtain ys where "mset ys = zs" using ex_mset by blast
  then have "mset xs = mset (x # y # ys)" using assms(2) by simp
  from tiled_mset[OF assms(1) this] show ?thesis by (simp add: tiled_def)
qed

lemma in_use_subset: "in_use xs \<subseteq># mset xs"
  by (simp add: in_use_def)

lemma tiled_live_pair:
  assumes "tiled start sz xs" and "in_use xs = add_mset x L" and "y \<in># L"
  shows "adisjoint x y"
proof -
  obtain L' where "L = add_mset y L'" using assms(3) by (metis mset_add)
  then obtain zs where "mset xs = add_mset x (add_mset y zs)"
    using assms(2) in_use_subset[of xs] by (metis mset_subset_eq_exists_conv union_mset_add_mset_left)
  with tiled_pair[OF assms(1)] show ?thesis by blast
qed

section \<open>The operations on well-formed heaps\<close>

lemma heap_init_view:
  assumes "32 \<le> unat sz" and "unat start + unat sz < 2 ^ 64"
  shows "heap_view (heap_init h start sz) [(start, sz, Free)]" and "tiled start sz [(start, sz, Free)]"
  using assms
  by (auto simp: heap_view_def heap_init_def tiled_def ablock_ok_def abytes_def size_of_HeapBlock_def)

lemma heap_alloc_law:
  assumes view: "heap_view h xs" and til: "tiled start sz xs" and "num \<noteq> 0"
    and lim: "unat size_of_T * unat num + 96 < 2 ^ 64"
  obtains (ok) a t h' ys where "heap_alloc size_of_T h num = Some (Ok (a + size_of_HeapBlock), h')"
      "heap_view h' ys" "tiled start sz ys" "size_required size_of_T num \<le> t"
      "unat t < unat (size_required size_of_T num) + 64"
      "in_use ys = add_mset (a, t, InUse) (in_use xs)"
  | (err) h' ys where "heap_alloc size_of_T h num = Some (Err HeapNoFreeMem, h')"
      "heap_view h' ys" "tiled start sz ys" "in_use ys = in_use xs"
      "filter (fits (size_required size_of_T num)) ys = []" "aconsolidate ys = (ys, 0)"
proof -
  obtain r ys where al: "aalloc (size_required size_of_T num) xs = (r, ys)" by fastforce
  note big = size_required_bounds(1)[OF lim]
  obtain h' where h': "alloc_search (size_required size_of_T num) h (block_list_head h) =
      Some (case r of None \<Rightarrow> Err HeapNoFreeMem | Some a \<Rightarrow> Ok (a + size_of_HeapBlock), h')"
      "heap_view h' ys"
    using alloc_search_refines[OF view til big al] by blast
  show thesis
  proof (cases r)
    case None
    with aalloc_tiled[OF til big al] h' assms(3) show thesis
      by (intro err[of h' ys]) (simp_all add: heap_alloc_def)
  next
    case (Some a)
    with aalloc_tiled[OF til big al] obtain t where "size_required size_of_T num \<le> t"
      "unat t < unat (size_required size_of_T num) + 64"
      "in_use ys = add_mset (a, t, InUse) (in_use xs)" "tiled start sz ys" by auto
    with Some h' assms(3) show thesis
      by (intro ok[of a h' ys t]) (simp_all add: heap_alloc_def)
  qed
qed

lemma heap_free_law:
  assumes "heap_view h (as @ (a, s, g) # bs)" and "tiled start sz (as @ (a, s, g) # bs)"
  shows "\<exists>h'. heap_free h (a + size_of_HeapBlock) =
      Some (if g = InUse then Ok () else Err HeapNotInUse, h')
    \<and> heap_view h' (as @ (a, s, Free) # bs) \<and> tiled start sz (as @ (a, s, Free) # bs)"
proof -
  obtain n where ma: "heap_mem h a = Some \<lparr>blk_next = n, blk_size = s, blk_magic = g\<rparr>"
    and hdr: "block_header_size h = size_of_HeapBlock"
    using heap_view_append[OF assms(1)] by blast
  have "tiled start sz ((a, s, g) # as @ bs)" by (rule tiled_mset[OF assms(2)]) simp
  then have "tiled start sz (as @ (a, s, Free) # bs)"
    using tiled_mset[OF tiled_state[of start sz a s g "as @ bs" Free], of "as @ (a, s, Free) # bs"] by simp
  then show ?thesis
    using heap_view_state[OF assms(1) ma, of Free] assms(1) ma hdr
    by (cases g) (auto simp: heap_free_def Let_def)
qed

section \<open>The interface to a block allocator\<close>

text \<open>
  What the global allocator relies on. The live blocks are a multiset: an allocation adds one
  block with room for the request, or fails and changes none; freeing the pointer of a live
  block takes exactly that block away.
\<close>

fun free_all :: "('h \<Rightarrow> usize \<Rightarrow> (unit result \<times> 'h) option) \<Rightarrow> 'h \<Rightarrow> ablock list \<Rightarrow> 'h option" where
  "free_all free h [] = Some h"
| "free_all free h ((a, t, g) # bs) =
     do { (r, h') \<leftarrow> free h (a + size_of_HeapBlock); free_all free h' bs }"

locale block_allocator =
  fixes ok :: "'h \<Rightarrow> bool"
    and live :: "'h \<Rightarrow> ablock multiset"
    and alloc :: "'h \<Rightarrow> usize \<Rightarrow> (usize result \<times> 'h) option"
    and free :: "'h \<Rightarrow> usize \<Rightarrow> (unit result \<times> 'h) option"
  assumes alloc_law: "ok h \<Longrightarrow> n \<noteq> 0 \<Longrightarrow> unat n + 96 < 2 ^ 64 \<Longrightarrow>
      (\<exists>a t h'. alloc h n = Some (Ok (a + size_of_HeapBlock), h') \<and> ok h'
         \<and> live h' = add_mset (a, t, InUse) (live h) \<and> unat n + 32 < unat t \<and> unat a + unat t < 2 ^ 64)
      \<or> (\<exists>h'. alloc h n = Some (Err HeapNoFreeMem, h') \<and> ok h' \<and> live h' = live h)"
    and free_law: "ok h \<Longrightarrow> (a, t, InUse) \<in># live h \<Longrightarrow>
      \<exists>h'. free h (a + size_of_HeapBlock) = Some (Ok (), h') \<and> ok h'
         \<and> live h' = live h - {#(a, t, InUse)#}"
    and live_in_use: "ok h \<Longrightarrow> (a, t, g) \<in># live h \<Longrightarrow> g = InUse"
begin

lemma alloc_pointer_not_null:
  assumes "ok h" and "n \<noteq> 0" and "unat n + 96 < 2 ^ 64" and "alloc h n = Some (Ok p, h')"
  shows "p \<noteq> 0"
proof -
  have "\<not> (\<exists>h'. alloc h n = Some (Err HeapNoFreeMem, h') \<and> ok h' \<and> live h' = live h)"
    using assms(4) by simp
  then obtain a h2 and t :: usize where al: "alloc h n = Some (Ok (a + size_of_HeapBlock), h2)"
    and t: "unat n + 32 < unat t" "unat a + unat t < 2 ^ 64"
    using alloc_law[OF assms(1-3)] by blast
  have p: "p = a + size_of_HeapBlock" using al assms(4) by simp
  have "unat p = unat a + 32"
    unfolding p using t by (subst unat_add_nowrap) (simp_all add: size_of_HeapBlock_def)
  then show ?thesis by auto
qed

lemma alloc_then_free:
  assumes "ok h" and "n \<noteq> 0" and "unat n + 96 < 2 ^ 64" and "alloc h n = Some (Ok p, h1)"
  shows "\<exists>h2. free h1 p = Some (Ok (), h2) \<and> ok h2 \<and> live h2 = live h"
  using alloc_law[OF assms(1-3)] assms(4) free_law by fastforce

lemma free_all_live:
  assumes "ok h" and "mset bs = live h"
  shows "\<exists>h'. free_all free h bs = Some h' \<and> ok h' \<and> live h' = {#}"
  using assms
proof (induction bs arbitrary: h)
  case (Cons b bs)
  obtain a t g where b: "b = (a, t, g)" by (cases b)
  then have mem: "(a, t, g) \<in># live h" using Cons.prems(2)[symmetric] by simp
  then have g: "g = InUse" using live_in_use[OF Cons.prems(1)] by blast
  obtain h1 where h1: "free h (a + size_of_HeapBlock) = Some (Ok (), h1)" "ok h1"
    "live h1 = live h - {#(a, t, InUse)#}"
    using free_law[OF Cons.prems(1)] mem g by blast
  have "mset bs = live h1" using Cons.prems(2)[symmetric] h1(3) b g by simp
  from Cons.IH[OF h1(2) this] h1(1) b show ?case by simp
qed simp

end

lemma live_split:
  assumes "(a, t, InUse) \<in># in_use xs"
  obtains as bs where "xs = as @ (a, t, InUse) # bs"
    "in_use (as @ (a, t, Free) # bs) = in_use xs - {#(a, t, InUse)#}"
proof -
  have "(a, t, InUse) \<in> set xs" using assms by (simp add: in_use_def)
  then obtain as bs where "xs = as @ (a, t, InUse) # bs" by (meson split_list)
  with that[of as bs] show thesis by simp
qed

interpretation core_heap: block_allocator "heap_ok start sz" heap_live "heap_alloc 1" heap_free
  for start sz
proof unfold_locales
  fix h n a t g
  show "(\<exists>a t h'. heap_alloc 1 h n = Some (Ok (a + size_of_HeapBlock), h') \<and> heap_ok start sz h'
         \<and> heap_live h' = add_mset (a, t, InUse) (heap_live h) \<and> unat n + 32 < unat t \<and> unat a + unat t < 2 ^ 64)
      \<or> (\<exists>h'. heap_alloc 1 h n = Some (Err HeapNoFreeMem, h') \<and> heap_ok start sz h' \<and> heap_live h' = heap_live h)"
    if hyp: "heap_ok start sz h" "n \<noteq> 0" "unat n + 96 < 2 ^ 64"
  proof -
    obtain xs where xs: "heap_view h xs" "tiled start sz xs" using hyp(1) by (auto simp: heap_ok_def)
    have lim: "unat (1 :: usize) * unat n + 96 < 2 ^ 64" using hyp(3) by simp
    from xs hyp(2) lim show ?thesis
    proof (cases rule: heap_alloc_law)
      case (ok a t h' ys)
      have "(a, t, InUse) \<in># in_use ys" using ok(6) by simp
      then have "(a, t, InUse) \<in> set ys" by (simp add: in_use_def)
      then have "unat a + unat t < 2 ^ 64" using tiled_area(4)[OF ok(3)] by blast
      moreover have "unat n + 32 < unat t"
        using size_required_bounds(2)[OF lim] ok(4) by (simp add: word_nat)
      moreover have "heap_ok start sz h'" "heap_live h' = add_mset (a, t, InUse) (heap_live h)"
        using ok(2,3,6) xs(1) by (auto simp: heap_ok_def heap_view_live)
      ultimately show ?thesis using ok(1) by blast
    next
      case (err h' ys)
      have "heap_ok start sz h'" "heap_live h' = heap_live h"
        using err(2-4) xs(1) by (auto simp: heap_ok_def heap_view_live)
      then show ?thesis using err(1) by blast
    qed
  qed
  show "\<exists>h'. heap_free h (a + size_of_HeapBlock) = Some (Ok (), h') \<and> heap_ok start sz h'
         \<and> heap_live h' = heap_live h - {#(a, t, InUse)#}"
    if hyp: "heap_ok start sz h" "(a, t, InUse) \<in># heap_live h"
  proof -
    obtain xs where xs: "heap_view h xs" "tiled start sz xs" using hyp(1) by (auto simp: heap_ok_def)
    have "(a, t, InUse) \<in># in_use xs" using hyp(2) heap_view_live[OF xs(1)] by simp
    then obtain as bs where dec: "xs = as @ (a, t, InUse) # bs"
      "in_use (as @ (a, t, Free) # bs) = in_use xs - {#(a, t, InUse)#}"
      using live_split by blast
    obtain h' where h': "heap_free h (a + size_of_HeapBlock) = Some (Ok (), h')"
      "heap_view h' (as @ (a, t, Free) # bs)" "tiled start sz (as @ (a, t, Free) # bs)"
      using heap_free_law[of h as a t InUse bs start sz] xs dec(1) by auto
    have "heap_ok start sz h'" using h'(2,3) unfolding heap_ok_def by blast
    moreover have "heap_live h' = heap_live h - {#(a, t, InUse)#}"
      using heap_view_live[OF h'(2)] heap_view_live[OF xs(1)] dec(2) by simp
    ultimately show ?thesis using h'(1) by blast
  qed
  show "g = InUse" if "heap_ok start sz h" "(a, t, g) \<in># heap_live h"
    using that by (auto simp: heap_ok_def heap_view_live in_use_def)
qed

end
