(* ===== verification/Hv_PhysMem.thy ===== *)
theory Hv_PhysMem
  imports Hv_Prelude
begin

text \<open>
  Host physical memory, \<^verbatim>\<open>src/hypervisor/physmem.rs\<close>: regions, the sorted free list behind
  \<open>REGIONS\<close>, and the operations on it. The index loops of the source are kept as index
  loops; each is shown equal to a structural reference function on which the proofs work.
  The platform crate's \<open>validate_ram\<close> and \<open>boot_supervisor\<close> are parameters.
\<close>

section \<open>Regions\<close>

record Region =
  rgn_base :: usize
  rgn_size :: usize

definition PHYS_RAM_REGION_MIN_SIZE :: usize where
  "PHYS_RAM_REGION_MIN_SIZE = 64 * 1024 * 1024"

definition Region_new :: "usize \<Rightarrow> usize \<Rightarrow> Region" where
  "Region_new b s = \<lparr>rgn_base = b, rgn_size = s\<rparr>"

definition Region_end :: "Region \<Rightarrow> usize" where
  "Region_end r = rgn_base r + rgn_size r"

text \<open>The base and end handed to \<open>platform::physmem::protect\<close> with read, write and execute rights.\<close>

definition Region_grant_access :: "Region \<Rightarrow> usize \<times> usize" where
  "Region_grant_access r = (rgn_base r, rgn_base r + rgn_size r)"

definition Region_split :: "Region \<Rightarrow> usize \<Rightarrow> (Region \<times> Region) result" where
  "Region_split r cnt =
     (if cnt > rgn_size r then Err PhysRegionSplitOutOfBounds
      else Ok (Region_new (rgn_base r) cnt,
               Region_new (rgn_base r + cnt) (rgn_size r - cnt)))"

text \<open>The argument is what \<open>platform::physmem::boot_supervisor\<close> returned.\<close>

definition boot_supervisor :: "usize \<times> usize \<Rightarrow> Region" where
  "boot_supervisor be = (case be of (b, e) \<Rightarrow> \<lparr>rgn_base = b, rgn_size = e - b\<rparr>)"

section \<open>The sorted list of free regions\<close>

record SortedRegions =
  regions :: "Region list"

definition SortedRegions_new :: SortedRegions where
  "SortedRegions_new = \<lparr>regions = []\<rparr>"

function find_from :: "usize \<Rightarrow> Region list \<Rightarrow> nat \<Rightarrow> Region result \<times> Region list" where
  "find_from required_size rs index =
     (if index < length rs
      then if rgn_size (rs ! index) \<ge> required_size
           then (Ok (rs ! index), vec_remove index rs)
           else find_from required_size rs (Suc index)
      else (Err PhysRegionNoMatch, rs))"
  by pat_completeness auto
termination
  by (relation "measure (\<lambda>(q, rs, i). length rs - i)") auto

definition SortedRegions_find :: "SortedRegions \<Rightarrow> usize \<Rightarrow> Region result \<times> SortedRegions" where
  "SortedRegions_find s required_size =
     (case find_from required_size (regions s) 0 of (res, rs) \<Rightarrow> (res, s\<lparr>regions := rs\<rparr>))"

function insert_from :: "Region \<Rightarrow> Region list \<Rightarrow> nat \<Rightarrow> unit result \<times> Region list" where
  "insert_from to_insert rs index =
     (if index < length rs
      then if Region_end to_insert \<le> rgn_base (rs ! index)
           then (Ok (), vec_insert index to_insert rs)
           else if rgn_base to_insert \<ge> rgn_base (rs ! index)
                   \<and> rgn_base to_insert < Region_end (rs ! index)
           then (Err PhysRegionCollision, rs)
           else insert_from to_insert rs (Suc index)
      else (Ok (), rs @ [to_insert]))"
  by pat_completeness auto
termination
  by (relation "measure (\<lambda>(x, rs, i). length rs - i)") auto

definition SortedRegions_insert :: "SortedRegions \<Rightarrow> Region \<Rightarrow> unit result \<times> SortedRegions" where
  "SortedRegions_insert s to_insert =
     (if rgn_size to_insert = 0 then (Ok (), s)
      else case insert_from to_insert (regions s) 0 of (res, rs) \<Rightarrow> (res, s\<lparr>regions := rs\<rparr>))"

function merge_from :: "nat \<Rightarrow> Region list \<Rightarrow> Region list" where
  "merge_from cursor rs =
     (if cursor + 1 \<ge> length rs then rs
      else if Region_end (rs ! cursor) = rgn_base (rs ! (cursor + 1))
      then merge_from cursor
             (vec_remove (cursor + 1)
               (rs[cursor := (rs ! cursor)
                    \<lparr>rgn_size := rgn_size (rs ! cursor) + rgn_size (rs ! (cursor + 1))\<rparr>]))
      else merge_from (cursor + 1) rs)"
  by pat_completeness auto
termination
  by (relation "measure (\<lambda>(c, rs). length rs - c)") auto

definition SortedRegions_merge :: "SortedRegions \<Rightarrow> SortedRegions" where
  "SortedRegions_merge s = s\<lparr>regions := merge_from 0 (regions s)\<rparr>"

declare find_from.simps [simp del] insert_from.simps [simp del] merge_from.simps [simp del]

section \<open>The physical memory manager\<close>

text \<open>A chunk or section of RAM as the platform crate describes it (its \<open>RAMArea\<close>).\<close>

record RAMArea =
  area_base :: usize
  area_size :: usize

fun init_sections :: "SortedRegions \<Rightarrow> RAMArea list \<Rightarrow> SortedRegions" where
  "init_sections s [] = s"
| "init_sections s (section # rest) =
     init_sections (snd (SortedRegions_insert s (Region_new (area_base section) (area_size section)))) rest"

fun init_chunks ::
  "(usize \<Rightarrow> RAMArea \<Rightarrow> RAMArea list) \<Rightarrow> usize \<Rightarrow> SortedRegions \<Rightarrow> RAMArea list \<Rightarrow> SortedRegions" where
  "init_chunks validate_ram nr_cpu_cores s [] = s"
| "init_chunks validate_ram nr_cpu_cores s (chunk # rest) =
     init_chunks validate_ram nr_cpu_cores (init_sections s (validate_ram nr_cpu_cores chunk)) rest"

text \<open>
  The two optional arguments are the results of \<open>hardware::get_nr_cpu_cores\<close> and
  \<open>hardware::get_phys_ram_chunks\<close>. The result of each \<open>insert\<close> is dropped, as in the source.
\<close>

definition physmem_init ::
  "(usize \<Rightarrow> RAMArea \<Rightarrow> RAMArea list) \<Rightarrow> usize option \<Rightarrow> RAMArea list option \<Rightarrow>
   SortedRegions \<Rightarrow> unit result \<times> SortedRegions" where
  "physmem_init validate_ram nr_cpu_cores chunks s =
     (case nr_cpu_cores of
        None \<Rightarrow> (Err PhysicalCoreCountUnknown, s)
      | Some n \<Rightarrow>
          (case chunks of
             None \<Rightarrow> (Err PhysNoRAMFound, s)
           | Some cs \<Rightarrow> (Ok (), init_chunks validate_ram n s cs)))"

definition coalesce_regions :: "SortedRegions \<Rightarrow> SortedRegions" where
  "coalesce_regions s = SortedRegions_merge s"

definition adjusted_size :: "usize \<Rightarrow> usize" where
  "adjusted_size sz =
     (let r = sz mod PHYS_RAM_REGION_MIN_SIZE
      in if r = 0 then sz else (sz - r) + PHYS_RAM_REGION_MIN_SIZE)"

definition alloc_region :: "SortedRegions \<Rightarrow> usize \<Rightarrow> Region result \<times> SortedRegions" where
  "alloc_region s sz =
     (case SortedRegions_find s (adjusted_size sz) of
        (Ok found, s1) \<Rightarrow>
          (case Region_split found (adjusted_size sz) of
             Ok (lower, upper) \<Rightarrow> (Ok lower, snd (SortedRegions_insert s1 upper))
           | Err e \<Rightarrow> (Err e, s1))
      | (Err e, s1) \<Rightarrow> (Err PhysNotEnoughFreeRAM, s1))"

definition dealloc_region :: "SortedRegions \<Rightarrow> Region \<Rightarrow> unit result \<times> SortedRegions" where
  "dealloc_region s to_free = SortedRegions_insert s to_free"

section \<open>Well-formed free lists\<close>

definition region_bytes :: "Region \<Rightarrow> nat set" where
  "region_bytes r = bytes (rgn_base r) (rgn_size r)"

definition free_bytes :: "SortedRegions \<Rightarrow> nat set" where
  "free_bytes s = \<Union> (region_bytes ` set (regions s))"

text \<open>A region whose end is an address: \<open>base + size\<close> does not wrap.\<close>

definition region_ok :: "Region \<Rightarrow> bool" where
  "region_ok r \<longleftrightarrow> unat (rgn_base r) + unat (rgn_size r) < 2 ^ 64"

definition below :: "Region \<Rightarrow> Region \<Rightarrow> bool" where
  "below a b \<longleftrightarrow> unat (rgn_base a) + unat (rgn_size a) \<le> unat (rgn_base b)"

definition strictly_below :: "Region \<Rightarrow> Region \<Rightarrow> bool" where
  "strictly_below a b \<longleftrightarrow> unat (rgn_base a) + unat (rgn_size a) < unat (rgn_base b)"

definition real_region :: "Region \<Rightarrow> bool" where
  "real_region r \<longleftrightarrow> region_ok r \<and> rgn_size r \<noteq> 0"

text \<open>Sorted by base, pairwise disjoint, no empty region: what the comment above \<open>REGIONS\<close> asks for.\<close>

definition regions_inv :: "SortedRegions \<Rightarrow> bool" where
  "regions_inv s \<longleftrightarrow> list_all real_region (regions s) \<and> sorted_wrt below (regions s)"

text \<open>In addition no region touches the next one.\<close>

definition regions_merged :: "SortedRegions \<Rightarrow> bool" where
  "regions_merged s \<longleftrightarrow> list_all real_region (regions s) \<and> sorted_wrt strictly_below (regions s)"

section \<open>Reference functions\<close>

text \<open>What the three index loops compute, by recursion on the list.\<close>

fun first_fit :: "usize \<Rightarrow> Region list \<Rightarrow> (Region \<times> Region list) option" where
  "first_fit q [] = None"
| "first_fit q (r # rs) =
     (if q \<le> rgn_size r then Some (r, rs)
      else map_option (\<lambda>(x, ys). (x, r # ys)) (first_fit q rs))"

fun place :: "Region \<Rightarrow> Region list \<Rightarrow> Region list option" where
  "place x [] = Some [x]"
| "place x (r # rs) =
     (if Region_end x \<le> rgn_base r then Some (x # r # rs)
      else if rgn_base r \<le> rgn_base x \<and> rgn_base x < Region_end r then None
      else map_option ((#) r) (place x rs))"

fun coalesce :: "Region list \<Rightarrow> Region list" where
  "coalesce (a # b # rs) =
     (if Region_end a = rgn_base b
      then coalesce (a\<lparr>rgn_size := rgn_size a + rgn_size b\<rparr> # rs)
      else a # coalesce (b # rs))"
| "coalesce rs = rs"

lemmas region_defs = region_ok_def real_region_def below_def strictly_below_def
  region_bytes_def Region_new_def

lemma Region_end_nat:
  "region_ok r \<Longrightarrow> unat (Region_end r) = unat (rgn_base r) + unat (rgn_size r)"
  by (simp add: Region_end_def region_ok_def unat_add_nowrap)

lemma region_eqI:
  "unat (rgn_base a) = unat (rgn_base b) \<Longrightarrow> unat (rgn_size a) = unat (rgn_size b) \<Longrightarrow>
   a = (b :: Region)"
  by (rule Region.equality) (simp_all add: unat_eq_iff)

lemma free_bytes_simps [simp]:
  "free_bytes \<lparr>regions = []\<rparr> = {}"
  "free_bytes \<lparr>regions = r # rs\<rparr> = region_bytes r \<union> free_bytes \<lparr>regions = rs\<rparr>"
  "free_bytes \<lparr>regions = rs @ rs'\<rparr> = free_bytes \<lparr>regions = rs\<rparr> \<union> free_bytes \<lparr>regions = rs'\<rparr>"
  by (auto simp: free_bytes_def)

lemma below_disjoint: "below a b \<Longrightarrow> region_bytes a \<inter> region_bytes b = {}"
  by (auto simp: region_defs bytes_def)

lemma disjoint_below:
  "real_region a \<Longrightarrow> real_region b \<Longrightarrow> region_bytes a \<inter> region_bytes b = {} \<Longrightarrow> below a b \<or> below b a"
  by (simp add: region_defs bytes_disjoint_iff)

lemma below_trans: "below a b \<Longrightarrow> below b c \<Longrightarrow> below a c"
  by (simp add: below_def)

section \<open>The loops compute the reference functions\<close>

lemma find_from_first_fit:
  "find_from q (as @ bs) (length as) =
     (case first_fit q bs of
        None \<Rightarrow> (Err PhysRegionNoMatch, as @ bs)
      | Some (r, cs) \<Rightarrow> (Ok r, as @ cs))"
proof (induction bs arbitrary: as)
  case Nil
  then show ?case by (simp add: find_from.simps)
next
  case (Cons b bs)
  from Cons.IH[of "as @ [b]"] show ?case
    by (subst find_from.simps) (auto split: option.splits)
qed

lemma insert_from_place:
  "insert_from x (as @ bs) (length as) =
     (case place x bs of
        None \<Rightarrow> (Err PhysRegionCollision, as @ bs)
      | Some cs \<Rightarrow> (Ok (), as @ cs))"
proof (induction bs arbitrary: as)
  case Nil
  then show ?case by (simp add: insert_from.simps)
next
  case (Cons b bs)
  from Cons.IH[of "as @ [b]"] show ?case
    by (subst insert_from.simps) (auto split: option.splits)
qed

lemma merge_from_coalesce: "merge_from (length as) (as @ bs) = as @ coalesce bs"
proof (induction bs arbitrary: as rule: coalesce.induct)
  case (1 a b rs)
  show ?case
  proof (cases "Region_end a = rgn_base b")
    case True
    let ?c = "a\<lparr>rgn_size := rgn_size a + rgn_size b\<rparr>"
    have "vec_remove (length (as @ [?c])) ((as @ [?c]) @ b # rs) = (as @ [?c]) @ rs"
      by (rule vec_remove_append)
    then have "vec_remove (Suc (length as)) (as @ ?c # b # rs) = as @ ?c # rs"
      by simp
    with True "1.IH"(1)[OF True, of as] show ?thesis
      by (subst merge_from.simps) (simp add: nth_append)
  next
    case False
    with "1.IH"(2)[OF False, of "as @ [a]"] show ?thesis
      by (subst merge_from.simps) (simp add: nth_append)
  qed
qed (simp_all add: merge_from.simps)

lemma SortedRegions_find_eq [hv_spec]:
  "SortedRegions_find s q =
     (case first_fit q (regions s) of
        None \<Rightarrow> (Err PhysRegionNoMatch, s)
      | Some (r, rs) \<Rightarrow> (Ok r, s\<lparr>regions := rs\<rparr>))"
  using find_from_first_fit[of q "[]" "regions s"]
  by (simp add: SortedRegions_find_def split: option.splits)

lemma SortedRegions_insert_eq [hv_spec]:
  "SortedRegions_insert s x =
     (if rgn_size x = 0 then (Ok (), s)
      else case place x (regions s) of
        None \<Rightarrow> (Err PhysRegionCollision, s)
      | Some rs \<Rightarrow> (Ok (), s\<lparr>regions := rs\<rparr>))"
  using insert_from_place[of x "[]" "regions s"]
  by (simp add: SortedRegions_insert_def split: option.splits)

lemma SortedRegions_merge_eq [hv_spec]:
  "SortedRegions_merge s = s\<lparr>regions := coalesce (regions s)\<rparr>"
  using merge_from_coalesce[of "[]" "regions s"] by (simp add: SortedRegions_merge_def)

section \<open>First fit, placing and merging on well-formed lists\<close>

lemma first_fit_Some:
  assumes "first_fit q rs = Some (r, rs')"
  obtains as bs where "rs = as @ r # bs" "rs' = as @ bs" "q \<le> rgn_size r"
    "\<And>a. a \<in> set as \<Longrightarrow> rgn_size a < q"
proof -
  have "\<exists>as bs. rs = as @ r # bs \<and> rs' = as @ bs \<and> q \<le> rgn_size r \<and> (\<forall>a\<in>set as. rgn_size a < q)"
    using assms
  proof (induction rs arbitrary: rs')
    case (Cons b rs)
    show ?case
    proof (cases "q \<le> rgn_size b")
      case True
      with Cons.prems show ?thesis by (intro exI[of _ "[]"] exI[of _ rs]) simp
    next
      case False
      with Cons.prems obtain ys where "first_fit q rs = Some (r, ys)" and rs': "rs' = b # ys"
        by auto
      with Cons.IH obtain as bs where "rs = as @ r # bs \<and> ys = as @ bs \<and> q \<le> rgn_size r
          \<and> (\<forall>a\<in>set as. rgn_size a < q)" by blast
      with False rs' show ?thesis by (intro exI[of _ "b # as"] exI[of _ bs]) auto
    qed
  qed simp
  with that show thesis by blast
qed

lemma first_fit_None: "first_fit q rs = None \<longleftrightarrow> (\<forall>r\<in>set rs. rgn_size r < q)"
  by (induction rs) auto

lemma regions_inv_append:
  "regions_inv \<lparr>regions = as @ bs\<rparr> \<longleftrightarrow>
     regions_inv \<lparr>regions = as\<rparr> \<and> regions_inv \<lparr>regions = bs\<rparr> \<and> (\<forall>a\<in>set as. \<forall>b\<in>set bs. below a b)"
  by (auto simp: regions_inv_def sorted_wrt_append)

lemma regions_inv_Cons:
  "regions_inv \<lparr>regions = r # rs\<rparr> \<longleftrightarrow>
     real_region r \<and> regions_inv \<lparr>regions = rs\<rparr> \<and> (\<forall>b\<in>set rs. below r b)"
  by (auto simp: regions_inv_def)

lemma place_disjoint:
  assumes "regions_inv \<lparr>regions = rs\<rparr>" and "real_region x"
    and "region_bytes x \<inter> free_bytes \<lparr>regions = rs\<rparr> = {}"
  obtains as bs where "rs = as @ bs" "place x rs = Some (as @ x # bs)"
    "\<And>a. a \<in> set as \<Longrightarrow> below a x" "\<And>b. b \<in> set bs \<Longrightarrow> below x b"
proof -
  have "\<exists>as bs. rs = as @ bs \<and> place x rs = Some (as @ x # bs)
      \<and> (\<forall>a\<in>set as. below a x) \<and> (\<forall>b\<in>set bs. below x b)"
    using assms
  proof (induction rs)
    case (Cons r rs)
    then have r: "real_region r" and rest: "\<forall>b\<in>set rs. below r b"
      and disj: "region_bytes x \<inter> region_bytes r = {}"
      by (auto simp: regions_inv_Cons)
    from disjoint_below[OF Cons.prems(2) r disj] show ?case
    proof
      assume "below x r"
      then have "Region_end x \<le> rgn_base r"
        using Cons.prems(2) by (simp add: word_nat Region_end_nat real_region_def below_def)
      with \<open>below x r\<close> rest show ?thesis
        by (intro exI[of _ "[]"] exI[of _ "r # rs"]) (auto intro: below_trans)
    next
      assume rx: "below r x"
      have "\<not> Region_end x \<le> rgn_base r" "\<not> rgn_base x < Region_end r"
        using rx r Cons.prems(2)
        by (auto simp: word_nat Region_end_nat real_region_def below_def usize_eq_0_iff)
      moreover obtain as bs where "rs = as @ bs \<and> place x rs = Some (as @ x # bs)
          \<and> (\<forall>a\<in>set as. below a x) \<and> (\<forall>b\<in>set bs. below x b)"
        using Cons by (auto simp: regions_inv_Cons Int_Un_distrib)
      ultimately show ?thesis using rx
        by (intro exI[of _ "r # as"] exI[of _ bs]) auto
    qed
  qed simp
  with that show thesis by blast
qed

lemma place_set: "place x rs = Some rs' \<Longrightarrow> set rs' = insert x (set rs)"
  by (induction rs arbitrary: rs') (auto split: if_splits)

lemma place_None:
  assumes "regions_inv \<lparr>regions = rs\<rparr>" and "real_region x"
  shows "place x rs = None \<longleftrightarrow> unat (rgn_base x) \<in> free_bytes \<lparr>regions = rs\<rparr>"
  using assms(1)
proof (induction rs)
  case (Cons r rs)
  from Cons.prems have r: "real_region r" and rest: "\<forall>b\<in>set rs. below r b"
    and IH: "place x rs = None \<longleftrightarrow> unat (rgn_base x) \<in> free_bytes \<lparr>regions = rs\<rparr>"
    using Cons.IH by (auto simp: regions_inv_Cons)
  have le: "Region_end x \<le> rgn_base r \<longleftrightarrow> below x r"
    using assms(2) by (simp add: word_nat Region_end_nat real_region_def below_def)
  have inr: "rgn_base r \<le> rgn_base x \<and> rgn_base x < Region_end r \<longleftrightarrow>
      unat (rgn_base x) \<in> region_bytes r"
    using r by (simp add: word_nat Region_end_nat real_region_def region_bytes_def bytes_def)
  have "unat (rgn_base x) \<notin> free_bytes \<lparr>regions = r # rs\<rparr>" if "below x r"
    using that rest assms(2)
    by (fastforce simp: free_bytes_def region_bytes_def bytes_def below_def real_region_def
        usize_eq_0_iff)
  with le inr IH show ?case by auto
qed simp

lemma join_regions:
  assumes "regions_inv \<lparr>regions = a # b # rs\<rparr>" and "Region_end a = rgn_base b"
  defines "c \<equiv> a\<lparr>rgn_size := rgn_size a + rgn_size b\<rparr>"
  shows "regions_inv \<lparr>regions = c # rs\<rparr>" and "region_bytes c = region_bytes a \<union> region_bytes b"
proof -
  from assms(1) have a: "real_region a" and b: "real_region b"
    and rest: "regions_inv \<lparr>regions = rs\<rparr>" "\<forall>x\<in>set rs. below b x"
    by (auto simp: regions_inv_Cons)
  have adj: "unat (rgn_base b) = unat (rgn_base a) + unat (rgn_size a)"
    using a assms(2) Region_end_nat[of a] by (simp add: real_region_def)
  then have sum: "unat (rgn_size a + rgn_size b) = unat (rgn_size a) + unat (rgn_size b)"
    using b by (intro unat_add_nowrap) (simp add: real_region_def region_ok_def)
  have "real_region c"
    using a b adj sum by (simp add: c_def real_region_def region_ok_def usize_eq_0_iff)
  moreover have "\<forall>x\<in>set rs. below c x"
    using rest(2) adj sum by (simp add: c_def below_def add.assoc)
  ultimately show "regions_inv \<lparr>regions = c # rs\<rparr>"
    using rest(1) by (simp add: regions_inv_Cons)
  show "region_bytes c = region_bytes a \<union> region_bytes b"
    using adj sum by (auto simp: c_def region_bytes_def bytes_def)
qed

lemma coalesce_free_bytes:
  "regions_inv \<lparr>regions = rs\<rparr> \<Longrightarrow>
     free_bytes \<lparr>regions = coalesce rs\<rparr> = free_bytes \<lparr>regions = rs\<rparr>"
proof (induction rs rule: coalesce.induct)
  case (1 a b rs)
  show ?case
  proof (cases "Region_end a = rgn_base b")
    case True
    with 1 join_regions[OF "1.prems" True] show ?thesis by auto
  next
    case False
    with 1 show ?thesis by (simp add: regions_inv_Cons)
  qed
qed simp_all

lemma coalesce_bases: "rgn_base ` set (coalesce rs) \<subseteq> rgn_base ` set rs"
  by (induction rs rule: coalesce.induct) auto

lemma coalesce_merged:
  "regions_inv \<lparr>regions = rs\<rparr> \<Longrightarrow> regions_merged \<lparr>regions = coalesce rs\<rparr>"
proof (induction rs rule: coalesce.induct)
  case (1 a b rs)
  show ?case
  proof (cases "Region_end a = rgn_base b")
    case True
    with 1 join_regions[OF "1.prems" True] show ?thesis by simp
  next
    case False
    from "1.prems" have inv: "regions_inv \<lparr>regions = b # rs\<rparr>" and a: "real_region a"
      and ab: "below a b" "\<forall>x\<in>set rs. below b x"
      by (auto simp: regions_inv_Cons)
    have "unat (rgn_base a) + unat (rgn_size a) < unat (rgn_base b)"
      using False ab(1) a Region_end_nat[of a] by (simp add: below_def real_region_def unat_eq_iff)
    then have "strictly_below a x" if "x \<in> set (coalesce (b # rs))" for x
      using that coalesce_bases[of "b # rs"] ab(2) by (fastforce simp: strictly_below_def below_def)
    with False a "1.IH"(2)[OF False inv] show ?thesis by (simp add: regions_merged_def)
  qed
qed (simp_all add: regions_merged_def regions_inv_def)

lemma regions_merged_inv: "regions_merged s \<Longrightarrow> regions_inv s"
  unfolding regions_merged_def regions_inv_def
  by (auto elim: sorted_wrt_mono_rel[rotated] simp: strictly_below_def below_def)

lemma coalesce_fixpoint: "regions_merged \<lparr>regions = rs\<rparr> \<Longrightarrow> coalesce rs = rs"
proof (induction rs rule: coalesce.induct)
  case (1 a b rs)
  then have "Region_end a \<noteq> rgn_base b"
    using Region_end_nat[of a] by (auto simp: regions_merged_def strictly_below_def real_region_def)
  with 1 show ?case by (simp add: regions_merged_def)
qed simp_all

text \<open>A merged list is determined by the bytes it covers.\<close>

lemma regions_merged_Cons:
  "regions_merged \<lparr>regions = r # rs\<rparr> \<longleftrightarrow>
     real_region r \<and> regions_merged \<lparr>regions = rs\<rparr> \<and> (\<forall>b\<in>set rs. strictly_below r b)"
  by (auto simp: regions_merged_def)

lemma merged_first_base:
  assumes "regions_merged \<lparr>regions = r # rs\<rparr>" and "n \<in> free_bytes \<lparr>regions = r # rs\<rparr>"
  shows "unat (rgn_base r) \<le> n"
  using assms
  by (fastforce simp: free_bytes_def regions_merged_Cons region_bytes_def bytes_def strictly_below_def)

lemma merged_first_end:
  assumes "regions_merged \<lparr>regions = r # rs\<rparr>"
  shows "unat (rgn_base r) + unat (rgn_size r) \<notin> free_bytes \<lparr>regions = r # rs\<rparr>"
  using assms
  by (fastforce simp: free_bytes_def regions_merged_Cons region_bytes_def bytes_def strictly_below_def)

lemma merged_first_in:
  "real_region r \<Longrightarrow> unat (rgn_base r) \<in> free_bytes \<lparr>regions = r # rs\<rparr>"
  by (simp add: region_bytes_def bytes_def real_region_def usize_eq_0_iff)

lemma real_region_nonempty: "real_region r \<Longrightarrow> region_bytes r \<noteq> {}"
  by (simp add: real_region_def region_bytes_def)

lemma merged_rest:
  assumes "regions_merged \<lparr>regions = r # rs\<rparr>"
  shows "free_bytes \<lparr>regions = rs\<rparr> = free_bytes \<lparr>regions = r # rs\<rparr> - region_bytes r"
  using assms
  by (fastforce simp: free_bytes_def regions_merged_Cons region_bytes_def bytes_def strictly_below_def)

lemma merged_unique_list:
  assumes "regions_merged \<lparr>regions = xs\<rparr>" and "regions_merged \<lparr>regions = ys\<rparr>"
    and "free_bytes \<lparr>regions = xs\<rparr> = free_bytes \<lparr>regions = ys\<rparr>"
  shows "xs = ys"
  using assms
proof (induction xs arbitrary: ys)
  case Nil
  then show ?case by (cases ys) (auto simp: regions_merged_Cons real_region_nonempty)
next
  case (Cons x xs)
  then obtain y ys' where ys: "ys = y # ys'"
    by (cases ys) (auto simp: regions_merged_Cons real_region_nonempty)
  let ?F = "free_bytes \<lparr>regions = x # xs\<rparr>"
  have x: "real_region x" and y: "real_region y" and F: "?F = free_bytes \<lparr>regions = y # ys'\<rparr>"
    using Cons.prems ys by (auto simp: regions_merged_Cons)
  have base: "unat (rgn_base x) = unat (rgn_base y)"
    using merged_first_base Cons.prems ys F merged_first_in[OF x] merged_first_in[OF y]
    by (metis le_antisym)
  have "\<not> unat (rgn_size x) < unat (rgn_size y)"
    using merged_first_end[OF Cons.prems(1)] F base
    by (auto simp: region_bytes_def bytes_def)
  moreover have "\<not> unat (rgn_size y) < unat (rgn_size x)"
    using merged_first_end[OF Cons.prems(2)[unfolded ys]] F[symmetric] base
    by (auto simp: region_bytes_def bytes_def)
  ultimately have xy: "x = y" using base by (intro region_eqI) auto
  have "free_bytes \<lparr>regions = xs\<rparr> = free_bytes \<lparr>regions = ys'\<rparr>"
    using merged_rest Cons.prems ys F xy by metis
  with Cons.IH Cons.prems ys xy show ?case by (simp add: regions_merged_Cons)
qed

lemma merged_unique:
  assumes "regions_merged s" and "regions_merged t" and "free_bytes s = free_bytes t"
  shows "s = t"
  using assms merged_unique_list[of "regions s" "regions t"] by (cases s; cases t) simp

section \<open>Operations on well-formed free lists\<close>

lemma regions_update [simp]: "(s :: SortedRegions)\<lparr>regions := rs\<rparr> = \<lparr>regions = rs\<rparr>"
  by (cases s) simp

lemma regions_surjective: "\<lparr>regions = regions s\<rparr> = (s :: SortedRegions)"
  by (cases s) simp

lemma regions_eqD: "regions (s :: SortedRegions) = rs \<Longrightarrow> s = \<lparr>regions = rs\<rparr>"
  by (cases s) simp

lemma insert_disjoint:
  assumes "regions_inv s" and "region_ok x" and "region_bytes x \<inter> free_bytes s = {}"
  shows "\<exists>s'. SortedRegions_insert s x = (Ok (), s') \<and> regions_inv s'
           \<and> free_bytes s' = free_bytes s \<union> region_bytes x"
proof (cases "rgn_size x = 0")
  case True
  with assms(1) show ?thesis by (simp add: SortedRegions_insert_eq region_bytes_def)
next
  case False
  have real: "real_region x" using False assms(2) by (simp add: real_region_def)
  have "regions_inv \<lparr>regions = regions s\<rparr>" "region_bytes x \<inter> free_bytes \<lparr>regions = regions s\<rparr> = {}"
    using assms by (simp_all add: regions_surjective)
  then obtain as bs where rs: "regions s = as @ bs" and pl: "place x (regions s) = Some (as @ x # bs)"
    and as: "\<And>a. a \<in> set as \<Longrightarrow> below a x" and bs: "\<And>b. b \<in> set bs \<Longrightarrow> below x b"
    using place_disjoint[OF _ real] by metis
  have "regions_inv \<lparr>regions = as @ x # bs\<rparr>"
    using assms(1) real as bs rs
    by (subst (asm) regions_surjective[symmetric]) (auto simp: regions_inv_append regions_inv_Cons)
  moreover have "free_bytes \<lparr>regions = as @ x # bs\<rparr> = free_bytes s \<union> region_bytes x"
    by (subst (2) regions_surjective[symmetric]) (auto simp: rs)
  ultimately show ?thesis using False pl by (simp add: SortedRegions_insert_eq)
qed

lemma alloc_region_cases:
  obtains (none) "\<And>r. r \<in> set (regions s) \<Longrightarrow> rgn_size r < adjusted_size sz"
      "alloc_region s sz = (Err PhysNotEnoughFreeRAM, s)"
  | (some) as r bs where "regions s = as @ r # bs" "adjusted_size sz \<le> rgn_size r"
      "\<And>a. a \<in> set as \<Longrightarrow> rgn_size a < adjusted_size sz"
      "alloc_region s sz = (Ok \<lparr>rgn_base = rgn_base r, rgn_size = adjusted_size sz\<rparr>,
         snd (SortedRegions_insert \<lparr>regions = as @ bs\<rparr>
           \<lparr>rgn_base = rgn_base r + adjusted_size sz, rgn_size = rgn_size r - adjusted_size sz\<rparr>))"
proof (cases "first_fit (adjusted_size sz) (regions s)")
  case None
  then have "alloc_region s sz = (Err PhysNotEnoughFreeRAM, s)"
    by (simp add: alloc_region_def SortedRegions_find_eq)
  with None show thesis by (intro none) (auto simp: first_fit_None)
next
  case (Some p)
  obtain r rs' where p: "p = (r, rs')" by (cases p)
  obtain as bs where dec: "regions s = as @ r # bs" "rs' = as @ bs" "adjusted_size sz \<le> rgn_size r"
    "\<And>a. a \<in> set as \<Longrightarrow> rgn_size a < adjusted_size sz"
    using first_fit_Some Some p by metis
  show thesis
    by (rule some[OF dec(1,3,4)])
      (use dec Some p in \<open>auto simp: alloc_region_def SortedRegions_find_eq Region_split_def
        Region_new_def not_less\<close>)
qed

lemma alloc_region_law:
  assumes inv: "regions_inv s" and al: "alloc_region s sz = (Ok r, s')"
  shows "regions_inv s'" and "region_ok r" and "rgn_size r = adjusted_size sz"
    and "region_bytes r \<subseteq> free_bytes s" and "free_bytes s' = free_bytes s - region_bytes r"
proof -
  let ?q = "adjusted_size sz"
  obtain as f bs where rs: "regions s = as @ f # bs" and q: "?q \<le> rgn_size f"
    and eq: "r = \<lparr>rgn_base = rgn_base f, rgn_size = ?q\<rparr>"
      "s' = snd (SortedRegions_insert \<lparr>regions = as @ bs\<rparr>
         \<lparr>rgn_base = rgn_base f + ?q, rgn_size = rgn_size f - ?q\<rparr>)"
    using al by (cases rule: alloc_region_cases[where s = s and sz = sz]) auto
  let ?u = "\<lparr>rgn_base = rgn_base f + ?q, rgn_size = rgn_size f - ?q\<rparr>"
  have inv': "regions_inv \<lparr>regions = as @ f # bs\<rparr>" using inv regions_eqD[OF rs] by simp
  then have f: "real_region f" and rest: "regions_inv \<lparr>regions = as @ bs\<rparr>"
    and as: "\<forall>a\<in>set as. below a f" and bs: "\<forall>b\<in>set bs. below f b"
    by (auto simp: regions_inv_append regions_inv_Cons)
  have len: "unat ?q \<le> unat (rgn_size f)" "unat (rgn_base f) + unat (rgn_size f) < 2 ^ 64"
    using q f by (simp_all add: word_nat real_region_def region_ok_def)
  have parts: "region_bytes f = region_bytes r \<union> region_bytes ?u" "region_bytes r \<inter> region_bytes ?u = {}"
    using bytes_split[OF len] by (simp_all add: region_bytes_def eq)
  have out: "region_bytes f \<inter> free_bytes \<lparr>regions = as @ bs\<rparr> = {}"
    using as bs below_disjoint by (fastforce simp: free_bytes_def)
  have free: "free_bytes s = region_bytes f \<union> free_bytes \<lparr>regions = as @ bs\<rparr>"
    by (subst regions_surjective[symmetric]) (auto simp: rs)
  show "region_ok r" "rgn_size r = ?q" using len by (simp_all add: eq region_ok_def)
  show "region_bytes r \<subseteq> free_bytes s" using parts free by blast
  have "region_ok ?u" using len by (simp add: region_ok_def unat_add_nowrap unat_sub_nowrap)
  then obtain s2 where "SortedRegions_insert \<lparr>regions = as @ bs\<rparr> ?u = (Ok (), s2)"
    "regions_inv s2" "free_bytes s2 = free_bytes \<lparr>regions = as @ bs\<rparr> \<union> region_bytes ?u"
    using insert_disjoint[OF rest, of ?u] parts out by blast
  then show "regions_inv s'" "free_bytes s' = free_bytes s - region_bytes r"
    using eq parts out free by auto
qed

lemma alloc_region_Err:
  "alloc_region s sz = (Err e, s') \<longleftrightarrow>
     e = PhysNotEnoughFreeRAM \<and> s' = s \<and> (\<forall>r\<in>set (regions s). rgn_size r < adjusted_size sz)"
  by (cases rule: alloc_region_cases[where s = s and sz = sz]) (auto simp: not_less)

lemma merge_law:
  assumes "regions_inv s"
  shows "regions_merged (SortedRegions_merge s)"
    and "free_bytes (SortedRegions_merge s) = free_bytes s"
  using assms coalesce_merged[of "regions s"] coalesce_free_bytes[of "regions s"]
  by (simp_all add: SortedRegions_merge_eq regions_surjective)

section \<open>Rounding\<close>

lemma min_size_nat [simp]: "unat PHYS_RAM_REGION_MIN_SIZE = 67108864"
  by (simp add: PHYS_RAM_REGION_MIN_SIZE_def)

lemma min_size_mod: "unat (sz mod PHYS_RAM_REGION_MIN_SIZE) = unat sz mod 67108864"
  by (simp add: unat_mod)

lemma round_up_multiple:
  assumes "0 < m" and "n mod m = 0"
  shows "(n + (m - 1)) div m * m = (n :: nat)"
proof -
  obtain k where "n = m * k" using assms(2) by (meson dvd_def mod_0_imp_dvd)
  moreover have "(m * k + (m - 1)) div m = k"
    using assms(1) by (intro div_nat_eqI) simp_all
  ultimately show ?thesis by simp
qed

lemma round_up_rest:
  assumes "0 < m" and "n mod m \<noteq> 0"
  shows "(n + (m - 1)) div m * m = n - n mod m + (m :: nat)"
proof -
  define k r where "k = n div m" and "r = n mod m"
  have n: "n = m * k + r" and r: "0 < r" "r < m"
    using assms by (simp_all add: k_def r_def)
  have "n + (m - 1) = m * Suc k + (r - 1)" using n r by simp
  moreover have "(m * Suc k + (r - 1)) div m = Suc k"
    using r by (intro div_nat_eqI) simp_all
  moreover have "n - n mod m = m * k" by (simp add: k_def minus_mod_eq_mult_div)
  ultimately show ?thesis by (simp only: mult.commute[of _ m] mult_Suc_right add.commute[of m])
qed

lemma adjusted_size_fits:
  assumes "unat sz \<le> 2 ^ 64 - 2 ^ 26"
  shows "unat (adjusted_size sz) = (unat sz + (67108864 - 1)) div 67108864 * 67108864"
proof (cases "unat sz mod 67108864 = 0")
  case True
  then have "sz mod PHYS_RAM_REGION_MIN_SIZE = 0"
    using min_size_mod[of sz] by (simp add: usize_eq_0_iff)
  then have "adjusted_size sz = sz" by (simp add: adjusted_size_def)
  then show ?thesis by (subst round_up_multiple[OF _ True]) simp_all
next
  case False
  let ?r = "sz mod PHYS_RAM_REGION_MIN_SIZE"
  have r: "?r \<noteq> 0" "unat (sz - ?r) = unat sz - unat sz mod 67108864"
    using False min_size_mod[of sz] unat_sub_nowrap[of ?r sz] by (auto simp: usize_eq_0_iff)
  have "unat sz \<le> 18446744073642442752" "unat sz mod 67108864 \<le> unat sz"
    using assms by simp_all
  then have "unat sz - unat sz mod 67108864 + 67108864 < 18446744073709551616"
    using False by linarith
  then have "unat (sz - ?r + PHYS_RAM_REGION_MIN_SIZE) = unat sz - unat sz mod 67108864 + 67108864"
    using r by (subst unat_add_nowrap) simp_all
  then have "unat (adjusted_size sz) = unat sz - unat sz mod 67108864 + 67108864"
    using r(1) by (simp only: adjusted_size_def Let_def if_False)
  then show ?thesis by (subst round_up_rest[OF _ False]) simp_all
qed

lemma adjusted_size_wraps:
  assumes "2 ^ 64 - 2 ^ 26 < unat sz"
  shows "adjusted_size sz = 0"
proof -
  let ?r = "sz mod PHYS_RAM_REGION_MIN_SIZE"
  have "unat sz div 67108864 = 274877906943"
    using assms usize_bound_num[of sz] by (intro div_nat_eqI) simp_all
  then have sub: "unat sz - unat sz mod 67108864 = 67108864 * 274877906943"
    by (simp add: minus_mod_eq_mult_div)
  then have "unat sz mod 67108864 \<noteq> 0" using assms by auto
  then have r: "?r \<noteq> 0" "unat (sz - ?r) = unat sz - unat sz mod 67108864"
    using min_size_mod[of sz] unat_sub_nowrap[of ?r sz] by (auto simp: usize_eq_0_iff)
  have "unat (sz - ?r + PHYS_RAM_REGION_MIN_SIZE) = 0"
    using r sub by (simp add: unat_add_mod)
  with r show ?thesis by (simp add: adjusted_size_def Let_def usize_eq_0_iff)
qed

section \<open>The interface to the pool of physical RAM\<close>

text \<open>
  What the capsule manager relies on: a pool hands out areas it owned, loses exactly those
  bytes, takes back any area it does not own, and may be tidied up at any time.
  \<open>holds rs F\<close> says that the areas \<open>rs\<close> are held outside the pool whose free bytes are
  \<open>F\<close>: none of them overlaps another or the pool.
\<close>

definition apart :: "Region \<Rightarrow> Region \<Rightarrow> bool" where
  "apart a b \<longleftrightarrow> region_bytes a \<inter> region_bytes b = {}"

definition holds :: "Region list \<Rightarrow> nat set \<Rightarrow> bool" where
  "holds rs F \<longleftrightarrow> sorted_wrt apart rs \<and> (\<forall>r\<in>set rs. region_ok r \<and> region_bytes r \<inter> F = {})"

definition held_bytes :: "Region list \<Rightarrow> nat set" where
  "held_bytes rs = \<Union> (region_bytes ` set rs)"

lemma holds_Cons:
  "holds (r # rs) F \<longleftrightarrow> region_ok r \<and> region_bytes r \<inter> F = {} \<and> (\<forall>x\<in>set rs. apart r x) \<and> holds rs F"
  by (auto simp: holds_def)

lemma held_bytes_simps [simp]:
  "held_bytes [] = {}"
  "held_bytes (r # rs) = region_bytes r \<union> held_bytes rs"
  "held_bytes (rs @ rs') = held_bytes rs \<union> held_bytes rs'"
  by (auto simp: held_bytes_def)

lemma holds_mono: "holds rs F \<Longrightarrow> F' \<subseteq> F \<union> - held_bytes rs \<Longrightarrow> holds rs F'"
  by (fastforce simp: holds_def held_bytes_def)

fun give_back :: "('p \<Rightarrow> Region \<Rightarrow> unit result \<times> 'p) \<Rightarrow> 'p \<Rightarrow> Region list \<Rightarrow> 'p" where
  "give_back dealloc p [] = p"
| "give_back dealloc p (r # rs) = give_back dealloc (snd (dealloc p r)) rs"

locale ram_pool =
  fixes alloc :: "'p \<Rightarrow> usize \<Rightarrow> Region result \<times> 'p"
    and dealloc :: "'p \<Rightarrow> Region \<Rightarrow> unit result \<times> 'p"
    and tidy :: "'p \<Rightarrow> 'p"
    and free :: "'p \<Rightarrow> nat set"
    and pool_ok :: "'p \<Rightarrow> bool"
  assumes alloc_Ok: "pool_ok p \<Longrightarrow> alloc p n = (Ok r, p') \<Longrightarrow>
      pool_ok p' \<and> region_ok r \<and> region_bytes r \<subseteq> free p \<and> free p' = free p - region_bytes r"
    and alloc_Err: "alloc p n = (Err e, p') \<Longrightarrow> p' = p"
    and dealloc_Ok: "pool_ok p \<Longrightarrow> region_ok r \<Longrightarrow> region_bytes r \<inter> free p = {} \<Longrightarrow>
      \<exists>p'. dealloc p r = (Ok (), p') \<and> pool_ok p' \<and> free p' = free p \<union> region_bytes r"
    and tidy_ok: "pool_ok p \<Longrightarrow> pool_ok (tidy p) \<and> free (tidy p) = free p"
begin

lemma alloc_holds:
  assumes "pool_ok p" and "holds rs (free p)" and "alloc p n = (Ok r, p')"
  shows "holds (r # rs) (free p')"
    and "free p' \<union> held_bytes (r # rs) = free p \<union> held_bytes rs"
proof -
  have law: "region_ok r" "region_bytes r \<subseteq> free p" "free p' = free p - region_bytes r"
    using alloc_Ok[OF assms(1,3)] by auto
  then show "holds (r # rs) (free p')"
    using assms(2) by (fastforce simp: holds_def apart_def)
  show "free p' \<union> held_bytes (r # rs) = free p \<union> held_bytes rs"
    using law by auto
qed

lemma give_back_all:
  assumes "pool_ok p" and "holds (rs @ qs) (free p)"
  shows "pool_ok (give_back dealloc p rs)
    \<and> free (give_back dealloc p rs) = free p \<union> held_bytes rs
    \<and> holds qs (free (give_back dealloc p rs))"
  using assms
proof (induction rs arbitrary: p)
  case (Cons r rs)
  then have r: "region_ok r" "region_bytes r \<inter> free p = {}" and rest: "holds (rs @ qs) (free p)"
    and ap: "\<forall>x\<in>set (rs @ qs). apart r x"
    by (auto simp: holds_Cons)
  obtain p' where p': "dealloc p r = (Ok (), p')" "pool_ok p'" "free p' = free p \<union> region_bytes r"
    using dealloc_Ok[OF Cons.prems(1) r] by auto
  have "holds (rs @ qs) (free p')"
    by (rule holds_mono[OF rest]) (use ap p'(3) in \<open>auto simp: held_bytes_def apart_def\<close>)
  from Cons.IH[OF p'(2) this] p' show ?case by auto
qed simp

end

interpretation regions_pool: ram_pool alloc_region dealloc_region coalesce_regions free_bytes regions_inv
proof unfold_locales
  fix p :: SortedRegions and n r p' e
  show "regions_inv p' \<and> region_ok r \<and> region_bytes r \<subseteq> free_bytes p
      \<and> free_bytes p' = free_bytes p - region_bytes r"
    if "regions_inv p" "alloc_region p n = (Ok r, p')"
    using alloc_region_law[OF that] by simp
  show "p' = p" if "alloc_region p n = (Err e, p')"
    using that by (simp add: alloc_region_Err)
  show "\<exists>p'. dealloc_region p r = (Ok (), p') \<and> regions_inv p'
      \<and> free_bytes p' = free_bytes p \<union> region_bytes r"
    if "regions_inv p" "region_ok r" "region_bytes r \<inter> free_bytes p = {}"
    using insert_disjoint[OF that] by (simp add: dealloc_region_def)
  show "regions_inv (coalesce_regions p) \<and> free_bytes (coalesce_regions p) = free_bytes p"
    if "regions_inv p"
    using merge_law[OF that] regions_merged_inv by (auto simp: coalesce_regions_def)
qed

text \<open>An area given back to the pool is an entry of the list until the list is merged.\<close>

lemma give_back_regions:
  assumes "regions_inv p" and "holds rs (free_bytes p)"
  shows "set (regions p) \<union> {r \<in> set rs. rgn_size r \<noteq> 0} \<subseteq> set (regions (give_back dealloc_region p rs))"
  using assms
proof (induction rs arbitrary: p)
  case (Cons r rs)
  then have r: "region_ok r" "region_bytes r \<inter> free_bytes p = {}" by (auto simp: holds_Cons)
  obtain p' where p': "dealloc_region p r = (Ok (), p')" "regions_inv p'" "holds rs (free_bytes p')"
    using regions_pool.dealloc_Ok[OF Cons.prems(1) r] regions_pool.give_back_all[OF Cons.prems(1), of "[r]" rs]
      Cons.prems(2) by auto
  have "set (regions p) \<union> {x \<in> {r}. rgn_size x \<noteq> 0} \<subseteq> set (regions p')"
    using p'(1) place_set[of r "regions p"]
    by (auto simp: dealloc_region_def SortedRegions_insert_eq split: if_splits option.splits)
  with Cons.IH[OF p'(2,3)] p'(1) show ?case by auto
qed simp

section \<open>Registering the RAM of the host\<close>

definition area_region :: "RAMArea \<Rightarrow> Region" where
  "area_region a = Region_new (area_base a) (area_size a)"

lemma init_sections_give_back:
  "init_sections s secs = give_back dealloc_region s (map area_region secs)"
  by (induction secs arbitrary: s) (simp_all add: dealloc_region_def area_region_def)

lemma init_chunks_concat:
  "init_chunks validate_ram n s cs = init_sections s (concat (map (validate_ram n) cs))"
proof (induction cs arbitrary: s)
  case (Cons c cs)
  have "init_sections (init_sections s as) bs = init_sections s (as @ bs)" for s as bs
    by (induction as arbitrary: s) simp_all
  with Cons show ?case by simp
qed simp

lemma SortedRegions_new_law [simp]:
  "regions_inv SortedRegions_new" "free_bytes SortedRegions_new = {}"
  by (simp_all add: SortedRegions_new_def regions_inv_def)

definition example_pool :: SortedRegions where
  "example_pool = \<lparr>regions = [\<lparr>rgn_base = 0x1000, rgn_size = 0x2000\<rparr>,
     \<lparr>rgn_base = 0x80000000, rgn_size = 0x10000000\<rparr>]\<rparr>"

definition example_region :: Region where
  "example_region = \<lparr>rgn_base = 0x80000000, rgn_size = 0x8000000\<rparr>"

definition example_pool_after :: SortedRegions where
  "example_pool_after = \<lparr>regions = [\<lparr>rgn_base = 0x1000, rgn_size = 0x2000\<rparr>,
     \<lparr>rgn_base = 0x88000000, rgn_size = 0x8000000\<rparr>]\<rparr>"

lemma example_pool_inv: "regions_inv example_pool" "regions_inv example_pool_after"
  by (simp_all add: example_pool_def example_pool_after_def regions_inv_def region_defs)

lemma example_pool_alloc:
  "alloc_region example_pool 0x7000000 = (Ok example_region, example_pool_after)"
  by code_simp

section \<open>Properties\<close>

text \<open>C13: a successful allocation takes the lower end of the first free region that is large
  enough; the pool stays sorted and disjoint and loses exactly the bytes of the region.\<close>

theorem alloc_region_correct:
  assumes "regions_inv s" and "alloc_region s sz = (Ok r, s')"
  shows "regions_inv s' \<and> region_ok r \<and> rgn_size r = adjusted_size sz
    \<and> region_bytes r \<subseteq> free_bytes s \<and> free_bytes s' = free_bytes s - region_bytes r
    \<and> (\<exists>as f bs. regions s = as @ f # bs \<and> rgn_base r = rgn_base f
         \<and> adjusted_size sz \<le> rgn_size f \<and> filter (\<lambda>a. adjusted_size sz \<le> rgn_size a) as = [])"
proof -
  obtain as f bs where "regions s = as @ f # bs" "rgn_base r = rgn_base f"
    "adjusted_size sz \<le> rgn_size f" "\<And>a. a \<in> set as \<Longrightarrow> rgn_size a < adjusted_size sz"
    using assms(2) by (cases rule: alloc_region_cases[where s = s and sz = sz]) auto
  then have "\<exists>as f bs. regions s = as @ f # bs \<and> rgn_base r = rgn_base f
      \<and> adjusted_size sz \<le> rgn_size f \<and> filter (\<lambda>a. adjusted_size sz \<le> rgn_size a) as = []"
    by (intro exI[of _ as] exI[of _ f] exI[of _ bs]) (auto simp: filter_empty_conv not_le)
  with alloc_region_law[OF assms] show ?thesis by simp
qed

theorem alloc_region_correct_witness:
  "regions_inv example_pool
   \<and> alloc_region example_pool 0x7000000 = (Ok example_region, example_pool_after)
   \<and> region_bytes example_region \<subseteq> free_bytes example_pool"
  using alloc_region_correct[OF example_pool_inv(1) example_pool_alloc]
    example_pool_inv(1) example_pool_alloc by blast

text \<open>An allocation fails exactly when no free region has the rounded-up size; the error is
  \<open>PhysNotEnoughFreeRAM\<close> and the pool is unchanged.\<close>

theorem alloc_region_fails_iff:
  "alloc_region s sz = (Err e, s') \<longleftrightarrow>
     e = PhysNotEnoughFreeRAM \<and> s' = s \<and> (\<forall>r\<in>set (regions s). rgn_size r < adjusted_size sz)"
  by (rule alloc_region_Err)

theorem alloc_region_fails_iff_witness:
  "alloc_region example_pool 0x10000001 = (Err PhysNotEnoughFreeRAM, example_pool)"
proof -
  have "list_all (\<lambda>r. rgn_size r < adjusted_size 0x10000001) (regions example_pool)"
    by code_simp
  then show ?thesis by (simp add: alloc_region_fails_iff list_all_iff)
qed

text \<open>For requests up to \<open>2 ^ 64 - 2 ^ 26\<close> bytes the region handed out is the request rounded up
  to a whole number of 64 MiB units.\<close>

theorem alloc_region_rounds_up:
  assumes "unat sz \<le> 2 ^ 64 - 2 ^ 26" and "alloc_region s sz = (Ok r, s')"
  shows "unat sz \<le> unat (rgn_size r) \<and> unat (rgn_size r) < unat sz + 2 ^ 26
    \<and> unat (rgn_size r) mod 2 ^ 26 = 0"
proof -
  have "rgn_size r = adjusted_size sz"
    using assms(2) by (cases rule: alloc_region_cases[where s = s and sz = sz]) auto
  then have n: "unat (rgn_size r) = (unat sz + (67108864 - 1)) div 67108864 * 67108864"
    using adjusted_size_fits[OF assms(1)] by simp
  have "(unat sz + (67108864 - 1)) mod 67108864 < 67108864" by simp
  moreover have "unat sz + (67108864 - 1) = unat (rgn_size r) + (unat sz + (67108864 - 1)) mod 67108864"
    unfolding n by (simp only: div_mult_mod_eq)
  ultimately have "unat sz \<le> unat (rgn_size r)" "unat (rgn_size r) < unat sz + 67108864"
    by linarith+
  then show ?thesis by (simp add: n)
qed

theorem alloc_region_rounds_up_witness:
  "unat (0x7000000 :: usize) \<le> unat (rgn_size example_region)
   \<and> unat (rgn_size example_region) mod 2 ^ 26 = 0"
  using alloc_region_rounds_up[OF _ example_pool_alloc] by simp

text \<open>A request above \<open>2 ^ 64 - 2 ^ 26\<close> bytes wraps to zero while it is rounded up, so the
  allocation succeeds with an empty region whenever the pool is not empty.\<close>

theorem alloc_region_wraps:
  assumes "2 ^ 64 - 2 ^ 26 < unat sz" and "regions s \<noteq> []"
  shows "\<exists>r s'. alloc_region s sz = (Ok r, s') \<and> rgn_size r = 0"
proof (cases rule: alloc_region_cases[where s = s and sz = sz])
  case none
  then show ?thesis using assms adjusted_size_wraps[OF assms(1)] by (cases "regions s") auto
next
  case (some as r bs)
  then show ?thesis using adjusted_size_wraps[OF assms(1)] by simp
qed

theorem alloc_region_wraps_witness:
  "\<exists>r s'. alloc_region example_pool 0xFFFFFFFFFFFFFFFF = (Ok r, s') \<and> rgn_size r = 0"
  using alloc_region_wraps[of "0xFFFFFFFFFFFFFFFF" example_pool] by (simp add: example_pool_def)

text \<open>C14: giving a region back after allocating it succeeds, and once the free list has been merged
  the pool is exactly what merging gave before the allocation.\<close>

theorem alloc_dealloc_roundtrip:
  assumes "regions_inv s" and "alloc_region s sz = (Ok r, s1)"
  shows "\<exists>s2. dealloc_region s1 r = (Ok (), s2) \<and> regions_inv s2 \<and> free_bytes s2 = free_bytes s
    \<and> coalesce_regions s2 = coalesce_regions s"
proof -
  note law = alloc_region_law[OF assms]
  obtain s2 where s2: "dealloc_region s1 r = (Ok (), s2)" "regions_inv s2"
    "free_bytes s2 = free_bytes s1 \<union> region_bytes r"
    using regions_pool.dealloc_Ok[OF law(1,2)] law(5) by auto
  then have same: "free_bytes s2 = free_bytes s" using law by auto
  have "coalesce_regions s2 = coalesce_regions s"
    unfolding coalesce_regions_def
    by (rule merged_unique) (use same merge_law[OF s2(2)] merge_law[OF assms(1)] in simp_all)
  with s2 same show ?thesis by blast
qed

theorem alloc_dealloc_roundtrip_witness:
  "\<exists>s2. dealloc_region example_pool_after example_region = (Ok (), s2)
     \<and> coalesce_regions s2 = coalesce_regions example_pool"
  using alloc_dealloc_roundtrip[OF example_pool_inv(1) example_pool_alloc] by blast

text \<open>C30: merging keeps the free bytes and yields the one list of sorted, non-touching regions that
  covers them; merging again changes nothing.\<close>

theorem coalesce_regions_canonical:
  assumes "regions_inv s"
  shows "regions_merged (coalesce_regions s) \<and> free_bytes (coalesce_regions s) = free_bytes s
    \<and> (regions_merged t \<and> free_bytes t = free_bytes s \<longleftrightarrow> t = coalesce_regions s)
    \<and> coalesce_regions (coalesce_regions s) = coalesce_regions s"
proof -
  note law = merge_law[OF assms]
  have "coalesce (regions (SortedRegions_merge s)) = regions (SortedRegions_merge s)"
    using law(1) by (intro coalesce_fixpoint) (simp add: regions_surjective)
  then have "SortedRegions_merge (SortedRegions_merge s) = SortedRegions_merge s"
    by (subst SortedRegions_merge_eq) (simp add: regions_surjective)
  with law merged_unique[of t "SortedRegions_merge s"] show ?thesis
    by (auto simp: coalesce_regions_def)
qed

theorem coalesce_regions_canonical_witness:
  "regions_merged (coalesce_regions \<lparr>regions = [\<lparr>rgn_base = 0x1000, rgn_size = 0x1000\<rparr>,
      \<lparr>rgn_base = 0x2000, rgn_size = 0x3000\<rparr>, \<lparr>rgn_base = 0x5000, rgn_size = 0x1000\<rparr>]\<rparr>)
   \<and> \<lparr>regions = [\<lparr>rgn_base = 0x1000, rgn_size = 0x5000\<rparr>]\<rparr> =
      coalesce_regions \<lparr>regions = [\<lparr>rgn_base = 0x1000, rgn_size = 0x1000\<rparr>,
        \<lparr>rgn_base = 0x2000, rgn_size = 0x3000\<rparr>, \<lparr>rgn_base = 0x5000, rgn_size = 0x1000\<rparr>]\<rparr>"
proof -
  let ?s = "\<lparr>regions = [\<lparr>rgn_base = 0x1000, rgn_size = 0x1000\<rparr>,
    \<lparr>rgn_base = 0x2000, rgn_size = 0x3000\<rparr>, \<lparr>rgn_base = 0x5000, rgn_size = 0x1000\<rparr>]\<rparr>"
  let ?t = "\<lparr>regions = [\<lparr>rgn_base = 0x1000, rgn_size = 0x5000\<rparr>]\<rparr>"
  have inv: "regions_inv ?s" by (simp add: regions_inv_def region_defs)
  have "regions_merged ?t \<and> free_bytes ?t = free_bytes ?s"
    by (auto simp: regions_merged_def region_defs bytes_def)
  then show ?thesis using coalesce_regions_canonical[OF inv, of ?t] by blast
qed

text \<open>Inserting a region that shares no byte with the free list keeps the list sorted and disjoint
  and adds exactly the bytes of the region; a region whose first byte is already free is refused
  with \<open>PhysRegionCollision\<close> and nothing changes.\<close>

theorem insert_region_correct:
  assumes "regions_inv s" and "real_region x"
  shows "(region_bytes x \<inter> free_bytes s = {} \<longrightarrow>
      (\<exists>s'. SortedRegions_insert s x = (Ok (), s') \<and> regions_inv s'
         \<and> free_bytes s' = free_bytes s \<union> region_bytes x))
    \<and> (SortedRegions_insert s x = (Err PhysRegionCollision, s) \<longleftrightarrow> unat (rgn_base x) \<in> free_bytes s)"
proof -
  have "SortedRegions_insert s x = (Err PhysRegionCollision, s) \<longleftrightarrow> place x (regions s) = None"
    using assms(2) by (auto simp: SortedRegions_insert_eq real_region_def split: option.splits)
  with place_None[of "regions s" x] insert_disjoint[of s x] assms show ?thesis
    by (simp add: regions_surjective real_region_def)
qed

theorem insert_region_correct_witness:
  "(\<exists>s'. SortedRegions_insert example_pool_after example_region = (Ok (), s') \<and> regions_inv s')
   \<and> SortedRegions_insert example_pool example_region = (Err PhysRegionCollision, example_pool)"
proof -
  have real: "real_region example_region" by (simp add: example_region_def region_defs)
  have "region_bytes example_region \<inter> free_bytes example_pool_after = {}"
    by (auto simp: example_region_def example_pool_after_def region_defs bytes_def)
  moreover have "unat (rgn_base example_region) \<in> free_bytes example_pool"
    by (simp add: example_region_def example_pool_def region_defs bytes_def)
  ultimately show ?thesis
    using insert_region_correct[OF example_pool_inv(2) real]
      insert_region_correct[OF example_pool_inv(1) real] by blast
qed

text \<open>A region that starts below a free region and runs into it is not recognised as a collision:
  the insertion reports success and leaves a list that is no longer sorted and disjoint.\<close>

theorem insert_region_misses_overlap:
  assumes "regions_inv s" and "real_region x"
    and "unat (rgn_base x) \<notin> free_bytes s" and "region_bytes x \<inter> free_bytes s \<noteq> {}"
  shows "\<exists>s'. SortedRegions_insert s x = (Ok (), s') \<and> \<not> regions_inv s'"
proof -
  obtain rs where rs: "place x (regions s) = Some rs"
    using place_None[of "regions s" x] assms(1-3) by (auto simp: regions_surjective)
  obtain r n where r: "r \<in> set (regions s)" "n \<in> region_bytes r" "n \<in> region_bytes x"
    using assms(4) by (auto simp: free_bytes_def)
  have "unat (rgn_base x) \<in> region_bytes x"
    using assms(2) by (simp add: region_defs bytes_def usize_eq_0_iff)
  then have "x \<noteq> r" using assms(3) r(1) by (auto simp: free_bytes_def)
  have "\<not> regions_inv \<lparr>regions = rs\<rparr>"
  proof
    assume "regions_inv \<lparr>regions = rs\<rparr>"
    then have "\<forall>i<length rs. \<forall>j<length rs. i < j \<longrightarrow> below (rs ! i) (rs ! j)"
      by (simp add: regions_inv_def sorted_wrt_iff_nth_less)
    moreover have "x \<in> set rs" "r \<in> set rs" using place_set[OF rs] r(1) by auto
    ultimately have "below x r \<or> below r x"
      using \<open>x \<noteq> r\<close> by (metis in_set_conv_nth linorder_neqE_nat)
    then have "region_bytes x \<inter> region_bytes r = {}" using below_disjoint by blast
    with r show False by blast
  qed
  with rs assms(2) show ?thesis by (simp add: SortedRegions_insert_eq real_region_def)
qed

theorem insert_region_misses_overlap_witness:
  "\<exists>s'. SortedRegions_insert example_pool \<lparr>rgn_base = 0x800, rgn_size = 0x1000\<rparr> = (Ok (), s')
     \<and> \<not> regions_inv s'"
proof -
  let ?x = "\<lparr>rgn_base = 0x800, rgn_size = 0x1000\<rparr>"
  have "0x1000 \<in> region_bytes ?x \<inter> free_bytes example_pool"
    by (simp add: example_pool_def region_defs bytes_def)
  moreover have "unat (rgn_base ?x) \<notin> free_bytes example_pool"
    by (simp add: example_pool_def region_defs bytes_def)
  moreover have "real_region ?x" by (simp add: region_defs)
  ultimately show ?thesis
    using insert_region_misses_overlap[OF example_pool_inv(1), of ?x] by blast
qed

text \<open>At boot, if the sections of RAM the platform reports do not overlap and none wraps around
  the address space, the pool starts out well-formed and holds exactly their bytes.\<close>

theorem physmem_init_correct:
  fixes validate_ram :: "usize \<Rightarrow> RAMArea \<Rightarrow> RAMArea list"
  defines "sections n cs \<equiv> map area_region (concat (map (validate_ram n) cs))"
  assumes "sorted_wrt apart (sections n cs)" and "\<forall>r\<in>set (sections n cs). region_ok r"
  shows "\<exists>s. physmem_init validate_ram (Some n) (Some cs) SortedRegions_new = (Ok (), s)
    \<and> regions_inv s \<and> free_bytes s = held_bytes (sections n cs)"
proof -
  have "holds (sections n cs @ []) (free_bytes SortedRegions_new)"
    using assms(2,3) by (simp add: holds_def)
  from regions_pool.give_back_all[OF SortedRegions_new_law(1) this] show ?thesis
    by (simp add: physmem_init_def init_chunks_concat init_sections_give_back sections_def)
qed

theorem physmem_init_correct_witness:
  "\<exists>s. physmem_init (\<lambda>n c. [c\<lparr>area_base := area_base c + n * 0x1000, area_size := area_size c - n * 0x1000\<rparr>])
         (Some 4) (Some [\<lparr>area_base = 0x80000000, area_size = 0x20000000\<rparr>]) SortedRegions_new = (Ok (), s)
     \<and> regions_inv s \<and> free_bytes s = {0x80004000 ..< 0xA0000000}"
proof -
  let ?v = "\<lambda>(n :: usize) (c :: RAMArea).
    [c\<lparr>area_base := area_base c + n * 0x1000, area_size := area_size c - n * 0x1000\<rparr>]"
  show ?thesis
    using physmem_init_correct[of ?v 4 "[\<lparr>area_base = 0x80000000, area_size = 0x20000000\<rparr>]"]
    by (simp add: area_region_def region_defs bytes_def)
qed

end
