(* ===== verification/Hv_VirtMem.thy ===== *)
theory Hv_VirtMem
  imports Hv_PhysMem
begin

text \<open>
  Capsule memory mappings, \<^verbatim>\<open>src/hypervisor/virtmem.rs\<close>: a virtual base address paired with a
  physical region, and the translation of addresses in both directions.
\<close>

record Mapping =
  virtual_base :: "usize option"
  physical_region :: "Region option"

definition Mapping_new :: Mapping where
  "Mapping_new = \<lparr>virtual_base = None, physical_region = None\<rparr>"

definition set_virtual :: "Mapping \<Rightarrow> usize \<Rightarrow> Mapping" where
  "set_virtual mp vbase = mp\<lparr>virtual_base := Some vbase\<rparr>"

definition set_physical :: "Mapping \<Rightarrow> Region \<Rightarrow> Mapping" where
  "set_physical mp region = mp\<lparr>physical_region := Some region\<rparr>"

definition get_physical :: "Mapping \<Rightarrow> Region option" where
  "get_physical mp = physical_region mp"

definition identity_mapping :: "Mapping \<Rightarrow> unit result \<times> Mapping" where
  "identity_mapping mp =
     (case physical_region mp of
        Some region \<Rightarrow> (Ok (), mp\<lparr>virtual_base := Some (rgn_base region)\<rparr>)
      | None \<Rightarrow> (Err VirtMemPhysNotSet, mp))"

definition physical_to_virtual :: "Mapping \<Rightarrow> usize \<Rightarrow> usize option" where
  "physical_to_virtual mp physaddr =
     (case (virtual_base mp, physical_region mp) of
        (Some virtbase, Some region) \<Rightarrow>
          if physaddr \<ge> rgn_base region \<and> physaddr < Region_end region
          then Some ((physaddr - rgn_base region) + virtbase)
          else None
      | (_, _) \<Rightarrow> None)"

definition virtual_to_physical :: "Mapping \<Rightarrow> usize \<Rightarrow> usize option" where
  "virtual_to_physical mp virtaddr =
     (case (virtual_base mp, physical_region mp) of
        (Some virtbase, Some region) \<Rightarrow>
          if virtaddr \<ge> virtbase \<and> virtaddr < virtbase + rgn_size region
          then Some ((virtaddr - virtbase) + rgn_base region)
          else None
      | (_, _) \<Rightarrow> None)"

text \<open>A mapping is usable when both sides are set and neither side runs past the address space.\<close>

definition mapping_ok :: "Mapping \<Rightarrow> bool" where
  "mapping_ok mp \<longleftrightarrow>
     (case (virtual_base mp, physical_region mp) of
        (Some v, Some r) \<Rightarrow> region_ok r \<and> unat v + unat (rgn_size r) < 2 ^ 64
      | _ \<Rightarrow> False)"

definition mapped_bytes :: "Mapping \<Rightarrow> nat set" where
  "mapped_bytes mp = (case physical_region mp of None \<Rightarrow> {} | Some r \<Rightarrow> region_bytes r)"

section \<open>Translation laws\<close>

lemma mapping_okE:
  assumes "mapping_ok mp"
  obtains v r where "virtual_base mp = Some v" "physical_region mp = Some r" "region_ok r"
    "unat v + unat (rgn_size r) < 2 ^ 64"
  using assms by (auto simp: mapping_ok_def split: option.splits)

lemma physical_to_virtual_nat:
  assumes "mapping_ok mp" and "virtual_base mp = Some v" and "physical_region mp = Some r"
  shows "physical_to_virtual mp p = Some a \<longleftrightarrow>
    unat (rgn_base r) \<le> unat p \<and> unat p < unat (rgn_base r) + unat (rgn_size r)
    \<and> unat a = unat p - unat (rgn_base r) + unat v"
proof -
  have ok: "region_ok r" "unat v + unat (rgn_size r) < 2 ^ 64"
    using assms by (simp_all add: mapping_ok_def)
  have "unat (p - rgn_base r + v) = unat p - unat (rgn_base r) + unat v"
    if "unat (rgn_base r) \<le> unat p" "unat p < unat (rgn_base r) + unat (rgn_size r)"
    using that ok(2) by (subst unat_add_nowrap) (simp_all add: unat_sub_nowrap)
  then show ?thesis
    using assms(2,3) by (auto simp: physical_to_virtual_def word_nat Region_end_nat[OF ok(1)] unat_eq_iff)
qed

lemma virtual_to_physical_nat:
  assumes "mapping_ok mp" and "virtual_base mp = Some v" and "physical_region mp = Some r"
  shows "virtual_to_physical mp a = Some p \<longleftrightarrow>
    unat v \<le> unat a \<and> unat a < unat v + unat (rgn_size r)
    \<and> unat p = unat a - unat v + unat (rgn_base r)"
proof -
  have ok: "unat (rgn_base r) + unat (rgn_size r) < 2 ^ 64" "unat v + unat (rgn_size r) < 2 ^ 64"
    using assms by (simp_all add: mapping_ok_def region_ok_def)
  have "unat (a - v + rgn_base r) = unat a - unat v + unat (rgn_base r)"
    if "unat v \<le> unat a" "unat a < unat v + unat (rgn_size r)"
    using that ok(1) by (subst unat_add_nowrap) (simp_all add: unat_sub_nowrap)
  then show ?thesis
    using assms(2,3) by (auto simp: virtual_to_physical_def word_nat unat_add_nowrap[OF ok(2)] unat_eq_iff)
qed

text \<open>The interface: two partial functions that undo each other on every usable mapping.\<close>

locale address_translation =
  fixes ok :: "'m \<Rightarrow> bool"
    and to_virt :: "'m \<Rightarrow> usize \<Rightarrow> usize option"
    and to_phys :: "'m \<Rightarrow> usize \<Rightarrow> usize option"
    and phys_area :: "'m \<Rightarrow> nat set"
  assumes inverse: "ok m \<Longrightarrow> to_virt m p = Some v \<longleftrightarrow> to_phys m v = Some p"
    and area: "ok m \<Longrightarrow> unat p \<in> phys_area m \<longleftrightarrow> to_virt m p \<noteq> None"
begin

lemma to_phys_inside: "ok m \<Longrightarrow> to_phys m v = Some p \<Longrightarrow> unat p \<in> phys_area m"
  by (simp add: area inverse[symmetric])

lemma to_phys_inj:
  assumes "ok m" and "to_phys m v = Some p" and "to_phys m w = Some p"
  shows "v = w"
  using assms inverse[of m p v] inverse[of m p w] by simp

lemma separate:
  assumes "ok m" "ok n" "phys_area m \<inter> phys_area n = {}"
    and "to_phys m v = Some p" "to_phys n w = Some q"
  shows "p \<noteq> q"
  using to_phys_inside[OF assms(1,4)] to_phys_inside[OF assms(2,5)] assms(3) by auto

end

interpretation capsule_map: address_translation mapping_ok physical_to_virtual virtual_to_physical mapped_bytes
proof unfold_locales
  fix m p v
  assume ok: "mapping_ok m"
  obtain b r where b: "virtual_base m = Some b" "physical_region m = Some r"
    using mapping_okE[OF ok] by blast
  show "physical_to_virtual m p = Some v \<longleftrightarrow> virtual_to_physical m v = Some p"
    by (auto simp: physical_to_virtual_nat[OF ok b] virtual_to_physical_nat[OF ok b])
  show "unat p \<in> mapped_bytes m \<longleftrightarrow> physical_to_virtual m p \<noteq> None"
    using ok b Region_end_nat[of r]
    by (auto simp: mapped_bytes_def region_bytes_def bytes_def physical_to_virtual_def word_nat mapping_ok_def)
qed

section \<open>Properties\<close>

text \<open>C31: on a usable mapping the two translations are inverse to each other, the addresses that can be
  translated are exactly those of the physical region, and two mappings of disjoint regions never
  translate to the same physical address.\<close>

theorem mapping_translation_correct:
  assumes "mapping_ok m" and "mapping_ok n"
  shows "(physical_to_virtual m p = Some v \<longleftrightarrow> virtual_to_physical m v = Some p)
    \<and> (unat p \<in> mapped_bytes m \<longleftrightarrow> physical_to_virtual m p \<noteq> None)
    \<and> (mapped_bytes m \<inter> mapped_bytes n = {} \<and> virtual_to_physical m v = Some p
        \<longrightarrow> virtual_to_physical n w \<noteq> Some p)"
  using capsule_map.inverse[OF assms(1)] capsule_map.area[OF assms(1)]
    capsule_map.separate[OF assms] by blast

definition example_mapping :: Mapping where
  "example_mapping = \<lparr>virtual_base = Some 0xFFFFFFE000000000,
     physical_region = Some \<lparr>rgn_base = 0x80000000, rgn_size = 0x8000000\<rparr>\<rparr>"

theorem mapping_translation_correct_witness:
  "mapping_ok example_mapping \<and> physical_to_virtual example_mapping 0x80001000 = Some 0xFFFFFFE000001000
   \<and> virtual_to_physical example_mapping 0xFFFFFFE000001000 = Some 0x80001000"
proof -
  have ok: "mapping_ok example_mapping" by (simp add: mapping_ok_def example_mapping_def region_ok_def)
  have tr: "physical_to_virtual example_mapping 0x80001000 = Some 0xFFFFFFE000001000" by code_simp
  show ?thesis
    using ok tr mapping_translation_correct[OF ok ok, of "0x80001000" "0xFFFFFFE000001000"] by blast
qed

text \<open>After \<open>identity_mapping\<close> every address of the region translates to itself in both directions;
  without a physical region it fails with \<open>VirtMemPhysNotSet\<close> and sets nothing.\<close>

theorem identity_mapping_correct:
  assumes "region_ok r" and "physical_region mp = Some r"
  shows "\<exists>mp'. identity_mapping mp = (Ok (), mp') \<and> mapping_ok mp' \<and> mapped_bytes mp' = region_bytes r
    \<and> (unat p \<in> region_bytes r \<longrightarrow> physical_to_virtual mp' p = Some p \<and> virtual_to_physical mp' p = Some p)
    \<and> identity_mapping (mp\<lparr>physical_region := None\<rparr>)
      = (Err VirtMemPhysNotSet, mp\<lparr>physical_region := None\<rparr>)"
proof -
  let ?mp = "mp\<lparr>virtual_base := Some (rgn_base r)\<rparr>"
  have ok: "mapping_ok ?mp" using assms by (simp add: mapping_ok_def region_ok_def)
  have b: "virtual_base ?mp = Some (rgn_base r)" "physical_region ?mp = Some r"
    using assms(2) by simp_all
  show ?thesis
    using assms(2) ok physical_to_virtual_nat[OF ok b] virtual_to_physical_nat[OF ok b]
    by (auto simp: identity_mapping_def mapped_bytes_def region_bytes_def bytes_def)
qed

theorem identity_mapping_correct_witness:
  "\<exists>mp'. identity_mapping (set_physical Mapping_new example_region) = (Ok (), mp')
     \<and> physical_to_virtual mp' 0x80000010 = Some 0x80000010"
  using identity_mapping_correct[of example_region "set_physical Mapping_new example_region" "0x80000010"]
  by (auto simp: set_physical_def example_region_def region_ok_def region_bytes_def bytes_def)

end
