(* ===== verification/Hv_Queues.thy ===== *)
theory Hv_Queues
  imports Hv_Prelude
begin

text \<open>
  Virtual cores, \<^verbatim>\<open>src/hypervisor/vcore.rs\<close>, and the two-level wait queues of
  \<^verbatim>\<open>src/hypervisor/scheduler.rs\<close> (\<open>ScheduleQueues\<close>). The type variable \<open>'s\<close> stands for the platform's
  \<open>SupervisorState\<close>. A \<open>VecDeque\<close> is a list whose head is the front.
\<close>

section \<open>Virtual cores\<close>

datatype Priority = High | Normal

record VirtualCoreCanonicalID =
  capsuleid :: usize
  vcoreid :: usize

record 's VirtualCore =
  vc_id :: VirtualCoreCanonicalID
  vc_priority :: Priority
  vc_state :: 's

definition get_id :: "'s VirtualCore \<Rightarrow> usize" where
  "get_id v = vcoreid (vc_id v)"

definition get_capsule_id :: "'s VirtualCore \<Rightarrow> usize" where
  "get_capsule_id v = capsuleid (vc_id v)"

definition get_priority :: "'s VirtualCore \<Rightarrow> Priority" where
  "get_priority v = vc_priority v"

section \<open>Schedule queues\<close>

record 's ScheduleQueues =
  high :: "'s VirtualCore list"
  low :: "'s VirtualCore list"
  high_timeslices :: u64

definition HIGH_PRIO_TIMESLICES_MAX :: u64 where
  "HIGH_PRIO_TIMESLICES_MAX = 10"

definition ScheduleQueues_new :: "'s ScheduleQueues" where
  "ScheduleQueues_new = \<lparr>high = [], low = [], high_timeslices = 0\<rparr>"

definition ScheduleQueues_queue :: "'s ScheduleQueues \<Rightarrow> 's VirtualCore \<Rightarrow> 's ScheduleQueues" where
  "ScheduleQueues_queue q to_queue =
     (case get_priority to_queue of
        High \<Rightarrow> q\<lparr>high := high q @ [to_queue]\<rparr>
      | Normal \<Rightarrow> q\<lparr>low := low q @ [to_queue]\<rparr>)"

text \<open>\<open>VecDeque::pop_front\<close>.\<close>

definition pop_front :: "'a list \<Rightarrow> 'a option \<times> 'a list" where
  "pop_front xs = (case xs of [] \<Rightarrow> (None, []) | x # ys \<Rightarrow> (Some x, ys))"

definition dequeue_by_priority :: "'s ScheduleQueues \<Rightarrow> 's VirtualCore option \<times> 's ScheduleQueues" where
  "dequeue_by_priority q =
     (case pop_front (high q) of
        (Some t, hs) \<Rightarrow> (Some t, q\<lparr>high := hs\<rparr>)
      | (None, hs) \<Rightarrow> (case pop_front (low q) of (r, ls) \<Rightarrow> (r, q\<lparr>low := ls\<rparr>)))"

definition ScheduleQueues_dequeue :: "'s ScheduleQueues \<Rightarrow> 's VirtualCore option \<times> 's ScheduleQueues" where
  "ScheduleQueues_dequeue q =
     (if high_timeslices q > HIGH_PRIO_TIMESLICES_MAX
      then case pop_front (low q) of
             (Some t, ls) \<Rightarrow> (Some t, q\<lparr>low := ls\<rparr>)
           | (None, ls) \<Rightarrow> dequeue_by_priority q
      else dequeue_by_priority q)"

definition total_queued :: "'s ScheduleQueues \<Rightarrow> nat" where
  "total_queued q = length (high q) + length (low q)"

text \<open>The part of \<open>ScheduleQueues::run\<close> that keeps the count of high-priority timeslices.\<close>

definition count_timeslice :: "'s ScheduleQueues \<Rightarrow> 's VirtualCore \<Rightarrow> 's ScheduleQueues" where
  "count_timeslice q to_run =
     (case get_priority to_run of
        Normal \<Rightarrow> q\<lparr>high_timeslices := 0\<rparr>
      | High \<Rightarrow> q\<lparr>high_timeslices := high_timeslices q + 1\<rparr>)"

section \<open>Contents\<close>

definition queued :: "'s ScheduleQueues \<Rightarrow> 's VirtualCore multiset" where
  "queued q = mset (high q) + mset (low q)"

text \<open>Every core waits in the queue of its priority.\<close>

definition queues_inv :: "'s ScheduleQueues \<Rightarrow> bool" where
  "queues_inv q \<longleftrightarrow> list_all (\<lambda>v. vc_priority v = High) (high q) \<and> list_all (\<lambda>v. vc_priority v = Normal) (low q)"

lemma pop_front_simps [simp]:
  "pop_front [] = (None, [])"
  "pop_front (x # xs) = (Some x, xs)"
  by (simp_all add: pop_front_def)

lemma dequeue_cases:
  obtains (empty) "high q = []" "low q = []" "ScheduleQueues_dequeue q = (None, q)"
  | (low) v vs where "low q = v # vs" "high_timeslices q > HIGH_PRIO_TIMESLICES_MAX \<or> high q = []"
      "ScheduleQueues_dequeue q = (Some v, q\<lparr>low := vs\<rparr>)"
  | (high) v vs where "high q = v # vs" "\<not> high_timeslices q > HIGH_PRIO_TIMESLICES_MAX \<or> low q = []"
      "ScheduleQueues_dequeue q = (Some v, q\<lparr>high := vs\<rparr>)"
  by (cases "high q"; cases "low q"; cases "high_timeslices q > HIGH_PRIO_TIMESLICES_MAX")
    (auto simp: ScheduleQueues_dequeue_def dequeue_by_priority_def)

text \<open>
  The interface the scheduler and the physical cores use: a bag of waiting cores with an
  operation that adds one and an operation that takes one out whenever there is one.
\<close>

fun take_all :: "('q \<Rightarrow> 'v option \<times> 'q) \<Rightarrow> nat \<Rightarrow> 'q \<Rightarrow> 'v list \<times> 'q" where
  "take_all deq 0 q = ([], q)"
| "take_all deq (Suc n) q =
     (case deq q of
        (None, q') \<Rightarrow> ([], q')
      | (Some v, q') \<Rightarrow> (case take_all deq n q' of (vs, q'') \<Rightarrow> (v # vs, q'')))"

locale wait_queue =
  fixes enq :: "'q \<Rightarrow> 'v \<Rightarrow> 'q"
    and deq :: "'q \<Rightarrow> 'v option \<times> 'q"
    and bag :: "'q \<Rightarrow> 'v multiset"
  assumes enq_bag: "bag (enq q v) = add_mset v (bag q)"
    and deq_Some: "deq q = (Some v, q') \<Longrightarrow> bag q = add_mset v (bag q')"
    and deq_None: "deq q = (None, q') \<Longrightarrow> bag q = {#} \<and> q' = q"
begin

lemma deq_empty_iff: "fst (deq q) = None \<longleftrightarrow> bag q = {#}"
proof (cases "deq q")
  case (Pair r q')
  then show ?thesis using deq_Some deq_None by (cases r) auto
qed

lemma enq_then_deq: "\<exists>w q'. deq (enq q v) = (Some w, q')"
  using deq_None[of "enq q v"] enq_bag[of q v] by (cases "deq (enq q v)"; cases "fst (deq (enq q v))") auto

lemma move:
  assumes "deq q = (Some v, q')"
  shows "bag q' + bag (enq r v) = bag q + bag r"
  using deq_Some[OF assms] by (simp add: enq_bag)

lemma take_all_bag:
  "size (bag q) \<le> n \<Longrightarrow> take_all deq n q = (vs, q') \<Longrightarrow> mset vs = bag q \<and> bag q' = {#}"
proof (induction n arbitrary: q vs q')
  case (Suc n)
  obtain r q1 where d: "deq q = (r, q1)" by fastforce
  show ?case
  proof (cases r)
    case None
    with d Suc.prems deq_None[of q q1] show ?thesis by auto
  next
    case (Some v)
    obtain ws q2 where t: "take_all deq n q1 = (ws, q2)" by fastforce
    have b: "bag q = add_mset v (bag q1)" using deq_Some d Some by simp
    then have "size (bag q1) \<le> n" using Suc.prems(1) by simp
    from Suc.IH[OF this t] b Suc.prems(2) d Some t show ?thesis by auto
  qed
qed simp

end

interpretation sched_queue: wait_queue ScheduleQueues_queue ScheduleQueues_dequeue queued
proof unfold_locales
  fix q q' :: "'s ScheduleQueues" and v
  show "queued (ScheduleQueues_queue q v) = add_mset v (queued q)"
    by (cases "get_priority v") (simp_all add: ScheduleQueues_queue_def queued_def)
  show "queued q = add_mset v (queued q')" if "ScheduleQueues_dequeue q = (Some v, q')"
    using that by (cases rule: dequeue_cases[of q]) (auto simp: queued_def)
  show "queued q = {#} \<and> q' = q" if "ScheduleQueues_dequeue q = (None, q')"
    using that by (cases rule: dequeue_cases[of q]) (auto simp: queued_def)
qed

lemma queues_inv_queue: "queues_inv q \<Longrightarrow> queues_inv (ScheduleQueues_queue q v)"
  by (cases "get_priority v") (auto simp: ScheduleQueues_queue_def queues_inv_def get_priority_def)

lemma queues_inv_dequeue: "queues_inv q \<Longrightarrow> queues_inv (snd (ScheduleQueues_dequeue q))"
  by (cases rule: dequeue_cases[of q]) (auto simp: queues_inv_def)

lemma queue_timeslices [simp]:
  "high_timeslices (ScheduleQueues_queue q v) = high_timeslices q"
  "high_timeslices (snd (ScheduleQueues_dequeue q)) = high_timeslices q"
  by (cases "get_priority v", simp_all add: ScheduleQueues_queue_def)
    (cases rule: dequeue_cases[of q], auto)

section \<open>Order of service\<close>

text \<open>The order in which the waiting cores leave the queues when nothing is added.\<close>

definition service_order :: "'s ScheduleQueues \<Rightarrow> 's VirtualCore list" where
  "service_order q =
     (if high_timeslices q > HIGH_PRIO_TIMESLICES_MAX then low q @ high q else high q @ low q)"

lemma service_order_dequeue:
  "ScheduleQueues_dequeue q =
     (case service_order q of
        [] \<Rightarrow> (None, q)
      | v # vs \<Rightarrow> (Some v, snd (ScheduleQueues_dequeue q)))"
  by (cases rule: dequeue_cases[of q]) (auto simp: service_order_def)

lemma service_order_step:
  "service_order (snd (ScheduleQueues_dequeue q)) = tl (service_order q)"
  by (cases rule: dequeue_cases[of q]) (auto simp: service_order_def)

lemma length_service_order [simp]: "length (service_order q) = total_queued q"
  by (simp add: service_order_def total_queued_def)

lemma take_all_order: "fst (take_all ScheduleQueues_dequeue n q) = take n (service_order q)"
proof (induction n arbitrary: q)
  case (Suc n)
  show ?case
  proof (cases "service_order q")
    case Nil
    then show ?thesis using service_order_dequeue[of q] by simp
  next
    case (Cons v vs)
    let ?q = "snd (ScheduleQueues_dequeue q)"
    have "ScheduleQueues_dequeue q = (Some v, ?q)" using service_order_dequeue[of q] Cons by simp
    moreover have "service_order ?q = vs" using service_order_step[of q] Cons by simp
    ultimately show ?thesis using Suc.IH[of ?q] Cons by (auto split: prod.splits)
  qed
qed simp

lemma drain_order: "fst (take_all ScheduleQueues_dequeue (total_queued q) q) = service_order q"
  by (simp add: take_all_order)

lemma queue_adds_last:
  assumes "queues_inv q"
  shows "filter (\<lambda>w. vc_priority w = vc_priority v) (service_order (ScheduleQueues_queue q v))
    = filter (\<lambda>w. vc_priority w = vc_priority v) (service_order q) @ [v]"
proof -
  have "filter (\<lambda>w. vc_priority w = Normal) (high q) = []"
    and "filter (\<lambda>w. vc_priority w = High) (low q) = []"
    using assms by (auto simp: queues_inv_def list_all_iff filter_empty_conv)
  then show ?thesis
    by (cases "vc_priority v") (simp_all add: service_order_def ScheduleQueues_queue_def get_priority_def)
qed

section \<open>Properties\<close>

text \<open>C32: taking cores out of a pair of queues until none is left yields every waiting core exactly once:
  first the high-priority ones in their order of arrival, then the others in theirs, or the other way
  round once more than \<open>HIGH_PRIO_TIMESLICES_MAX\<close> high-priority timeslices have been counted in a row;
  one more attempt then finds nothing, and a newly queued core is served after every core of its own
  priority that was already waiting.\<close>

theorem queue_service_order:
  assumes "queues_inv q"
  shows "fst (take_all ScheduleQueues_dequeue (total_queued q) q) =
      (if high_timeslices q > HIGH_PRIO_TIMESLICES_MAX then low q @ high q else high q @ low q)
    \<and> fst (ScheduleQueues_dequeue (snd (take_all ScheduleQueues_dequeue (total_queued q) q))) = None
    \<and> filter (\<lambda>w. vc_priority w = vc_priority v)
        (fst (take_all ScheduleQueues_dequeue (Suc (total_queued q)) (ScheduleQueues_queue q v)))
      = filter (\<lambda>w. vc_priority w = vc_priority v)
          (fst (take_all ScheduleQueues_dequeue (total_queued q) q)) @ [v]"
proof (intro conjI)
  let ?d = ScheduleQueues_dequeue
  show "fst (take_all ?d (total_queued q) q) =
      (if high_timeslices q > HIGH_PRIO_TIMESLICES_MAX then low q @ high q else high q @ low q)"
    by (simp add: drain_order service_order_def)
  have "queued (snd (take_all ?d (total_queued q) q)) = {#}"
    by (rule conjunct2[OF sched_queue.take_all_bag[OF _ surjective_pairing]])
      (simp add: queued_def total_queued_def)
  then show "fst (?d (snd (take_all ?d (total_queued q) q))) = None"
    by (simp add: sched_queue.deq_empty_iff)
  have "take_all ?d (Suc (total_queued q)) (ScheduleQueues_queue q v)
    = take_all ?d (total_queued (ScheduleQueues_queue q v)) (ScheduleQueues_queue q v)"
    by (cases "get_priority v") (simp_all add: ScheduleQueues_queue_def total_queued_def)
  then have "fst (take_all ?d (Suc (total_queued q)) (ScheduleQueues_queue q v))
    = service_order (ScheduleQueues_queue q v)"
    by (simp only: drain_order)
  then show "filter (\<lambda>w. vc_priority w = vc_priority v)
        (fst (take_all ?d (Suc (total_queued q)) (ScheduleQueues_queue q v)))
      = filter (\<lambda>w. vc_priority w = vc_priority v) (fst (take_all ?d (total_queued q) q)) @ [v]"
    using queue_adds_last[OF assms, of v] by (simp only: drain_order)
qed

definition example_vcore :: "usize \<Rightarrow> Priority \<Rightarrow> unit VirtualCore" where
  "example_vcore i p = \<lparr>vc_id = \<lparr>capsuleid = 0, vcoreid = i\<rparr>, vc_priority = p, vc_state = ()\<rparr>"

definition example_queues :: "unit ScheduleQueues" where
  "example_queues = ScheduleQueues_queue (ScheduleQueues_queue ScheduleQueues_new
     (example_vcore 0 Normal)) (example_vcore 1 High)"

theorem queue_service_order_witness:
  "fst (take_all ScheduleQueues_dequeue (total_queued example_queues) example_queues)
     = [example_vcore 1 High, example_vcore 0 Normal]"
proof -
  have "queues_inv example_queues"
    by (simp add: example_queues_def example_vcore_def ScheduleQueues_new_def ScheduleQueues_queue_def
        get_priority_def queues_inv_def)
  from queue_service_order[OF this] show ?thesis
    by (simp add: example_queues_def example_vcore_def ScheduleQueues_new_def ScheduleQueues_queue_def
        get_priority_def HIGH_PRIO_TIMESLICES_MAX_def)
qed

end
