(* ===== verification/Hv_HwLock.thy ===== *)
theory Hv_HwLock
  imports Hv_Prelude
begin

text \<open>
  The lock on the hardware structure, \<open>acquire_hardware_lock\<close> of \<^verbatim>\<open>src/hypervisor/hardware.rs\<close>: a spin
  lock with a recorded owner, which a core takes by force when it finds itself recorded. One round
  of the loop runs under the \<open>OWNER\<close> lock and is one step of the model; the guards that cores hold
  are counted, so that a core that is interrupted while it holds a guard can come back for another.
\<close>

datatype LockAttempts = Once | Multiple

record HwLock =
  OWNER :: usize
  held :: bool

datatype Round = Acquired | GaveUp | Again

definition acquire_round :: "usize \<Rightarrow> LockAttempts \<Rightarrow> HwLock \<Rightarrow> Round \<times> HwLock" where
  "acquire_round me attempts l =
     (if OWNER l = me
      then if \<not> held l then (Acquired, l\<lparr>held := True\<rparr>)
           else (Again, l\<lparr>held := False\<rparr>)
      else if \<not> held l then (Acquired, l\<lparr>held := True, OWNER := me\<rparr>)
           else (case attempts of Once \<Rightarrow> (GaveUp, l) | Multiple \<Rightarrow> (Again, l)))"

text \<open>The whole loop when no other core interferes; \<open>None\<close> is a loop that never ends.\<close>

partial_function (option) acquire_hardware_lock ::
  "usize \<Rightarrow> LockAttempts \<Rightarrow> HwLock \<Rightarrow> (bool \<times> HwLock) option" where
  [code]: "acquire_hardware_lock me attempts l =
     (case acquire_round me attempts l of
        (Acquired, l') \<Rightarrow> Some (True, l')
      | (GaveUp, l') \<Rightarrow> Some (False, l')
      | (Again, l') \<Rightarrow> acquire_hardware_lock me attempts l')"

text \<open>Dropping a guard unlocks, whoever locked.\<close>

definition drop_guard :: "HwLock \<Rightarrow> HwLock" where
  "drop_guard l = l\<lparr>held := False\<rparr>"

section \<open>Cores competing for the lock\<close>

record hwsys =
  hwlock :: HwLock
  guards :: "usize \<Rightarrow> nat"

inductive hw_step :: "bool \<Rightarrow> hwsys \<Rightarrow> hwsys \<Rightarrow> bool" for reentry where
  take: "hw_step reentry s (s\<lparr>hwlock := l, guards := (guards s)(p := Suc (guards s p))\<rparr>)"
    if "acquire_round p a (hwlock s) = (Acquired, l)" and "guards s p = 0 \<or> reentry"
| spin: "hw_step reentry s (s\<lparr>hwlock := l\<rparr>)"
    if "acquire_round p a (hwlock s) = (r, l)" and "r \<noteq> Acquired" and "guards s p = 0 \<or> reentry"
| drop: "hw_step reentry s (s\<lparr>hwlock := drop_guard (hwlock s), guards := (guards s)(p := guards s p - 1)\<rparr>)"
    if "guards s p > 0"

inductive hw_reach :: "bool \<Rightarrow> hwsys \<Rightarrow> bool" for reentry where
  start: "hw_reach reentry \<lparr>hwlock = \<lparr>OWNER = p, held = False\<rparr>, guards = (\<lambda>_. 0)\<rparr>"
| step: "hw_reach reentry s \<Longrightarrow> hw_step reentry s t \<Longrightarrow> hw_reach reentry t"

text \<open>Without re-entry the flag tells exactly whether the recorded owner holds a guard.\<close>

definition hw_inv :: "hwsys \<Rightarrow> bool" where
  "hw_inv s \<longleftrightarrow> guards s = (\<lambda>p. if held (hwlock s) \<and> p = OWNER (hwlock s) then 1 else 0)"

lemma acquire_round_cases:
  assumes "acquire_round p a l = (r, l')"
  obtains (free) "\<not> held l" "r = Acquired" "l' = l\<lparr>held := True, OWNER := p\<rparr>"
  | (bust) "held l" "OWNER l = p" "r = Again" "l' = l\<lparr>held := False\<rparr>"
  | (wait) "held l" "OWNER l \<noteq> p" "l' = l" "r = (case a of Once \<Rightarrow> GaveUp | Multiple \<Rightarrow> Again)"
  using assms that by (auto simp: acquire_round_def split: if_splits LockAttempts.splits)

lemma hw_inv_step:
  assumes "hw_inv s" and "hw_step False s t"
  shows "hw_inv t"
  using assms(2)
proof (cases rule: hw_step.cases)
  case (take p a l)
  from take(2) show ?thesis
    by (cases rule: acquire_round_cases) (use assms(1) take in \<open>auto simp: hw_inv_def split: LockAttempts.splits\<close>)
next
  case (spin p a r l)
  from spin(2) show ?thesis
    by (cases rule: acquire_round_cases) (use assms(1) spin in \<open>auto simp: hw_inv_def\<close>)
next
  case (drop p)
  then show ?thesis using assms(1) by (auto simp: hw_inv_def drop_guard_def fun_eq_iff split: if_splits)
qed

lemma hw_reach_inv: "hw_reach False s \<Longrightarrow> hw_inv s"
  by (induction rule: hw_reach.induct) (auto simp: hw_inv_step, simp add: hw_inv_def)

section \<open>The loop of one core\<close>

lemma acquire_free:
  assumes "\<not> held l"
  shows "acquire_hardware_lock p a l = Some (True, \<lparr>OWNER = p, held = True\<rparr>)"
  using assms by (cases l) (simp add: acquire_hardware_lock.simps acquire_round_def)

lemma acquire_once:
  assumes "held l" and "OWNER l \<noteq> p"
  shows "acquire_hardware_lock p Once l = Some (False, l)"
  using assms by (simp add: acquire_hardware_lock.simps acquire_round_def)

lemma acquire_multiple_owner:
  assumes "acquire_hardware_lock p a l = Some r"
  shows "fst r \<longrightarrow> held l \<longrightarrow> OWNER l = p"
  by (rule acquire_hardware_lock.raw_induct[where P = "\<lambda>p a l r. fst r \<longrightarrow> held l \<longrightarrow> OWNER l = p", OF _ assms])
    (auto simp: acquire_round_def split: if_splits LockAttempts.splits)

lemma acquire_waits:
  assumes "acquire_hardware_lock p a l = Some (True, l')" and "held l \<Longrightarrow> OWNER l \<noteq> p"
  shows "\<not> held l"
  using acquire_multiple_owner[OF assms(1)] assms(2) by auto

section \<open>Properties\<close>

text \<open>C24: as long as no core asks for the lock while it holds it, at most one core is inside, the core
  that is inside is the recorded owner, no lock is ever taken by force, and the loop of a core that
  asks ends at once with the lock if it is free and with \<open>None\<close> if it is not and one attempt was asked for.\<close>

theorem hardware_lock_exclusive:
  assumes "hw_reach False s"
  shows "(guards s p > 0 \<and> guards s q > 0 \<longrightarrow> p = q \<and> guards s p = 1 \<and> OWNER (hwlock s) = p)
    \<and> (guards s p = 0 \<longrightarrow>
        \<not> (held (hwlock s) \<and> OWNER (hwlock s) = p)
        \<and> (acquire_hardware_lock p a (hwlock s) = Some (True, \<lparr>OWNER = p, held = True\<rparr>)
           \<longleftrightarrow> (\<forall>c. guards s c = 0))
        \<and> (acquire_hardware_lock p Once (hwlock s) = Some (False, hwlock s) \<longleftrightarrow> (\<exists>c. guards s c > 0)))"
proof -
  have inv: "hw_inv s" by (rule hw_reach_inv[OF assms])
  then have some: "(\<exists>c. guards s c > 0) \<longleftrightarrow> held (hwlock s)"
    by (auto simp: hw_inv_def)
  then have none: "(\<forall>c. guards s c = 0) \<longleftrightarrow> \<not> held (hwlock s)" by (metis gr0I less_numeral_extra(3))
  show ?thesis
  proof (intro conjI impI)
    assume "guards s p > 0 \<and> guards s q > 0"
    then show "p = q" "guards s p = 1" "OWNER (hwlock s) = p"
      using inv by (auto simp: hw_inv_def split: if_splits)
  next
    assume "guards s p = 0"
    then have other: "held (hwlock s) \<Longrightarrow> OWNER (hwlock s) \<noteq> p"
      using inv by (auto simp: hw_inv_def)
    then show "\<not> (held (hwlock s) \<and> OWNER (hwlock s) = p)" by blast
    show "acquire_hardware_lock p a (hwlock s) = Some (True, \<lparr>OWNER = p, held = True\<rparr>)
           \<longleftrightarrow> (\<forall>c. guards s c = 0)"
      unfolding none using acquire_free acquire_waits other by blast
    show "acquire_hardware_lock p Once (hwlock s) = Some (False, hwlock s) \<longleftrightarrow> (\<exists>c. guards s c > 0)"
      unfolding some using acquire_free[of "hwlock s" p Once] acquire_once[OF _ other]
      by (cases "held (hwlock s)") simp_all
  qed
qed

theorem hardware_lock_exclusive_witness:
  "\<exists>s. hw_reach False s \<and> guards s 2 = 1
     \<and> acquire_hardware_lock 1 Once (hwlock s) = Some (False, hwlock s)"
proof -
  let ?s = "\<lparr>hwlock = \<lparr>OWNER = 2, held = True\<rparr>, guards = (\<lambda>_. 0)(2 := Suc 0)\<rparr>"
  have r: "hw_reach False ?s"
    using hw_reach.step[OF hw_reach.start[of _ 0] hw_step.take[of 2 Multiple _ "\<lparr>OWNER = 2, held = True\<rparr>"]]
    by (simp add: acquire_round_def)
  have "acquire_hardware_lock 1 Once (hwlock ?s) = Some (False, hwlock ?s) \<longleftrightarrow> (\<exists>c. guards ?s c > 0)"
    using hardware_lock_exclusive[OF r, of 1 1 Once] by simp
  moreover have "guards ?s 2 > 0" by simp
  ultimately have "acquire_hardware_lock 1 Once (hwlock ?s) = Some (False, hwlock ?s)" by blast
  with r show ?thesis by fastforce
qed

text \<open>C40: a core that is interrupted while it holds the lock and asks for it again takes it by force, and
  giving back the second guard unlocks the first; another core can then enter, so that two cores
  hold a guard at once, and the first one to leave unlocks the other's lock.\<close>

theorem hardware_lock_reentry_breaks:
  assumes "p \<noteq> q"
  shows "\<exists>s t. hw_reach True s \<and> guards s p = 1 \<and> guards s q = 1 \<and> OWNER (hwlock s) = q
    \<and> hw_step True s t \<and> guards t p = 0 \<and> guards t q = 1 \<and> \<not> held (hwlock t)"
proof -
  let ?st = "\<lambda>o' h g. \<lparr>hwlock = \<lparr>OWNER = o', held = h\<rparr>, guards = g\<rparr>"
  let ?g1 = "(\<lambda>_. 0)(p := Suc 0)"
  have 1: "hw_reach True (?st p True ?g1)"
    using hw_reach.step[OF hw_reach.start[of _ p] hw_step.take[of p Multiple _ "\<lparr>OWNER = p, held = True\<rparr>"]]
    by (simp add: acquire_round_def)
  have 2: "hw_reach True (?st p False ?g1)"
    using hw_reach.step[OF 1 hw_step.spin[of p Multiple _ Again "\<lparr>OWNER = p, held = False\<rparr>"]]
    by (simp add: acquire_round_def)
  have 3: "hw_reach True (?st p True (?g1(p := 2)))"
    using hw_reach.step[OF 2 hw_step.take[of p Multiple _ "\<lparr>OWNER = p, held = True\<rparr>"]]
    by (simp add: acquire_round_def numeral_2_eq_2)
  have 4: "hw_reach True (?st p False ?g1)"
    using hw_reach.step[OF 3 hw_step.drop[of _ p]] by (simp add: drop_guard_def)
  have 5: "hw_reach True (?st q True (?g1(q := Suc 0)))"
    using hw_reach.step[OF 4 hw_step.take[of q Multiple _ "\<lparr>OWNER = q, held = True\<rparr>"]] assms
    by (simp add: acquire_round_def)
  have 6: "hw_step True (?st q True (?g1(q := Suc 0))) (?st q False (?g1(q := Suc 0, p := 0)))"
    using hw_step.drop[of "?st q True (?g1(q := Suc 0))" p True] assms by (simp add: drop_guard_def)
  show ?thesis using 5 6 assms by (intro exI conjI) (auto)
qed

theorem hardware_lock_reentry_breaks_witness:
  "\<exists>s. hw_reach True s \<and> guards s 0 = 1 \<and> guards s 1 = 1"
  using hardware_lock_reentry_breaks[of 0 1] by auto

end
