(* ===== verification/Hv_State.thy ===== *)
theory Hv_State
  imports Hv_Heap Hv_VirtMem Hv_Queues Hv_HwLock
begin

text \<open>
  The data of the running hypervisor: the types of \<^verbatim>\<open>message.rs\<close>, \<^verbatim>\<open>service.rs\<close>, \<^verbatim>\<open>capsule.rs\<close>, \<^verbatim>\<open>pcore.rs\<close>
  and \<^verbatim>\<open>irq.rs\<close>, one record \<open>hv\<close> with a field for every lazily initialised static of the crate (under
  the name the source gives it), and one record \<open>Platform\<close> with the code the hypervisor calls and
  does not contain: the platform crate, the ELF parser and the iteration order of the hash tables.

  An operation of the hypervisor is a function on \<open>hv\<close> that also takes the physical core \<open>me\<close> that
  executes it. Operations of different cores are interleaved one at a time: every static is behind a
  lock, and the state between two operations is one in which no lock is held. The lock of \<open>HARDWARE\<close>,
  which can be taken by force, is the field \<open>HW_LOCK\<close>; the competition for it has a finer model of
  its own in \<open>Hv_HwLock\<close>.
\<close>

section \<open>Messages and services\<close>

datatype Sender = FromPhysicalCore usize | FromCapsule usize

datatype Recipient = Broadcast | ToPhysicalCore usize | ToService usize

datatype MessageContent = CapsuleTeardown usize | DisownQueuedVirtualCore

record Message =
  sender :: Sender
  receiver :: Recipient
  code :: MessageContent

record Service =
  svc_capsuleid :: usize
  msgs :: "Message list"

section \<open>Capsules\<close>

record Capsule =
  restart :: bool
  vcores :: "usize set"
  memory :: "Mapping list"
  allowed_services :: "usize set"

section \<open>Physical cores\<close>

record 's PhysicalCore =
  pc_id :: usize
  pc_features :: usize
  pc_heap :: Heap
  pc_queues :: "'s ScheduleQueues"
  pc_smode :: bool

text \<open>
  What the hardware of one core has been told: the areas opened with \<open>platform::physmem::protect\<close>,
  the scheduler timer, acknowledged interrupts, and in a test build the end of the tests, in the order
  of the calls.
\<close>

datatype PlatformCall = Protect usize usize | TimerStart | TimerNext u64 | Acknowledge | TestEnd "nat + nat"

text \<open>
  A core: its private variables, the supervisor context that the return from the interrupt will
  resume, and its calls to the platform. The type variable \<open>'c\<close> is the platform's register context.
\<close>

record ('s, 'c) core =
  pvars :: "'s PhysicalCore"
  regs :: 'c
  calls :: "PlatformCall list"

section \<open>Devices, interrupts and binaries\<close>

record Devices =
  dev_nr_cpu_cores :: usize
  dev_phys_ram_areas :: "RAMArea list"

datatype IRQType = Exception | Interrupt

datatype PrivilegeMode = Machine | Supervisor | User

datatype IRQCause = SupervisorEnvironmentCall | HypervisorTimer | OtherCause nat

record IRQ =
  fatal :: bool
  privilege_mode :: PrivilegeMode
  irq_type :: IRQType
  cause :: IRQCause
  irq_pc :: usize
  irq_sp :: usize

text \<open>What the ELF parser reports of a program header and of a whole binary; \<open>None\<close> in the list of
  headers stands for a header the parser cannot read.\<close>

record ProgramHeader =
  ph_is_load :: bool
  ph_offset :: u64
  ph_virtual_addr :: u64
  ph_physical_addr :: u64
  ph_file_size :: u64
  ph_mem_size :: u64

record Elf =
  entry_point :: u64
  program_headers :: "ProgramHeader option list"

section \<open>The state\<close>

record ('s, 'c) hv =
  REGIONS :: SortedRegions
  CAPSULE_ID_NEXT :: usize
  CAPSULES :: "usize \<rightharpoonup> Capsule"
  SERVICES :: "usize \<rightharpoonup> Service"
  MAILBOXES :: "usize \<rightharpoonup> Message list"
  GLOBAL_QUEUES :: "'s ScheduleQueues"
  WORKLOAD :: "usize \<rightharpoonup> usize"
  VCORES :: "usize \<rightharpoonup> 's VirtualCore"
  PCORES :: "VirtualCoreCanonicalID \<rightharpoonup> usize"
  HARDWARE :: "Devices option"
  HW_LOCK :: HwLock
  INIT_DONE :: bool
  DEBUG_QUEUE :: string
  debug_port :: string
  ram :: "usize \<Rightarrow> 8 word"
  cores :: "usize \<Rightarrow> ('s, 'c) core"

text \<open>The code the hypervisor calls and does not contain.\<close>

record ('s, 'c) Platform =
  supervisor_state_from :: "usize \<Rightarrow> 's"
  save_supervisor_state :: "'c \<Rightarrow> 's \<Rightarrow> 's"
  load_supervisor_state :: "'s \<Rightarrow> 'c \<Rightarrow> 'c"
  prep_supervisor_return :: "'c \<Rightarrow> 'c"
  cpu_features :: "usize \<Rightarrow> usize"
  cpu_supervisor :: "usize \<Rightarrow> bool"
  cpu_heap_area :: "usize \<Rightarrow> usize \<times> usize"
  cpu_describe :: "usize \<Rightarrow> string"
  validate_ram :: "usize \<Rightarrow> RAMArea \<Rightarrow> RAMArea list"
  boot_supervisor_area :: "usize \<times> usize"
  parse_devices :: "8 word list \<Rightarrow> Devices option"
  parse_elf :: "8 word list \<Rightarrow> Elf + string"
  set_iter :: "usize set \<Rightarrow> usize list"
  map_iter :: "(usize \<rightharpoonup> usize) \<Rightarrow> (usize \<times> usize) list"
  debug_assertions :: bool
  cause_text :: "IRQCause \<Rightarrow> string"

text \<open>
  Iterating over a hash set or a hash map visits every element exactly once, in an order that is
  up to the table.
\<close>

definition iteration_ok :: "('s, 'c) Platform \<Rightarrow> bool" where
  "iteration_ok pf \<longleftrightarrow>
     (\<forall>S. set (set_iter pf S) = S \<and> distinct (set_iter pf S)) \<and>
     (\<forall>m. set (map_iter pf m) = {(k, v). m k = Some v} \<and> distinct (map fst (map_iter pf m)))"

text \<open>An operation that can panic stops the core for good.\<close>

datatype 'a outcome = Done 'a | Panicked

primrec bind_outcome :: "'a outcome \<Rightarrow> ('a \<Rightarrow> 'b outcome) \<Rightarrow> 'b outcome" where
  "bind_outcome (Done a) f = f a"
| "bind_outcome Panicked f = Panicked"

lemma bind_outcome_Done: "bind_outcome r f = Done b \<longleftrightarrow> (\<exists>a. r = Done a \<and> f a = Done b)"
  by (cases r) auto

section \<open>The private variables of a core\<close>

definition with_core :: "usize \<Rightarrow> (('s, 'c) core \<Rightarrow> ('s, 'c) core) \<Rightarrow> ('s, 'c) hv \<Rightarrow> ('s, 'c) hv" where
  "with_core me f s = s\<lparr>cores := (cores s)(me := f (cores s me))\<rparr>"

definition call_platform :: "usize \<Rightarrow> PlatformCall \<Rightarrow> ('s, 'c) hv \<Rightarrow> ('s, 'c) hv" where
  "call_platform me c = with_core me (\<lambda>k. k\<lparr>calls := calls k @ [c]\<rparr>)"

text \<open>\<open>PhysicalCore::get_id\<close>, \<open>get_features\<close> and \<open>smode_supported\<close>.\<close>

definition PhysicalCore_get_id :: "('s, 'c) hv \<Rightarrow> usize \<Rightarrow> usize" where
  "PhysicalCore_get_id s me = pc_id (pvars (cores s me))"

definition PhysicalCore_get_features :: "('s, 'c) hv \<Rightarrow> usize \<Rightarrow> usize" where
  "PhysicalCore_get_features s me = pc_features (pvars (cores s me))"

definition smode_supported :: "('s, 'c) hv \<Rightarrow> usize \<Rightarrow> bool" where
  "smode_supported s me = pc_smode (pvars (cores s me))"

text \<open>
  The RAM a supervisor on a core can reach: opening an area replaces the one opened before.
\<close>

fun last_protect :: "PlatformCall list \<Rightarrow> (usize \<times> usize) option" where
  "last_protect [] = None"
| "last_protect (c # cs) =
     (case last_protect cs of
        Some a \<Rightarrow> Some a
      | None \<Rightarrow> (case c of Protect b e \<Rightarrow> Some (b, e) | _ \<Rightarrow> None))"

definition granted :: "('s, 'c) hv \<Rightarrow> usize \<Rightarrow> (usize \<times> usize) option" where
  "granted s me = last_protect (calls (cores s me))"

lemma last_protect_snoc [simp]:
  "last_protect (cs @ [Protect b e]) = Some (b, e)"
  "last_protect (cs @ [TimerStart]) = last_protect cs"
  "last_protect (cs @ [TimerNext u]) = last_protect cs"
  "last_protect (cs @ [Acknowledge]) = last_protect cs"
  "last_protect (cs @ [TestEnd r]) = last_protect cs"
  by (induction cs) (auto split: option.splits)

lemma with_core_simps [simp]:
  "REGIONS (with_core me f s) = REGIONS s"
  "CAPSULE_ID_NEXT (with_core me f s) = CAPSULE_ID_NEXT s"
  "CAPSULES (with_core me f s) = CAPSULES s"
  "SERVICES (with_core me f s) = SERVICES s"
  "MAILBOXES (with_core me f s) = MAILBOXES s"
  "GLOBAL_QUEUES (with_core me f s) = GLOBAL_QUEUES s"
  "WORKLOAD (with_core me f s) = WORKLOAD s"
  "VCORES (with_core me f s) = VCORES s"
  "PCORES (with_core me f s) = PCORES s"
  "HARDWARE (with_core me f s) = HARDWARE s"
  "HW_LOCK (with_core me f s) = HW_LOCK s"
  "INIT_DONE (with_core me f s) = INIT_DONE s"
  "DEBUG_QUEUE (with_core me f s) = DEBUG_QUEUE s"
  "debug_port (with_core me f s) = debug_port s"
  "ram (with_core me f s) = ram s"
  "cores (with_core me f s) = (cores s)(me := f (cores s me))"
  by (simp_all add: with_core_def)

section \<open>The state at power-on\<close>

text \<open>
  Every static has its initial value; the private variables of the cores and the contents of the RAM
  are whatever the startup code left there. \<open>OWNER\<close> is initialised by the core that asks first, with its own id.
  Here it is 0, the id of the boot core, from the start; as the lock is free then, the core that takes it
  first becomes its owner in either case.
\<close>

definition hv_start :: "(usize \<Rightarrow> ('s, 'c) core) \<Rightarrow> (usize \<Rightarrow> 8 word) \<Rightarrow> ('s, 'c) hv" where
  "hv_start ks m =
     \<lparr>REGIONS = SortedRegions_new, CAPSULE_ID_NEXT = 0, CAPSULES = Map.empty, SERVICES = Map.empty,
      MAILBOXES = Map.empty, GLOBAL_QUEUES = ScheduleQueues_new, WORKLOAD = Map.empty,
      VCORES = Map.empty, PCORES = Map.empty, HARDWARE = None, HW_LOCK = \<lparr>OWNER = 0, held = False\<rparr>,
      INIT_DONE = False, DEBUG_QUEUE = [], debug_port = [], ram = m, cores = ks\<rparr>"

text \<open>A machine to evaluate examples on: a supervisor state is its program counter.\<close>

definition blank_core :: "(usize, usize) core" where
  "blank_core =
     \<lparr>pvars = \<lparr>pc_id = 0, pc_features = 0,
        pc_heap = \<lparr>block_list_head = 0, block_header_size = 0, heap_mem = Map.empty\<rparr>,
        pc_queues = ScheduleQueues_new, pc_smode = True\<rparr>,
      regs = 0, calls = []\<rparr>"

definition blank_hv :: "(usize, usize) hv" where
  "blank_hv = hv_start (\<lambda>p. blank_core\<lparr>pvars := (pvars blank_core)\<lparr>pc_id := p\<rparr>\<rparr>) (\<lambda>_. 0)"

definition example_platform :: "(usize, usize) Platform" where
  "example_platform =
     \<lparr>supervisor_state_from = (\<lambda>e. e), save_supervisor_state = (\<lambda>r _. r),
      load_supervisor_state = (\<lambda>t _. t), prep_supervisor_return = (\<lambda>r. r),
      cpu_features = (\<lambda>_. 0), cpu_supervisor = (\<lambda>_. True), cpu_heap_area = (\<lambda>p. (0x90000000 + p * 0x10000, 0x10000)),
      cpu_describe = (\<lambda>_. ''RV64''), validate_ram = (\<lambda>_ c. [c]),
      boot_supervisor_area = (0x70000000, 0x70000008),
      parse_devices = (\<lambda>_. Some \<lparr>dev_nr_cpu_cores = 2,
        dev_phys_ram_areas = [\<lparr>area_base = 0x80000000, area_size = 0x10000000\<rparr>]\<rparr>),
      parse_elf = (\<lambda>_. Inl \<lparr>entry_point = 0x1004, program_headers =
        [Some \<lparr>ph_is_load = True, ph_offset = 0, ph_virtual_addr = 0x1000, ph_physical_addr = 0,
           ph_file_size = 8, ph_mem_size = 16\<rparr>]\<rparr>),
      set_iter = sorted_list_of_set,
      map_iter = (\<lambda>m. map (\<lambda>k. (k, the (m k))) (sorted_list_of_set (dom m))),
      debug_assertions = True, cause_text = (\<lambda>_. ''cause'')\<rparr>"

lemma example_platform_iteration: "iteration_ok example_platform"
  by (auto simp: iteration_ok_def example_platform_def comp_def)

end
