(* ===== verification/Hv_Hardware.thy ===== *)
theory Hv_Hardware
  imports Hv_State
begin

text \<open>
  Access to the base hardware, \<^verbatim>\<open>src/hypervisor/hardware.rs\<close>, and the debug console built on it,
  \<^verbatim>\<open>src/hypervisor/debug.rs\<close>: log lines are collected in \<open>DEBUG_QUEUE\<close> and written to the debug port when a
  core finds the time.
\<close>

section \<open>Devices\<close>

text \<open>The boot core takes the lock of \<open>HARDWARE\<close> directly here, past \<open>acquire_hardware_lock\<close> and without becoming its owner, to store the
  devices. The lock is free between two operations, so that this does not wait, and it is free again afterwards.\<close>

definition parse_and_init :: "('s, 'c) Platform \<Rightarrow> 8 word list \<Rightarrow> ('s, 'c) hv \<Rightarrow> unit result \<times> ('s, 'c) hv" where
  "parse_and_init pf dtb s =
     (case parse_devices pf dtb of
        Some dt \<Rightarrow> (Ok (), s\<lparr>HARDWARE := Some dt\<rparr>)
      | None \<Rightarrow> (Err DeviceTreeBad, s))"

text \<open>
  The use of the lock by every access: take it, look at the devices, drop the guard. With the lock
  free, as it is between two operations, taking it succeeds in one round. \<open>None\<close> is a failed attempt; an attempt of
  kind \<open>Multiple\<close> on a lock that another core never drops spins for ever in the code and is \<open>None\<close> here as well, a case
  that does not arise because the lock is free.
\<close>

definition with_hardware ::
  "LockAttempts \<Rightarrow> usize \<Rightarrow> ('s, 'c) hv \<Rightarrow> Devices option option \<times> ('s, 'c) hv" where
  "with_hardware attempts me s =
     (case acquire_hardware_lock (PhysicalCore_get_id s me) attempts (HW_LOCK s) of
        Some (True, l) \<Rightarrow> (Some (HARDWARE s), s\<lparr>HW_LOCK := drop_guard l\<rparr>)
      | _ \<Rightarrow> (None, s))"

definition write_debug_string :: "usize \<Rightarrow> string \<Rightarrow> ('s, 'c) hv \<Rightarrow> bool \<times> ('s, 'c) hv" where
  "write_debug_string me msg s =
     (case with_hardware Once me s of
        (None, s') \<Rightarrow> (False, s')
      | (Some (Some d), s') \<Rightarrow> (True, s'\<lparr>debug_port := debug_port s' @ msg\<rparr>)
      | (Some None, s') \<Rightarrow> (False, s'))"

definition get_nr_cpu_cores :: "usize \<Rightarrow> ('s, 'c) hv \<Rightarrow> usize option \<times> ('s, 'c) hv" where
  "get_nr_cpu_cores me s =
     (case with_hardware Multiple me s of
        (Some (Some d), s') \<Rightarrow> (Some (dev_nr_cpu_cores d), s')
      | (_, s') \<Rightarrow> (None, s'))"

definition get_phys_ram_chunks :: "usize \<Rightarrow> ('s, 'c) hv \<Rightarrow> RAMArea list option \<times> ('s, 'c) hv" where
  "get_phys_ram_chunks me s =
     (case with_hardware Multiple me s of
        (Some (Some d), s') \<Rightarrow> (Some (dev_phys_ram_areas d), s')
      | (_, s') \<Rightarrow> (None, s'))"

definition scheduler_timer_start :: "usize \<Rightarrow> ('s, 'c) hv \<Rightarrow> ('s, 'c) hv" where
  "scheduler_timer_start me s =
     (case with_hardware Multiple me s of
        (Some (Some d), s') \<Rightarrow> call_platform me TimerStart s'
      | (_, s') \<Rightarrow> s')"

definition scheduler_timer_next :: "usize \<Rightarrow> u64 \<Rightarrow> ('s, 'c) hv \<Rightarrow> ('s, 'c) hv" where
  "scheduler_timer_next me usecs s =
     (case with_hardware Multiple me s of
        (Some (Some d), s') \<Rightarrow> call_platform me (TimerNext usecs) s'
      | (_, s') \<Rightarrow> s')"

section \<open>Formatted text\<close>

definition digit :: "nat \<Rightarrow> char" where
  "digit d = ''0123456789abcdef'' ! (d mod 16)"

function digits :: "nat \<Rightarrow> nat \<Rightarrow> string" where
  "digits b n = (if b < 2 \<or> n < b then [digit n] else digits b (n div b) @ [digit (n mod b)])"
  by auto
termination by (relation "measure snd") auto

definition dec :: "usize \<Rightarrow> string" where
  "dec a = digits 10 (unat a)"

definition hex :: "usize \<Rightarrow> string" where
  "hex a = digits 16 (unat a)"

text \<open>\<open>format_args!\<close>: each pair of braces is replaced by the next argument.\<close>

function format :: "string \<Rightarrow> string list \<Rightarrow> string" where
  "format [] as = []"
| "format (c # cs) as =
     (if c = CHR ''{'' then hd (as @ [[]]) @ format (tl (dropWhile (\<lambda>d. d \<noteq> CHR ''}'') cs)) (tl as)
      else c # format cs as)"
  by pat_completeness auto
termination
  by (relation "measure (length \<circ> fst)")
    (auto simp: less_Suc_eq_le intro: le_trans[OF diff_le_self] length_dropWhile_le)

section \<open>The console\<close>

definition write_str :: "string \<Rightarrow> ('s, 'c) hv \<Rightarrow> ('s, 'c) hv" where
  "write_str t s = s\<lparr>DEBUG_QUEUE := DEBUG_QUEUE s @ t\<rparr>"

definition hvprintln :: "string \<Rightarrow> string list \<Rightarrow> ('s, 'c) hv \<Rightarrow> ('s, 'c) hv" where
  "hvprintln fmt as = write_str (format (fmt @ [CHR 0x0A]) as)"

definition hvlog :: "usize \<Rightarrow> string \<Rightarrow> string list \<Rightarrow> ('s, 'c) hv \<Rightarrow> ('s, 'c) hv" where
  "hvlog me fmt as s = hvprintln (''[-] CPU {}: '' @ fmt) (dec (PhysicalCore_get_id s me) # as) s"

definition hvalert :: "usize \<Rightarrow> string \<Rightarrow> string list \<Rightarrow> ('s, 'c) hv \<Rightarrow> ('s, 'c) hv" where
  "hvalert me fmt as s = hvprintln (''[!] CPU {}: '' @ fmt) (dec (PhysicalCore_get_id s me) # as) s"

definition hvdebug ::
  "('s, 'c) Platform \<Rightarrow> usize \<Rightarrow> string \<Rightarrow> string list \<Rightarrow> ('s, 'c) hv \<Rightarrow> ('s, 'c) hv" where
  "hvdebug pf me fmt as s =
     (if debug_assertions pf
      then hvprintln (''[?] CPU {}: '' @ fmt) (dec (PhysicalCore_get_id s me) # as) s
      else s)"

definition drain_queue :: "usize \<Rightarrow> ('s, 'c) hv \<Rightarrow> ('s, 'c) hv" where
  "drain_queue me s =
     (if length (DEBUG_QUEUE s) > 0
      then case write_debug_string me (DEBUG_QUEUE s) s of
             (True, s') \<Rightarrow> s'\<lparr>DEBUG_QUEUE := []\<rparr>
           | (False, s') \<Rightarrow> s'
      else s)"

section \<open>What the console and the lock leave alone\<close>

text \<open>The state without the console and the hardware lock.\<close>

definition essence :: "('s, 'c) hv \<Rightarrow> ('s, 'c) hv" where
  "essence s = s\<lparr>DEBUG_QUEUE := [], debug_port := [], HW_LOCK := \<lparr>OWNER = 0, held = False\<rparr>\<rparr>"

lemma essence_fields:
  assumes "essence t = essence s"
  shows "REGIONS t = REGIONS s" "CAPSULE_ID_NEXT t = CAPSULE_ID_NEXT s"
    "CAPSULES t = CAPSULES s" "SERVICES t = SERVICES s" "MAILBOXES t = MAILBOXES s"
    "GLOBAL_QUEUES t = GLOBAL_QUEUES s" "WORKLOAD t = WORKLOAD s" "VCORES t = VCORES s"
    "PCORES t = PCORES s" "HARDWARE t = HARDWARE s" "INIT_DONE t = INIT_DONE s"
    "ram t = ram s" "cores t = cores s"
  using assms by (cases s; cases t; simp add: essence_def)+

lemma with_hardware_free:
  assumes "\<not> held (HW_LOCK s)"
  shows "with_hardware a me s =
    (Some (HARDWARE s), s\<lparr>HW_LOCK := \<lparr>OWNER = PhysicalCore_get_id s me, held = False\<rparr>\<rparr>)"
  using assms by (simp add: with_hardware_def acquire_free drop_guard_def)

lemma with_hardware_cases:
  obtains (taken) l where "with_hardware a me s = (Some (HARDWARE s), s\<lparr>HW_LOCK := l\<rparr>)" "\<not> held l"
  | (missed) "with_hardware a me s = (None, s)" "held (HW_LOCK s)"
proof (cases "acquire_hardware_lock (PhysicalCore_get_id s me) a (HW_LOCK s)")
  case None
  then have "held (HW_LOCK s)" using acquire_free[of "HW_LOCK s"] by fastforce
  then show ?thesis using missed None by (simp add: with_hardware_def)
next
  case (Some r)
  show ?thesis
  proof (cases "fst r")
    case True
    with Some show ?thesis
      using taken[of "drop_guard (snd r)"] by (cases r) (simp add: with_hardware_def drop_guard_def)
  next
    case False
    then have "held (HW_LOCK s)"
      using Some acquire_free[of "HW_LOCK s" "PhysicalCore_get_id s me" a] by fastforce
    then show ?thesis using missed Some False by (cases r) (simp add: with_hardware_def)
  qed
qed

lemma with_hardware_essence [simp]: "essence (snd (with_hardware a me s)) = essence s"
  by (cases rule: with_hardware_cases[of a me s]) (simp_all add: essence_def)

lemma write_debug_string_essence [simp]: "essence (snd (write_debug_string me t s)) = essence s"
  by (cases rule: with_hardware_cases[of Once me s]; cases "HARDWARE s")
    (simp_all add: write_debug_string_def essence_def)

lemma console_essence [simp]:
  "essence (write_str t s) = essence s"
  "essence (hvlog me f as s) = essence s"
  "essence (hvalert me f as s) = essence s"
  "essence (hvdebug pf me f as s) = essence s"
  by (simp_all add: essence_def hvlog_def hvalert_def hvdebug_def hvprintln_def write_str_def)

lemma drain_queue_essence [simp]: "essence (drain_queue me s) = essence s"
  using write_debug_string_essence[of me "DEBUG_QUEUE s" s]
  by (cases "write_debug_string me (DEBUG_QUEUE s) s") (auto simp: drain_queue_def essence_def split: bool.splits)

lemma hardware_query_essence [simp]:
  "essence (snd (get_nr_cpu_cores me s)) = essence s"
  "essence (snd (get_phys_ram_chunks me s)) = essence s"
  by (cases rule: with_hardware_cases[of Multiple me s]; cases "HARDWARE s";
      simp add: get_nr_cpu_cores_def get_phys_ram_chunks_def essence_def)+

lemmas console_fields [simp] =
  essence_fields[OF console_essence(1)] essence_fields[OF console_essence(2)]
  essence_fields[OF console_essence(3)] essence_fields[OF console_essence(4)]
  essence_fields[OF drain_queue_essence] essence_fields[OF with_hardware_essence]
  essence_fields[OF hardware_query_essence(1)] essence_fields[OF hardware_query_essence(2)]

lemma console_lock [simp]:
  "HW_LOCK (write_str t s) = HW_LOCK s"
  "HW_LOCK (hvlog me f as s) = HW_LOCK s"
  "HW_LOCK (hvalert me f as s) = HW_LOCK s"
  "HW_LOCK (hvdebug pf me f as s) = HW_LOCK s"
  by (simp_all add: hvlog_def hvalert_def hvdebug_def hvprintln_def write_str_def)

lemma lock_stays_free:
  assumes "\<not> held (HW_LOCK s)"
  shows "\<not> held (HW_LOCK (drain_queue me s))" "\<not> held (HW_LOCK (scheduler_timer_start me s))"
    "\<not> held (HW_LOCK (scheduler_timer_next me u s))"
    "\<not> held (HW_LOCK (snd (get_nr_cpu_cores me s)))" "\<not> held (HW_LOCK (snd (get_phys_ram_chunks me s)))"
  using assms by (auto simp: drain_queue_def write_debug_string_def scheduler_timer_start_def
      scheduler_timer_next_def get_nr_cpu_cores_def get_phys_ram_chunks_def with_hardware_free
      call_platform_def split: option.splits)

text \<open>The timer calls add one platform call of the calling core and change nothing else.\<close>

lemma timer_essence:
  "essence (scheduler_timer_start me s) =
     essence (if fst (with_hardware Multiple me s) \<in> {None, Some None} then s else call_platform me TimerStart s)"
  "essence (scheduler_timer_next me u s) =
     essence (if fst (with_hardware Multiple me s) \<in> {None, Some None} then s else call_platform me (TimerNext u) s)"
  by (cases rule: with_hardware_cases[of Multiple me s]; cases "HARDWARE s";
      simp add: scheduler_timer_start_def scheduler_timer_next_def essence_def call_platform_def with_core_def)+

lemma call_platform_fields [simp]:
  "REGIONS (call_platform me c s) = REGIONS s"
  "CAPSULE_ID_NEXT (call_platform me c s) = CAPSULE_ID_NEXT s"
  "CAPSULES (call_platform me c s) = CAPSULES s"
  "SERVICES (call_platform me c s) = SERVICES s"
  "MAILBOXES (call_platform me c s) = MAILBOXES s"
  "GLOBAL_QUEUES (call_platform me c s) = GLOBAL_QUEUES s"
  "WORKLOAD (call_platform me c s) = WORKLOAD s"
  "VCORES (call_platform me c s) = VCORES s"
  "PCORES (call_platform me c s) = PCORES s"
  "HARDWARE (call_platform me c s) = HARDWARE s"
  "HW_LOCK (call_platform me c s) = HW_LOCK s"
  "INIT_DONE (call_platform me c s) = INIT_DONE s"
  "ram (call_platform me c s) = ram s"
  "pvars (cores (call_platform me c s) p) = pvars (cores s p)"
  "regs (cores (call_platform me c s) p) = regs (cores s p)"
  by (simp_all add: call_platform_def)

lemma granted_call_platform [simp]:
  "granted (call_platform me (Protect b e) s) = (granted s)(me := Some (b, e))"
  "granted (call_platform me TimerStart s) = granted s"
  "granted (call_platform me (TimerNext u) s) = granted s"
  "granted (call_platform me Acknowledge s) = granted s"
  by (auto simp: granted_def call_platform_def fun_eq_iff)

lemma timer_essence_cases:
  assumes "f = scheduler_timer_start me \<or> f = scheduler_timer_next me u"
  shows "\<exists>t. essence (f s) = essence t \<and>
    (t = s \<or> t = call_platform me TimerStart s \<or> t = call_platform me (TimerNext u) s)"
  using assms
proof
  assume "f = scheduler_timer_start me"
  then show ?thesis
    by (intro exI[of _ "if fst (with_hardware Multiple me s) \<in> {None, Some None} then s
        else call_platform me TimerStart s"]) (simp add: timer_essence)
next
  assume "f = scheduler_timer_next me u"
  then show ?thesis
    by (intro exI[of _ "if fst (with_hardware Multiple me s) \<in> {None, Some None} then s
        else call_platform me (TimerNext u) s"]) (simp add: timer_essence)
qed

lemma timer_fields:
  assumes "f = scheduler_timer_start me \<or> f = scheduler_timer_next me u"
  shows "REGIONS (f s) = REGIONS s" "CAPSULE_ID_NEXT (f s) = CAPSULE_ID_NEXT s"
    "CAPSULES (f s) = CAPSULES s" "SERVICES (f s) = SERVICES s" "MAILBOXES (f s) = MAILBOXES s"
    "GLOBAL_QUEUES (f s) = GLOBAL_QUEUES s" "WORKLOAD (f s) = WORKLOAD s" "VCORES (f s) = VCORES s"
    "PCORES (f s) = PCORES s" "HARDWARE (f s) = HARDWARE s" "INIT_DONE (f s) = INIT_DONE s"
    "ram (f s) = ram s" "pvars (cores (f s) p) = pvars (cores s p)" "regs (cores (f s) p) = regs (cores s p)"
    "granted (f s) = granted s"
proof -
  obtain t where e: "essence (f s) = essence t"
    and t: "t = s \<or> t = call_platform me TimerStart s \<or> t = call_platform me (TimerNext u) s"
    using timer_essence_cases[OF assms] by blast
  have "granted (f s) = granted t" by (simp add: granted_def fun_eq_iff essence_fields(13)[OF e])
  then show "granted (f s) = granted s" using t by auto
  show "REGIONS (f s) = REGIONS s" "CAPSULE_ID_NEXT (f s) = CAPSULE_ID_NEXT s"
    "CAPSULES (f s) = CAPSULES s" "SERVICES (f s) = SERVICES s" "MAILBOXES (f s) = MAILBOXES s"
    "GLOBAL_QUEUES (f s) = GLOBAL_QUEUES s" "WORKLOAD (f s) = WORKLOAD s" "VCORES (f s) = VCORES s"
    "PCORES (f s) = PCORES s" "HARDWARE (f s) = HARDWARE s" "INIT_DONE (f s) = INIT_DONE s"
    "ram (f s) = ram s" "pvars (cores (f s) p) = pvars (cores s p)" "regs (cores (f s) p) = regs (cores s p)"
    using t by (auto simp: essence_fields[OF e])
qed

lemmas timer_start_fields [simp] = timer_fields[OF disjI1[OF refl]]
lemmas timer_next_fields [simp] = timer_fields[OF disjI2[OF refl]]

section \<open>Nothing logged is lost\<close>

datatype console_step = Write string | Drain usize

primrec console_do :: "console_step \<Rightarrow> ('s, 'c) hv \<Rightarrow> ('s, 'c) hv" where
  "console_do (Write t) s = write_str t s"
| "console_do (Drain me) s = drain_queue me s"

primrec step_text :: "console_step \<Rightarrow> string" where
  "step_text (Write t) = t"
| "step_text (Drain me) = []"

definition console_text :: "('s, 'c) hv \<Rightarrow> string" where
  "console_text s = debug_port s @ DEBUG_QUEUE s"

lemma drain_queue_text: "console_text (drain_queue me s) = console_text s"
  by (cases rule: with_hardware_cases[of Once me s]; cases "HARDWARE s")
    (simp_all add: drain_queue_def write_debug_string_def console_text_def)

lemma drain_queue_free:
  assumes "\<not> held (HW_LOCK s)" and "HARDWARE s \<noteq> None"
  shows "DEBUG_QUEUE (drain_queue me s) = []"
  using assms by (auto simp: drain_queue_def write_debug_string_def with_hardware_free)

lemma console_do_lock: "\<not> held (HW_LOCK s) \<Longrightarrow> \<not> held (HW_LOCK (console_do c s))"
  by (cases c; cases "HARDWARE s")
    (simp_all add: write_str_def drain_queue_def write_debug_string_def with_hardware_free)

lemma console_do_text: "console_text (console_do c s) = console_text s @ step_text c"
  by (cases c) (simp_all add: drain_queue_text, simp add: write_str_def console_text_def)

lemma console_do_hardware: "HARDWARE (console_do c s) = HARDWARE s"
  by (cases c) simp_all

lemma fold_console_text: "console_text (fold console_do cs s) = console_text s @ concat (map step_text cs)"
  by (induction cs arbitrary: s) (simp_all add: console_do_text)

lemma fold_console_lock:
  "HARDWARE (fold console_do cs s) = HARDWARE s"
  "\<not> held (HW_LOCK s) \<Longrightarrow> \<not> held (HW_LOCK (fold console_do cs s))"
  by (induction cs arbitrary: s) (simp_all add: console_do_hardware console_do_lock)

text \<open>Whatever cores write to the console and whenever they drain it, the text at the debug port
  followed by the text still queued is everything that was written, in order and once; with the
  hardware known and its lock free, draining leaves nothing in the queue.\<close>

theorem console_complete:
  "debug_port (fold console_do cs s) @ DEBUG_QUEUE (fold console_do cs s)
     = debug_port s @ DEBUG_QUEUE s @ concat (map step_text cs)
   \<and> (HARDWARE s \<noteq> None \<and> \<not> held (HW_LOCK s) \<longrightarrow>
       debug_port (drain_queue me (fold console_do cs s))
         = debug_port s @ DEBUG_QUEUE s @ concat (map step_text cs)
       \<and> DEBUG_QUEUE (drain_queue me (fold console_do cs s)) = [])"
  using fold_console_text[of cs s] fold_console_lock[where cs = cs and s = s] drain_queue_text[of me "fold console_do cs s"]
    drain_queue_free[of "fold console_do cs s" me]
  by (auto simp: console_text_def)

theorem console_complete_witness:
  "debug_port (drain_queue 1 (fold console_do [Write ''hello '', Drain 0, Write ''world'']
     (blank_hv\<lparr>HARDWARE := Some \<lparr>dev_nr_cpu_cores = 1, dev_phys_ram_areas = []\<rparr>\<rparr>))) = ''hello world''"
  using console_complete[of "[Write ''hello '', Drain 0, Write ''world'']"
      "blank_hv\<lparr>HARDWARE := Some \<lparr>dev_nr_cpu_cores = 1, dev_phys_ram_areas = []\<rparr>\<rparr>" 1]
  by (simp add: blank_hv_def hv_start_def del: fold_simps)

end
