(* ===== verification/Hv_Console.thy ===== *)
theory Hv_Console
  imports Hv_Hardware "HOL-Library.Sublist"
begin

text \<open>
  The console with several cores. \<open>hvprint!\<close> holds \<open>DEBUG_LOCK\<close> while \<open>write_fmt\<close> hands its message to \<open>write_str\<close> piece by
  piece, and \<open>drain_queue\<close> takes \<open>DEBUG_QUEUE\<close> only, so that another core can empty the queue in the middle of a
  message. The lock on the devices may be held by anyone at any time.
\<close>

section \<open>Printing, piece by piece\<close>

text \<open>The core that holds \<open>DEBUG_LOCK\<close>, if any, with the pieces it has still to write; the state of the hypervisor; and the
  messages begun so far, in order.\<close>

record ('s, 'c) console =
  printer :: "(usize \<times> string list) option"
  hv_state :: "('s, 'c) hv"
  begun :: "string list"

text \<open>The pieces of a message are what \<open>format_args!\<close> makes of it: literal text and arguments, in order.\<close>

inductive print_step :: "('s, 'c) console \<Rightarrow> ('s, 'c) console \<Rightarrow> bool" where
  begins: "printer x = None \<Longrightarrow> concat ts = format (fmt @ [CHR 0x0A]) as \<Longrightarrow>
    print_step x (x\<lparr>printer := Some (me, ts), begun := begun x @ [format (fmt @ [CHR 0x0A]) as]\<rparr>)"
| writes: "printer x = Some (me, t # ts) \<Longrightarrow>
    print_step x (x\<lparr>printer := Some (me, ts), hv_state := write_str t (hv_state x)\<rparr>)"
| ends: "printer x = Some (me, []) \<Longrightarrow> print_step x (x\<lparr>printer := None\<rparr>)"
| drains: "print_step x (x\<lparr>hv_state := drain_queue me (hv_state x)\<rparr>)"
| devices: "print_step x (x\<lparr>hv_state := (hv_state x)\<lparr>HW_LOCK := l\<rparr>\<rparr>)"

definition console_start :: "('s, 'c) console \<Rightarrow> bool" where
  "console_start x \<longleftrightarrow> printer x = None \<and> begun x = [] \<and> console_text (hv_state x) = []"

definition unwritten :: "('s, 'c) console \<Rightarrow> string" where
  "unwritten x = (case printer x of None \<Rightarrow> [] | Some (me, ts) \<Rightarrow> concat ts)"

text \<open>Everything begun has been written, but for the rest of the last message.\<close>

definition console_inv :: "('s, 'c) console \<Rightarrow> bool" where
  "console_inv x \<longleftrightarrow> concat (begun x) = console_text (hv_state x) @ unwritten x
     \<and> (printer x \<noteq> None \<longrightarrow> begun x \<noteq> [] \<and> suffix (unwritten x) (last (begun x)))"

lemma write_str_text [simp]: "console_text (write_str t s) = console_text s @ t"
  by (simp add: write_str_def console_text_def)

lemma hw_lock_text [simp]: "console_text (s\<lparr>HW_LOCK := l\<rparr>) = console_text s"
  by (simp add: console_text_def)

interpretation console_safety: invariant_system console_start print_step console_inv
proof unfold_locales
  show "console_inv x" if "console_start x" for x :: "('a, 'b) console"
    using that by (simp add: console_start_def console_inv_def unwritten_def)
  show "console_inv y" if "console_inv x" "print_step x y" for x y :: "('a, 'b) console"
    using that(2,1)
    by (induction rule: print_step.induct)
      (auto simp: console_inv_def unwritten_def drain_queue_text suffix_def)
qed

text \<open>C25: the console never mixes messages. Whatever the cores print, and whoever drains the queue in between, the text at the
  debug port followed by what is queued is a sequence of whole messages, in the order in which
  they were begun, followed by the first part of one more message if and only if a core is in the middle of printing it. If
  none is, everything has been written.\<close>

theorem console_messages_whole:
  assumes "reachable console_start print_step x"
  shows "(printer x = None \<longrightarrow> debug_port (hv_state x) @ DEBUG_QUEUE (hv_state x) = concat (begun x))
    \<and> (\<forall>me ts. printer x = Some (me, ts) \<longrightarrow> (\<exists>whole part. begun x = whole @ [part @ concat ts]
         \<and> debug_port (hv_state x) @ DEBUG_QUEUE (hv_state x) = concat whole @ part))"
proof -
  have inv: "console_inv x" by (rule console_safety.reachable_inv[OF assms])
  show ?thesis
  proof (cases "printer x")
    case None
    then show ?thesis using inv by (simp add: console_inv_def unwritten_def console_text_def)
  next
    case (Some mt)
    then obtain me ts where p: "printer x = Some (me, ts)" by (cases mt) auto
    then obtain part where b: "begun x \<noteq> []" "last (begun x) = part @ concat ts"
      using inv by (auto simp: console_inv_def unwritten_def suffix_def)
    define whole where "whole = butlast (begun x)"
    have w: "begun x = whole @ [part @ concat ts]"
      using append_butlast_last_id[OF b(1)] b(2) by (simp add: whole_def)
    then have "concat whole @ part = console_text (hv_state x)"
      using inv p by (simp add: console_inv_def unwritten_def)
    with w p show ?thesis by (auto simp: console_text_def)
  qed
qed

section \<open>A message as one step\<close>

text \<open>A message that nothing interrupts has the effect of the one-step operation of the other theories.\<close>

lemma print_pieces:
  "print_step\<^sup>*\<^sup>* (x\<lparr>printer := Some (me, ts)\<rparr>) (x\<lparr>printer := None, hv_state := write_str (concat ts) (hv_state x)\<rparr>)"
proof (induction ts arbitrary: x)
  case Nil
  have "print_step (x\<lparr>printer := Some (me, [])\<rparr>) (x\<lparr>printer := Some (me, []), printer := None\<rparr>)"
    by (rule print_step.ends[of _ me]) simp
  then show ?case by (simp add: write_str_def r_into_rtranclp)
next
  case (Cons t ts)
  define y where "y = x\<lparr>hv_state := write_str t (hv_state x)\<rparr>"
  have "print_step (x\<lparr>printer := Some (me, t # ts)\<rparr>)
      (x\<lparr>printer := Some (me, t # ts), printer := Some (me, ts), hv_state := write_str t (hv_state x)\<rparr>)"
    using print_step.writes[of "x\<lparr>printer := Some (me, t # ts)\<rparr>" me t ts] by simp
  moreover have "x\<lparr>printer := Some (me, t # ts), printer := Some (me, ts), hv_state := write_str t (hv_state x)\<rparr>
      = y\<lparr>printer := Some (me, ts)\<rparr>" by (simp add: y_def)
  moreover note Cons.IH[of y]
  moreover have "y\<lparr>printer := None, hv_state := write_str (concat ts) (hv_state y)\<rparr>
      = x\<lparr>printer := None, hv_state := write_str (concat (t # ts)) (hv_state x)\<rparr>"
    by (simp add: y_def write_str_def)
  ultimately show ?case by (simp add: converse_rtranclp_into_rtranclp)
qed

lemma print_one_step:
  assumes "printer x = None"
  shows "\<exists>y. print_step\<^sup>*\<^sup>* x y \<and> printer y = None \<and> hv_state y = hvprintln fmt as (hv_state x)"
proof -
  let ?m = "format (fmt @ [CHR 0x0A]) as"
  let ?z = "x\<lparr>begun := begun x @ [?m]\<rparr>"
  have "?z\<lparr>printer := P\<rparr> = x\<lparr>printer := P, begun := begun x @ [?m]\<rparr>" for P by (cases x) simp
  then have "print_step x (?z\<lparr>printer := Some (me, [?m])\<rparr>)" for me
    using print_step.begins[OF assms, of "[?m]" fmt as me] by (simp only: concat.simps append_Nil2)
  moreover have "print_step\<^sup>*\<^sup>* (?z\<lparr>printer := Some (me, [?m])\<rparr>)
      (?z\<lparr>printer := None, hv_state := write_str (concat [?m]) (hv_state ?z)\<rparr>)" for me
    by (rule print_pieces)
  ultimately have "print_step\<^sup>*\<^sup>* x (?z\<lparr>printer := None, hv_state := write_str (concat [?m]) (hv_state ?z)\<rparr>)"
    by (meson converse_rtranclp_into_rtranclp)
  then show ?thesis by (intro exI conjI) (assumption, simp_all add: hvprintln_def)
qed

text \<open>Core 0 is half-way through its message when core 1 drains the queue.\<close>

theorem console_messages_whole_witness:
  "\<exists>x :: (usize, usize) console. reachable console_start print_step x \<and> printer x = Some (0, [''3'' @ [CHR 0x0A]])
     \<and> debug_port (hv_state x) @ DEBUG_QUEUE (hv_state x) = ''CPU '' \<and> debug_port (hv_state x) = ''CPU ''"
proof -
  define h :: "(usize, usize) hv" where "h = blank_hv\<lparr>HARDWARE := Some \<lparr>dev_nr_cpu_cores = 1, dev_phys_ram_areas = []\<rparr>\<rparr>"
  define x0 :: "(usize, usize) console" where "x0 = \<lparr>printer = None, hv_state = h, begun = []\<rparr>"
  define m where "m = format (''CPU {}'' @ [CHR 0x0A]) [''3'']"
  have m: "concat [''CPU '', ''3'' @ [CHR 0x0A]] = m" by (simp add: m_def)
  define x1 where "x1 = x0\<lparr>printer := Some (0, [''CPU '', ''3'' @ [CHR 0x0A]]), begun := begun x0 @ [m]\<rparr>"
  define x2 where "x2 = x1\<lparr>printer := Some (0, [''3'' @ [CHR 0x0A]]), hv_state := write_str ''CPU '' (hv_state x1)\<rparr>"
  define x3 where "x3 = x2\<lparr>hv_state := drain_queue 1 (hv_state x2)\<rparr>"
  have h: "console_text h = []" "\<not> held (HW_LOCK h)" "HARDWARE h \<noteq> None" "debug_port h = []" "DEBUG_QUEUE h = []"
    by (simp_all add: h_def console_text_def blank_hv_def hv_start_def)
  have "reachable console_start print_step x0" by (rule reachable.first) (simp add: console_start_def x0_def h(1))
  moreover have "print_step x0 x1" unfolding x1_def m_def
    by (rule print_step.begins) (use m in \<open>simp_all add: x0_def m_def\<close>)
  moreover have "print_step x1 x2" unfolding x2_def by (rule print_step.writes) (simp add: x1_def)
  moreover have "print_step x2 x3" unfolding x3_def by (rule print_step.drains)
  ultimately have r: "reachable console_start print_step x3" by (meson reachable.follow)
  have p: "printer x3 = Some (0, [''3'' @ [CHR 0x0A]])" by (simp add: x3_def x2_def)
  have b: "begun x3 = [m]" by (simp add: x3_def x2_def x1_def x0_def)
  obtain whole part where "begun x3 = whole @ [part @ concat [''3'' @ [CHR 0x0A]]]"
    "debug_port (hv_state x3) @ DEBUG_QUEUE (hv_state x3) = concat whole @ part"
    using console_messages_whole[OF r] p by blast
  then have whole_text: "debug_port (hv_state x3) @ DEBUG_QUEUE (hv_state x3) = ''CPU ''"
    using b m by (cases whole) (auto simp flip: m)
  moreover have "DEBUG_QUEUE (hv_state x3) = []" unfolding x3_def using h(2,3)
    by (simp add: x2_def x1_def x0_def drain_queue_free)
  ultimately show ?thesis using r p by (intro exI[of _ x3]) simp
qed

end
