(* ===== verification/Hv_Message.thy ===== *)
theory Hv_Message
  imports Hv_Hardware
begin

text \<open>
  Messages between cores and to services: \<^verbatim>\<open>src/hypervisor/message.rs\<close>, and the delivery and
  deregistration half of \<^verbatim>\<open>src/hypervisor/service.rs\<close>. A mailbox is a \<open>VecDeque\<close>: a list whose head is the
  front.
\<close>

section \<open>Mailboxes and messages\<close>

definition create_mailbox :: "usize \<Rightarrow> ('s, 'c) hv \<Rightarrow> ('s, 'c) hv" where
  "create_mailbox coreid s = s\<lparr>MAILBOXES := (MAILBOXES s)(coreid \<mapsto> [])\<rparr>"

definition send_to_all :: Recipient where
  "send_to_all = Broadcast"

definition send_to_pcore :: "usize \<Rightarrow> Recipient" where
  "send_to_pcore i = ToPhysicalCore i"

definition send_to_service :: "usize \<Rightarrow> Recipient" where
  "send_to_service i = ToService i"

definition Message_new :: "('s, 'c) hv \<Rightarrow> usize \<Rightarrow> Recipient \<Rightarrow> MessageContent \<Rightarrow> Message" where
  "Message_new s me recv data =
     \<lparr>sender = (case data of
          CapsuleTeardown _ \<Rightarrow> FromPhysicalCore (PhysicalCore_get_id s me)
        | DisownQueuedVirtualCore \<Rightarrow> FromPhysicalCore (PhysicalCore_get_id s me)),
      receiver = recv, code = data\<rparr>"

definition get_receiver :: "Message \<Rightarrow> Recipient" where
  "get_receiver m = receiver m"

section \<open>Services\<close>

definition Service_queue :: "Service \<Rightarrow> Message \<Rightarrow> Service" where
  "Service_queue sv m = sv\<lparr>msgs := m # msgs sv\<rparr>"

definition deregister :: "usize \<Rightarrow> ('s, 'c) hv \<Rightarrow> unit result \<times> ('s, 'c) hv" where
  "deregister sid s =
     (case SERVICES s sid of
        None \<Rightarrow> (Err ServiceNotFound, s)
      | Some _ \<Rightarrow> (Ok (), s\<lparr>SERVICES := (SERVICES s)(sid := None)\<rparr>))"

definition service_send :: "Message \<Rightarrow> ('s, 'c) hv \<Rightarrow> unit result \<times> ('s, 'c) hv" where
  "service_send m s =
     (case get_receiver m of
        ToService sid \<Rightarrow>
          (case SERVICES s sid of
             Some sv \<Rightarrow> (Ok (), s\<lparr>SERVICES := (SERVICES s)(sid \<mapsto> Service_queue sv m)\<rparr>)
           | None \<Rightarrow> (Err ServiceNotAllowed, s))
      | _ \<Rightarrow> (Err MessageBadType, s))"

section \<open>Sending\<close>

text \<open>Iterating over all mailboxes mutably gives each of them its own copy of the message.\<close>

definition message_send :: "Message \<Rightarrow> ('s, 'c) hv \<Rightarrow> unit result \<times> ('s, 'c) hv" where
  "message_send m s =
     (case receiver m of
        Broadcast \<Rightarrow> (Ok (), s\<lparr>MAILBOXES := map_option (\<lambda>box. box @ [m]) \<circ> MAILBOXES s\<rparr>)
      | ToPhysicalCore pid \<Rightarrow>
          (case MAILBOXES s pid of
             Some box \<Rightarrow> (Ok (), s\<lparr>MAILBOXES := (MAILBOXES s)(pid \<mapsto> box @ [m])\<rparr>)
           | None \<Rightarrow> (Err PhysicalCoreBadID, s))
      | ToService sid \<Rightarrow> service_send m s)"

section \<open>Deliveries\<close>

text \<open>The inbox of a core, with no mailbox read as an empty one, and the inbox of a service.\<close>

definition inbox :: "('s, 'c) hv \<Rightarrow> usize \<Rightarrow> Message list" where
  "inbox s p = (case MAILBOXES s p of None \<Rightarrow> [] | Some box \<Rightarrow> box)"

definition service_inbox :: "('s, 'c) hv \<Rightarrow> usize \<Rightarrow> Message list" where
  "service_inbox s sid = (case SERVICES s sid of None \<Rightarrow> [] | Some sv \<Rightarrow> msgs sv)"

text \<open>Who receives a message: the cores, and the service.\<close>

definition pcore_targets :: "Message \<Rightarrow> ('s, 'c) hv \<Rightarrow> usize set" where
  "pcore_targets m s =
     (case receiver m of
        Broadcast \<Rightarrow> dom (MAILBOXES s)
      | ToPhysicalCore p \<Rightarrow> {p} \<inter> dom (MAILBOXES s)
      | ToService _ \<Rightarrow> {})"

definition service_targets :: "Message \<Rightarrow> ('s, 'c) hv \<Rightarrow> usize set" where
  "service_targets m s =
     (case receiver m of ToService sid \<Rightarrow> {sid} \<inter> dom (SERVICES s) | _ \<Rightarrow> {})"

lemma message_send_frame [simp]:
  "REGIONS (snd (message_send m s)) = REGIONS s" "CAPSULES (snd (message_send m s)) = CAPSULES s"
  "CAPSULE_ID_NEXT (snd (message_send m s)) = CAPSULE_ID_NEXT s"
  "GLOBAL_QUEUES (snd (message_send m s)) = GLOBAL_QUEUES s" "WORKLOAD (snd (message_send m s)) = WORKLOAD s"
  "VCORES (snd (message_send m s)) = VCORES s" "PCORES (snd (message_send m s)) = PCORES s"
  "HARDWARE (snd (message_send m s)) = HARDWARE s" "HW_LOCK (snd (message_send m s)) = HW_LOCK s"
  "INIT_DONE (snd (message_send m s)) = INIT_DONE s"
  "DEBUG_QUEUE (snd (message_send m s)) = DEBUG_QUEUE s" "debug_port (snd (message_send m s)) = debug_port s"
  "ram (snd (message_send m s)) = ram s" "cores (snd (message_send m s)) = cores s"
  by (simp_all add: message_send_def service_send_def split: Recipient.splits option.splits)

lemma deregister_frame [simp]:
  "REGIONS (snd (deregister sid s)) = REGIONS s" "CAPSULES (snd (deregister sid s)) = CAPSULES s"
  "CAPSULE_ID_NEXT (snd (deregister sid s)) = CAPSULE_ID_NEXT s"
  "MAILBOXES (snd (deregister sid s)) = MAILBOXES s"
  "GLOBAL_QUEUES (snd (deregister sid s)) = GLOBAL_QUEUES s" "WORKLOAD (snd (deregister sid s)) = WORKLOAD s"
  "VCORES (snd (deregister sid s)) = VCORES s" "PCORES (snd (deregister sid s)) = PCORES s"
  "HARDWARE (snd (deregister sid s)) = HARDWARE s" "HW_LOCK (snd (deregister sid s)) = HW_LOCK s"
  "INIT_DONE (snd (deregister sid s)) = INIT_DONE s"
  "DEBUG_QUEUE (snd (deregister sid s)) = DEBUG_QUEUE s" "debug_port (snd (deregister sid s)) = debug_port s"
  "ram (snd (deregister sid s)) = ram s" "cores (snd (deregister sid s)) = cores s"
  by (simp_all add: deregister_def split: option.splits)

lemma deregister_services [simp]: "SERVICES (snd (deregister sid s)) = (SERVICES s)(sid := None)"
  by (auto simp: deregister_def split: option.splits)

lemma message_send_inbox:
  "inbox (snd (message_send m s)) p = (if p \<in> pcore_targets m s then inbox s p @ [m] else inbox s p)"
  by (cases "MAILBOXES s p")
    (auto simp: message_send_def service_send_def inbox_def pcore_targets_def split: Recipient.splits option.splits)

lemma message_send_service:
  "service_inbox (snd (message_send m s)) sid =
     (if sid \<in> service_targets m s then m # service_inbox s sid else service_inbox s sid)"
  by (auto simp: message_send_def service_send_def service_inbox_def service_targets_def get_receiver_def
      Service_queue_def split: Recipient.splits option.splits)

lemma message_send_result:
  "fst (message_send m s) =
     (case receiver m of
        Broadcast \<Rightarrow> Ok ()
      | ToPhysicalCore p \<Rightarrow> if p \<in> dom (MAILBOXES s) then Ok () else Err PhysicalCoreBadID
      | ToService sid \<Rightarrow> if sid \<in> dom (SERVICES s) then Ok () else Err ServiceNotAllowed)"
  by (auto simp: message_send_def service_send_def get_receiver_def split: Recipient.splits option.splits)

section \<open>Properties\<close>

text \<open>C19: a message reaches exactly its recipients, once each: a broadcast goes to the end of every
  mailbox, a message to a core to the end of that core's mailbox, a message to a service to the front
  of the service's queue; nobody else's queue changes, no mailbox or service appears or goes away,
  and a message that has no recipient is refused without a change of state.\<close>

theorem message_send_correct:
  "message_send m s = (r, t) \<Longrightarrow>
     (\<forall>p. inbox t p = (if p \<in> pcore_targets m s then inbox s p @ [m] else inbox s p))
   \<and> (\<forall>sid. service_inbox t sid =
        (if sid \<in> service_targets m s then m # service_inbox s sid else service_inbox s sid))
   \<and> dom (MAILBOXES t) = dom (MAILBOXES s) \<and> dom (SERVICES t) = dom (SERVICES s)
   \<and> (r = Ok () \<longleftrightarrow> receiver m = Broadcast \<or> pcore_targets m s \<union> service_targets m s \<noteq> {})
   \<and> (r \<noteq> Ok () \<longrightarrow> t = s)"
proof -
  assume snd: "message_send m s = (r, t)"
  then have dom: "dom (MAILBOXES t) = dom (MAILBOXES s)" "dom (SERVICES t) = dom (SERVICES s)"
    by (auto simp: message_send_def service_send_def split: Recipient.splits option.splits if_splits)
  have "r \<noteq> Ok () \<longrightarrow> t = s"
    using snd by (auto simp: message_send_def service_send_def split: Recipient.splits option.splits)
  moreover have "r = Ok () \<longleftrightarrow> receiver m = Broadcast \<or> pcore_targets m s \<union> service_targets m s \<noteq> {}"
    using message_send_result[of m s] snd
    by (auto simp: pcore_targets_def service_targets_def split: Recipient.splits if_splits)
  ultimately show ?thesis
    using dom message_send_inbox[of m s] message_send_service[of m s] snd by simp
qed

theorem message_send_correct_witness:
  "inbox (snd (message_send \<lparr>sender = FromPhysicalCore 0, receiver = Broadcast, code = CapsuleTeardown 3\<rparr>
     (create_mailbox 1 blank_hv))) 1
   = [\<lparr>sender = FromPhysicalCore 0, receiver = Broadcast, code = CapsuleTeardown 3\<rparr>]"
  using message_send_correct[of "\<lparr>sender = FromPhysicalCore 0, receiver = Broadcast, code = CapsuleTeardown 3\<rparr>"
      "create_mailbox 1 blank_hv", OF surjective_pairing]
  by (simp add: pcore_targets_def create_mailbox_def blank_hv_def hv_start_def inbox_def)

end
