(* ===== verification/Hv_Capsule.thy ===== *)
theory Hv_Capsule
  imports Hv_Message
begin

text \<open>
  Capsules, \<^verbatim>\<open>src/hypervisor/capsule.rs\<close>: the table of capsules, their ids, their memory and the services
  they may offer, from creation to teardown, and the creation of virtual cores (\<^verbatim>\<open>vcore.rs\<close>).
\<close>

section \<open>One capsule\<close>

definition Capsule_new :: "bool \<Rightarrow> Capsule result" where
  "Capsule_new auto_restart_flag =
     Ok \<lparr>restart = auto_restart_flag, vcores = {}, memory = [], allowed_services = {}\<rparr>"

definition set_memory_mapping :: "Capsule \<Rightarrow> Mapping \<Rightarrow> Capsule" where
  "set_memory_mapping c to_add = c\<lparr>memory := memory c @ [to_add]\<rparr>"

definition get_memory_mappings :: "Capsule \<Rightarrow> Mapping list" where
  "get_memory_mappings c = memory c"

definition set_auto_restart :: "Capsule \<Rightarrow> bool \<Rightarrow> Capsule" where
  "set_auto_restart c flag = c\<lparr>restart := flag\<rparr>"

definition will_auto_restart :: "Capsule \<Rightarrow> bool" where
  "will_auto_restart c = restart c"

definition add_vcore :: "Capsule \<Rightarrow> usize \<Rightarrow> Capsule" where
  "add_vcore c i = c\<lparr>vcores := insert i (vcores c)\<rparr>"

definition remove_vcore :: "Capsule \<Rightarrow> usize \<Rightarrow> bool \<times> Capsule" where
  "remove_vcore c i = (i \<in> vcores c, c\<lparr>vcores := vcores c - {i}\<rparr>)"

definition count_vcores :: "Capsule \<Rightarrow> nat" where
  "count_vcores c = card (vcores c)"

definition Capsule_allow_service :: "Capsule \<Rightarrow> usize \<Rightarrow> Capsule" where
  "Capsule_allow_service c sid = c\<lparr>allowed_services := insert sid (allowed_services c)\<rparr>"

definition check_service :: "Capsule \<Rightarrow> usize \<Rightarrow> bool" where
  "check_service c sid \<longleftrightarrow> sid \<in> allowed_services c"

section \<open>Teardown\<close>

fun drop_memory :: "Mapping list \<Rightarrow> ('s, 'c) hv \<Rightarrow> ('s, 'c) hv" where
  "drop_memory [] s = s"
| "drop_memory (mp # mps) s =
     drop_memory mps
       (case get_physical mp of
          Some r \<Rightarrow> s\<lparr>REGIONS := snd (dealloc_region (REGIONS s) r)\<rparr>
        | None \<Rightarrow> s)"

fun drop_services :: "usize list \<Rightarrow> ('s, 'c) hv \<Rightarrow> ('s, 'c) hv" where
  "drop_services [] s = s"
| "drop_services (sid # sids) s = drop_services sids (snd (deregister sid s))"

definition Capsule_drop :: "('s, 'c) Platform \<Rightarrow> usize \<Rightarrow> Capsule \<Rightarrow> ('s, 'c) hv \<Rightarrow> ('s, 'c) hv" where
  "Capsule_drop pf me c s =
     drop_services (set_iter pf (allowed_services c))
       (drop_memory (memory c) (hvdebug pf me ''Tearing down capsule'' [] s))"

definition destroy :: "('s, 'c) Platform \<Rightarrow> usize \<Rightarrow> usize \<Rightarrow> ('s, 'c) hv \<Rightarrow> unit result \<times> ('s, 'c) hv" where
  "destroy pf me cid s =
     (case CAPSULES s cid of
        Some victim \<Rightarrow> (Ok (), Capsule_drop pf me victim (s\<lparr>CAPSULES := (CAPSULES s)(cid := None)\<rparr>))
      | None \<Rightarrow> (Err CapsuleBadID, s))"

section \<open>Creation\<close>

definition overflowing_add :: "usize \<Rightarrow> usize \<Rightarrow> usize \<times> bool" where
  "overflowing_add a b = (a + b, 2 ^ 64 \<le> unat a + unat b)"

function create_loop :: "bool \<Rightarrow> Capsule \<Rightarrow> ('s, 'c) hv \<Rightarrow> usize result \<times> ('s, 'c) hv" where
  "create_loop overflowed_already new_capsule s =
     (case overflowing_add (CAPSULE_ID_NEXT s) 1 of
        (new_id, overflow) \<Rightarrow>
          (let s' = s\<lparr>CAPSULE_ID_NEXT := new_id\<rparr> in
           case CAPSULES s new_id of
             None \<Rightarrow> (Ok new_id, s'\<lparr>CAPSULES := (CAPSULES s)(new_id \<mapsto> new_capsule)\<rparr>)
           | Some _ \<Rightarrow>
               if overflow
               then if overflowed_already then (Err CapsuleIDExhaustion, s')
                    else create_loop True new_capsule s'
               else create_loop overflowed_already new_capsule s'))"
  by auto

text \<open>The counter runs to the top of the id space at most twice.\<close>

termination
proof (relation "measure (\<lambda>(o', c, s).
    (if o' then 0 else 2 ^ 64) + (2 ^ 64 - 1 - unat (CAPSULE_ID_NEXT s)))")
qed (auto simp: overflowing_add_def unat_add_mod)

text \<open>When no id is left, the capsule that was to be inserted is dropped.\<close>

definition create ::
  "('s, 'c) Platform \<Rightarrow> usize \<Rightarrow> bool \<Rightarrow> ('s, 'c) hv \<Rightarrow> usize result \<times> ('s, 'c) hv" where
  "create pf me auto_restart s =
     (case Capsule_new auto_restart of
        Err e \<Rightarrow> (Err e, s)
      | Ok new_capsule \<Rightarrow>
          (case create_loop False new_capsule s of
             (Ok new_id, s') \<Rightarrow> (Ok new_id, s')
           | (Err e, s') \<Rightarrow> (Err e, Capsule_drop pf me new_capsule s')))"

text \<open>\<open>VirtualCore::create\<close> puts the new core on the global queue (\<open>scheduler::queue\<close>).\<close>

definition scheduler_queue :: "'s VirtualCore \<Rightarrow> ('s, 'c) hv \<Rightarrow> ('s, 'c) hv" where
  "scheduler_queue to_queue s = s\<lparr>GLOBAL_QUEUES := ScheduleQueues_queue (GLOBAL_QUEUES s) to_queue\<rparr>"

definition VirtualCore_create ::
  "('s, 'c) Platform \<Rightarrow> usize \<Rightarrow> usize \<Rightarrow> usize \<Rightarrow> Priority \<Rightarrow> ('s, 'c) hv \<Rightarrow> unit result \<times> ('s, 'c) hv" where
  "VirtualCore_create pf cid core_id entry prio s =
     (let new_vcore = \<lparr>vc_id = \<lparr>capsuleid = cid, vcoreid = core_id\<rparr>, vc_priority = prio,
            vc_state = supervisor_state_from pf entry\<rparr>
      in (Ok (), scheduler_queue new_vcore s))"

definition create_and_add_vcore ::
  "('s, 'c) Platform \<Rightarrow> usize \<Rightarrow> usize \<Rightarrow> usize \<Rightarrow> Priority \<Rightarrow> ('s, 'c) hv \<Rightarrow> unit result \<times> ('s, 'c) hv" where
  "create_and_add_vcore pf cid vid entry prio s =
     (case VirtualCore_create pf cid vid entry prio s of
        (Err e, s') \<Rightarrow> (Err e, s')
      | (Ok _, s') \<Rightarrow>
          (case CAPSULES s' cid of
             Some c \<Rightarrow> (Ok (), s'\<lparr>CAPSULES := (CAPSULES s')(cid \<mapsto> add_vcore c vid)\<rparr>)
           | None \<Rightarrow> (Err CapsuleBadID, s')))"

section \<open>Services, memory, enforcement\<close>

definition allow_service :: "usize \<Rightarrow> usize \<Rightarrow> ('s, 'c) hv \<Rightarrow> unit result \<times> ('s, 'c) hv" where
  "allow_service cid sid s =
     (case CAPSULES s cid of
        Some c \<Rightarrow> (Ok (), s\<lparr>CAPSULES := (CAPSULES s)
          (cid \<mapsto> c\<lparr>allowed_services := insert sid (allowed_services c)\<rparr>)\<rparr>)
      | None \<Rightarrow> (Err CapsuleBadID, s))"

definition is_service_allowed :: "usize \<Rightarrow> usize \<Rightarrow> ('s, 'c) hv \<Rightarrow> bool option" where
  "is_service_allowed cid sid s =
     (case CAPSULES s cid of
        Some c \<Rightarrow> Some (check_service c sid)
      | None \<Rightarrow> None)"

definition map_memory :: "usize \<Rightarrow> Mapping \<Rightarrow> ('s, 'c) hv \<Rightarrow> unit result \<times> ('s, 'c) hv" where
  "map_memory cid to_map s =
     (case CAPSULES s cid of
        Some c \<Rightarrow> (Ok (), s\<lparr>CAPSULES := (CAPSULES s)(cid \<mapsto> set_memory_mapping c to_map)\<rparr>)
      | None \<Rightarrow> (Err CapsuleBadID, s))"

definition grant_access :: "('s, 'c) Platform \<Rightarrow> usize \<Rightarrow> Region \<Rightarrow> ('s, 'c) hv \<Rightarrow> ('s, 'c) hv" where
  "grant_access pf me r s =
     (case Region_grant_access r of
        (base, end_addr) \<Rightarrow>
          call_platform me (Protect base end_addr)
            (hvdebug pf me ''Granting {:?} access to 0x{:x}, {} bytes''
               [''ReadWriteExecute'', hex (rgn_base r), dec (rgn_size r)] s))"

fun enforce_loop ::
  "('s, 'c) Platform \<Rightarrow> usize \<Rightarrow> Mapping list \<Rightarrow> nat \<Rightarrow> ('s, 'c) hv \<Rightarrow> ('s, 'c) hv outcome" where
  "enforce_loop pf me [] index s = Done s"
| "enforce_loop pf me (mp # mps) index s =
     (case get_physical mp of
        Some r \<Rightarrow> if index > 0 then Panicked else enforce_loop pf me mps (index + 1) (grant_access pf me r s)
      | None \<Rightarrow> enforce_loop pf me mps index s)"

definition enforce :: "('s, 'c) Platform \<Rightarrow> usize \<Rightarrow> usize \<Rightarrow> ('s, 'c) hv \<Rightarrow> (bool \<times> ('s, 'c) hv) outcome" where
  "enforce pf me cid s =
     (case CAPSULES s cid of
        Some c \<Rightarrow> bind_outcome (enforce_loop pf me (get_memory_mappings c) 0 s) (\<lambda>s'. Done (True, s'))
      | None \<Rightarrow> Done (False, s))"

end
