(* ===== verification/Hv_CapsuleSafety.thy ===== *)
theory Hv_CapsuleSafety
  imports Hv_Capsule
begin

text \<open>
  What the operations on capsules guarantee: fresh ids, RAM that belongs to one capsule or to the
  free pool and never to two owners, and teardown that returns everything.
\<close>

declare create_loop.simps [simp del]

section \<open>Capsule ids\<close>

lemma create_loop_Ok:
  "create_loop o' c s = (Ok cid, t) \<Longrightarrow>
     CAPSULES s cid = None \<and> t = s\<lparr>CAPSULE_ID_NEXT := cid, CAPSULES := (CAPSULES s)(cid \<mapsto> c)\<rparr>"
proof (induction o' c s rule: create_loop.induct)
  case (1 o' c s)
  obtain i v where iv: "overflowing_add (CAPSULE_ID_NEXT s) 1 = (i, v)" by fastforce
  show ?case
  proof (cases "CAPSULES s i")
    case None
    with 1(3) iv show ?thesis by (auto simp: create_loop.simps[of _ c s] Let_def fun_upd_def)
  next
    case (Some d)
    show ?thesis
    proof (cases v)
      case True
      with 1(3) iv Some have "\<not> o'" "create_loop True c (s\<lparr>CAPSULE_ID_NEXT := i\<rparr>) = (Ok cid, t)"
        by (auto simp: create_loop.simps[of _ c s] Let_def split: if_splits)
      then show ?thesis using 1(1)[OF iv[symmetric] refl Some True] by auto
    next
      case False
      with 1(3) iv Some have "create_loop o' c (s\<lparr>CAPSULE_ID_NEXT := i\<rparr>) = (Ok cid, t)"
        by (auto simp: create_loop.simps[of _ c s] Let_def)
      then show ?thesis using 1(2)[OF iv[symmetric] refl Some False] by auto
    qed
  qed
qed

text \<open>An id is visited before the search gives up if it is above the counter, or if the counter has
  not yet wrapped around.\<close>

lemma create_loop_Err:
  "create_loop o' c s = (Err e, t) \<Longrightarrow>
     e = CapsuleIDExhaustion \<and> t = s\<lparr>CAPSULE_ID_NEXT := 0\<rparr> \<and>
     (\<forall>i. \<not> o' \<or> i = 0 \<or> unat (CAPSULE_ID_NEXT s) < unat i \<longrightarrow> CAPSULES s i \<noteq> None)"
proof (induction o' c s rule: create_loop.induct)
  case (1 o' c s)
  obtain i v where iv: "overflowing_add (CAPSULE_ID_NEXT s) 1 = (i, v)" by fastforce
  then have i: "i = CAPSULE_ID_NEXT s + 1" and v: "v \<longleftrightarrow> 2 ^ 64 \<le> unat (CAPSULE_ID_NEXT s) + 1"
    by (simp_all add: overflowing_add_def)
  from 1(3) iv obtain d where d: "CAPSULES s i = Some d"
    by (cases "CAPSULES s i") (auto simp: create_loop.simps[of _ c s] Let_def)
  show ?case
  proof (cases v)
    case True
    then have top: "unat (CAPSULE_ID_NEXT s) = 2 ^ 64 - 1"
      using v usize_bound[of "CAPSULE_ID_NEXT s"] by linarith
    then have "i = 0" by (simp add: i unat_eq_iff unat_add_mod)
    show ?thesis
    proof (cases o')
      case True
      have "\<not> unat (CAPSULE_ID_NEXT s) < unat k" for k :: usize
        using usize_bound[of k] top by linarith
      with 1(3) iv d True \<open>v\<close> \<open>i = 0\<close> show ?thesis by (auto simp: create_loop.simps[of _ c s] Let_def)
    next
      case False
      with 1(3) iv d \<open>v\<close> have "create_loop True c (s\<lparr>CAPSULE_ID_NEXT := i\<rparr>) = (Err e, t)"
        by (auto simp: create_loop.simps[of _ c s] Let_def)
      then show ?thesis using 1(1)[OF iv[symmetric] refl d \<open>v\<close> False] \<open>i = 0\<close>
        by (auto simp: unat_gt_0)
    qed
  next
    case False
    with 1(3) iv d have "create_loop o' c (s\<lparr>CAPSULE_ID_NEXT := i\<rparr>) = (Err e, t)"
      by (auto simp: create_loop.simps[of _ c s] Let_def)
    from 1(2)[OF iv[symmetric] refl d False this]
    have IH: "e = CapsuleIDExhaustion" "t = s\<lparr>CAPSULE_ID_NEXT := 0\<rparr>"
      "\<And>k. \<not> o' \<or> k = 0 \<or> unat i < unat k \<Longrightarrow> CAPSULES s k \<noteq> None" by auto
    have "unat i = unat (CAPSULE_ID_NEXT s) + 1"
      using False v by (simp add: i unat_add_nowrap)
    then have "k = i \<or> unat i < unat k" if "unat (CAPSULE_ID_NEXT s) < unat k" for k
      using that by (auto simp: unat_eq_iff)
    then show ?thesis using IH d by blast
  qed
qed

lemma drop_blank:
  assumes "iteration_ok pf"
  shows "Capsule_drop pf me \<lparr>restart = ar, vcores = {}, memory = [], allowed_services = {}\<rparr> s
    = hvdebug pf me ''Tearing down capsule'' [] s"
proof -
  have "set (set_iter pf {}) = {}" using assms by (simp add: iteration_ok_def)
  then show ?thesis by (simp add: Capsule_drop_def)
qed

lemma create_cases:
  assumes "iteration_ok pf"
  obtains (created) cid c where "create pf me ar s =
      (Ok cid, s\<lparr>CAPSULE_ID_NEXT := cid, CAPSULES := (CAPSULES s)(cid \<mapsto> c)\<rparr>)"
      "CAPSULES s cid = None" "c = \<lparr>restart = ar, vcores = {}, memory = [], allowed_services = {}\<rparr>"
  | (exhausted) "create pf me ar s =
      (Err CapsuleIDExhaustion, hvdebug pf me ''Tearing down capsule'' [] (s\<lparr>CAPSULE_ID_NEXT := 0\<rparr>))"
      "\<forall>i. CAPSULES s i \<noteq> None"
proof -
  let ?c = "\<lparr>restart = ar, vcores = {}, memory = [], allowed_services = {}\<rparr>"
  obtain r t where rt: "create_loop False ?c s = (r, t)" by fastforce
  show ?thesis
  proof (cases r)
    case (Ok cid)
    then show ?thesis using created[of cid ?c] create_loop_Ok[of False ?c s cid t] rt
      by (simp add: create_def Capsule_new_def)
  next
    case (Err e)
    then show ?thesis using exhausted create_loop_Err[of False ?c s e t] rt drop_blank[OF assms, of me ar]
      by (simp add: create_def Capsule_new_def)
  qed
qed

section \<open>Who owns the RAM\<close>

definition regions_of :: "Mapping list \<Rightarrow> Region list" where
  "regions_of mps = List.map_filter get_physical mps"

definition capsule_bytes :: "Capsule \<Rightarrow> nat set" where
  "capsule_bytes c = held_bytes (regions_of (memory c))"

text \<open>
  The free pool is well formed, every capsule holds areas outside the pool that do not overlap, and
  no byte belongs to two capsules.
\<close>

definition memory_inv :: "('s, 'c) hv \<Rightarrow> bool" where
  "memory_inv s \<longleftrightarrow>
     regions_inv (REGIONS s)
     \<and> (\<forall>cid c. CAPSULES s cid = Some c \<longrightarrow> holds (regions_of (memory c)) (free_bytes (REGIONS s)))
     \<and> (\<forall>i j c d x. CAPSULES s i = Some c \<and> CAPSULES s j = Some d
          \<and> x \<in> capsule_bytes c \<and> x \<in> capsule_bytes d \<longrightarrow> i = j)"

text \<open>A registered service, other than those of a set \<open>L\<close>, belongs to an existing capsule that is allowed to
  offer it.\<close>

definition services_but :: "usize set \<Rightarrow> ('s, 'c) hv \<Rightarrow> bool" where
  "services_but L s \<longleftrightarrow>
     (\<forall>sid sv. SERVICES s sid = Some sv \<and> sid \<notin> L \<longrightarrow>
        (\<exists>c. CAPSULES s (svc_capsuleid sv) = Some c \<and> sid \<in> allowed_services c))"

abbreviation services_inv :: "('s, 'c) hv \<Rightarrow> bool" where
  "services_inv \<equiv> services_but {}"

lemma memory_invD:
  assumes "memory_inv s"
  shows "regions_inv (REGIONS s)"
    and "CAPSULES s i = Some c \<Longrightarrow> holds (regions_of (memory c)) (free_bytes (REGIONS s))"
    and "CAPSULES s i = Some c \<Longrightarrow> CAPSULES s j = Some d \<Longrightarrow> x \<in> capsule_bytes c \<Longrightarrow> x \<in> capsule_bytes d \<Longrightarrow> i = j"
  using assms unfolding memory_inv_def by blast+

lemma memory_inv_cong:
  "REGIONS t = REGIONS s \<Longrightarrow> CAPSULES t = CAPSULES s \<Longrightarrow> memory_inv t \<longleftrightarrow> memory_inv s"
  by (simp add: memory_inv_def)

lemma regions_of_simps [simp]:
  "regions_of [] = []"
  "regions_of (mp # mps) = (case get_physical mp of None \<Rightarrow> regions_of mps | Some r \<Rightarrow> r # regions_of mps)"
  "regions_of (mps @ mps') = regions_of mps @ regions_of mps'"
  by (simp_all add: regions_of_def map_filter_simps List.map_filter_def split: option.splits)

text \<open>Replacing a capsule by one with the same memory keeps the invariant.\<close>

lemma memory_inv_update:
  assumes "memory_inv s" and "CAPSULES s cid = Some c" and "memory c' = memory c"
  shows "memory_inv (s\<lparr>CAPSULES := (CAPSULES s)(cid \<mapsto> c')\<rparr>)"
proof -
  have "capsule_bytes c' = capsule_bytes c" using assms(3) by (simp add: capsule_bytes_def)
  then show ?thesis
    using assms memory_invD[OF assms(1)] unfolding memory_inv_def
    by (simp split: if_splits) blast
qed

lemma memory_inv_new:
  assumes "memory_inv s" and "CAPSULES s cid = None" and "memory c = []"
  shows "memory_inv (s\<lparr>CAPSULE_ID_NEXT := n, CAPSULES := (CAPSULES s)(cid \<mapsto> c)\<rparr>)"
  using assms by (auto simp: memory_inv_def capsule_bytes_def holds_def)

section \<open>Teardown\<close>

lemma drop_memory_eq:
  "drop_memory mps s = s\<lparr>REGIONS := give_back dealloc_region (REGIONS s) (regions_of mps)\<rparr>"
  by (induction mps arbitrary: s) (simp_all split: option.splits)

lemma snd_deregister: "snd (deregister sid s) = s\<lparr>SERVICES := (SERVICES s)(sid := None)\<rparr>"
  by (auto simp: deregister_def fun_upd_idem split: option.splits)

lemma drop_services_eq: "drop_services sids s = s\<lparr>SERVICES := SERVICES s |` (- set sids)\<rparr>"
proof (induction sids arbitrary: s)
  case (Cons sid sids)
  have "(SERVICES s)(sid := None) |` (- set sids) = SERVICES s |` (- set (sid # sids))"
    by (auto simp: restrict_map_def)
  moreover have "drop_services (sid # sids) s = s\<lparr>SERVICES := (SERVICES s)(sid := None) |` (- set sids)\<rparr>"
    unfolding drop_services.simps snd_deregister Cons by (rule hv.equality) simp_all
  ultimately show ?case by simp
qed (simp add: restrict_map_def)

lemma destroy_essence:
  assumes "iteration_ok pf" and "CAPSULES s cid = Some c"
  shows "fst (destroy pf me cid s) = Ok ()"
    and "essence (snd (destroy pf me cid s)) =
      essence (s\<lparr>CAPSULES := (CAPSULES s)(cid := None),
        REGIONS := give_back dealloc_region (REGIONS s) (regions_of (memory c)),
        SERVICES := SERVICES s |` (- allowed_services c)\<rparr>)"
proof -
  show "fst (destroy pf me cid s) = Ok ()" using assms(2) by (simp add: destroy_def)
  have "set (set_iter pf (allowed_services c)) = allowed_services c"
    using assms(1) by (simp add: iteration_ok_def)
  then show "essence (snd (destroy pf me cid s)) =
      essence (s\<lparr>CAPSULES := (CAPSULES s)(cid := None),
        REGIONS := give_back dealloc_region (REGIONS s) (regions_of (memory c)),
        SERVICES := SERVICES s |` (- allowed_services c)\<rparr>)"
    using assms(2) by (simp add: destroy_def Capsule_drop_def drop_memory_eq drop_services_eq)
      (simp add: essence_def hvdebug_def hvprintln_def write_str_def)
qed

lemma destroy_memory_inv:
  assumes "memory_inv s" and "iteration_ok pf" and "CAPSULES s cid = Some c"
  shows "memory_inv (snd (destroy pf me cid s))"
    and "free_bytes (REGIONS (snd (destroy pf me cid s))) = free_bytes (REGIONS s) \<union> capsule_bytes c"
proof -
  let ?R = "give_back dealloc_region (REGIONS s) (regions_of (memory c))"
  have law: "regions_inv ?R" "free_bytes ?R = free_bytes (REGIONS s) \<union> capsule_bytes c"
    using regions_pool.give_back_all[of "REGIONS s" "regions_of (memory c)" "[]"]
      memory_invD(1,2)[OF assms(1)] assms(3) by (auto simp: capsule_bytes_def)
  note f = essence_fields[OF destroy_essence(2)[OF assms(2,3), of me]]
  show "free_bytes (REGIONS (snd (destroy pf me cid s))) = free_bytes (REGIONS s) \<union> capsule_bytes c"
    using law f(1) by simp
  have "holds (regions_of (memory d)) (free_bytes ?R)" if "CAPSULES s i = Some d" "i \<noteq> cid" for i d
    by (rule holds_mono[OF memory_invD(2)[OF assms(1) that(1)]])
      (use memory_invD(3)[OF assms(1) that(1) assms(3)] that(2) law(2) in \<open>auto simp: capsule_bytes_def\<close>)
  then show "memory_inv (snd (destroy pf me cid s))"
    using law(1) memory_invD(3)[OF assms(1)] f(1,3) unfolding memory_inv_def
    by (simp split: if_splits) blast
qed

lemma destroy_services_inv:
  assumes "services_but L s" and "iteration_ok pf"
  shows "services_but L (snd (destroy pf me cid s))"
proof (cases "CAPSULES s cid")
  case None
  then show ?thesis using assms(1) by (simp add: destroy_def)
next
  case (Some c)
  note f = essence_fields[OF destroy_essence(2)[OF assms(2) Some, of me]]
  show ?thesis
    using assms(1) Some f(3,4) by (fastforce simp: services_but_def restrict_map_def split: if_splits)
qed

section \<open>Giving RAM to a capsule\<close>

lemma alloc_map_memory:
  assumes "memory_inv s" and "CAPSULES s cid = Some c"
    and "alloc_region (REGIONS s) n = (Ok r, R)" and "get_physical mp = Some r"
  shows "memory_inv (snd (map_memory cid mp (s\<lparr>REGIONS := R\<rparr>)))"
proof -
  note inv = memory_invD[OF assms(1)]
  have law: "regions_inv R" "region_bytes r \<subseteq> free_bytes (REGIONS s)"
      "free_bytes R = free_bytes (REGIONS s) - region_bytes r"
    using regions_pool.alloc_Ok[OF inv(1) assms(3)] by auto
  have grown: "holds (regions_of (memory (set_memory_mapping c mp))) (free_bytes R)"
    using regions_pool.alloc_holds(1)[OF inv(1) inv(2)[OF assms(2)] assms(3)] assms(4)
    by (auto simp: set_memory_mapping_def holds_def sorted_wrt_append apart_def)
  have others: "holds (regions_of (memory d)) (free_bytes R)" if "CAPSULES s i = Some d" for i d
    by (rule holds_mono[OF inv(2)[OF that]]) (use law(3) in auto)
  have bytes: "capsule_bytes (set_memory_mapping c mp) = capsule_bytes c \<union> region_bytes r"
    using assms(4) by (auto simp: capsule_bytes_def set_memory_mapping_def)
  have "x \<notin> region_bytes r" if "CAPSULES s i = Some d" "x \<in> capsule_bytes d" for i d x
    using inv(2)[OF that(1)] that(2) law(2) by (fastforce simp: capsule_bytes_def held_bytes_def holds_def)
  then show ?thesis
    using law(1) grown others inv(3) assms(2) bytes unfolding memory_inv_def map_memory_def
    by (simp split: if_splits) blast
qed

section \<open>Properties\<close>

text \<open>C18: creating a capsule always returns. It succeeds exactly when some id is not in use; the capsule
  then gets an id that no other capsule has, starts without cores, memory or services, and no other
  capsule changes. Otherwise it fails with \<open>CapsuleIDExhaustion\<close>, and dropping the unused capsule only logs.\<close>

theorem create_correct:
  assumes "iteration_ok pf"
  shows "(\<exists>cid t. create pf me ar s = (Ok cid, t) \<and> CAPSULES s cid = None
      \<and> t = s\<lparr>CAPSULE_ID_NEXT := cid,
          CAPSULES := (CAPSULES s)(cid \<mapsto> \<lparr>restart = ar, vcores = {}, memory = [], allowed_services = {}\<rparr>)\<rparr>)
   \<or> ((\<forall>i. CAPSULES s i \<noteq> None) \<and> create pf me ar s =
        (Err CapsuleIDExhaustion, hvdebug pf me ''Tearing down capsule'' [] (s\<lparr>CAPSULE_ID_NEXT := 0\<rparr>)))"
  by (cases rule: create_cases[OF assms, of me ar s]) auto

text \<open>C6: destroying a capsule removes it from the table, returns exactly its RAM to the free pool, removes
  every service it was allowed to offer and no other, and leaves all other capsules as they are; RAM
  ownership and service ownership stay consistent. Destroying an unknown capsule is refused.\<close>

theorem destroy_correct:
  assumes "memory_inv s" and "services_inv s" and "iteration_ok pf" and "destroy pf me cid s = (r, t)"
  shows "(case CAPSULES s cid of
      None \<Rightarrow> r = Err CapsuleBadID \<and> t = s
    | Some c \<Rightarrow> r = Ok () \<and> CAPSULES t = (CAPSULES s)(cid := None)
        \<and> free_bytes (REGIONS t) = free_bytes (REGIONS s) \<union> capsule_bytes c
        \<and> (\<forall>sid. SERVICES t sid = (if sid \<in> allowed_services c then None else SERVICES s sid))
        \<and> (\<forall>sid sv. SERVICES t sid = Some sv \<longrightarrow> svc_capsuleid sv \<noteq> cid))
    \<and> memory_inv t \<and> services_inv t"
proof (cases "CAPSULES s cid")
  case None
  then show ?thesis using assms by (simp add: destroy_def)
next
  case (Some c)
  have rt: "r = fst (destroy pf me cid s)" "t = snd (destroy pf me cid s)" using assms(4) by simp_all
  note f = essence_fields[OF destroy_essence(2)[OF assms(3) Some, of me], folded rt]
  have inv: "memory_inv t" "services_inv t"
    "free_bytes (REGIONS t) = free_bytes (REGIONS s) \<union> capsule_bytes c"
    using destroy_memory_inv[OF assms(1,3) Some] destroy_services_inv[OF assms(2,3)] by (simp_all add: rt)
  have "svc_capsuleid sv \<noteq> cid" if "SERVICES t sid = Some sv" for sid sv
  proof -
    from inv(2) that obtain d where "CAPSULES t (svc_capsuleid sv) = Some d"
      unfolding services_but_def by blast
    then show ?thesis using f(3) by auto
  qed
  then show ?thesis
    using Some inv f(3,4) destroy_essence(1)[OF assms(3) Some, of me]
    by (simp add: rt restrict_map_def)
qed

text \<open>Teardown goes by the services a capsule was allowed to offer, not by those it registered: a
  service another capsule registered is removed as well, although its owner is still there.\<close>

theorem destroy_removes_foreign_service:
  assumes "iteration_ok pf" and "CAPSULES s cid = Some c" and "sid \<in> allowed_services c"
    and "SERVICES s sid = Some sv" and "svc_capsuleid sv = owner" and "owner \<noteq> cid"
  shows "SERVICES (snd (destroy pf me cid s)) sid = None
    \<and> CAPSULES (snd (destroy pf me cid s)) owner = CAPSULES s owner"
  using essence_fields(3,4)[OF destroy_essence(2)[OF assms(1,2), of me]] assms(3-)
  by (simp add: restrict_map_def)

text \<open>Adding a virtual core always puts exactly one new core, which starts at the entry point, on the
  global queue; it succeeds and records the core's id exactly when the capsule exists. For a capsule
  that does not exist it reports \<open>CapsuleBadID\<close> and the new core waits to be run all the same.\<close>

theorem create_and_add_vcore_queues_always:
  assumes "create_and_add_vcore pf cid vid entry prio s = (r, t)"
  shows "queued (GLOBAL_QUEUES t) = add_mset \<lparr>vc_id = \<lparr>capsuleid = cid, vcoreid = vid\<rparr>, vc_priority = prio,
      vc_state = supervisor_state_from pf entry\<rparr> (queued (GLOBAL_QUEUES s))
    \<and> (r = Ok () \<longleftrightarrow> CAPSULES s cid \<noteq> None) \<and> (r \<noteq> Ok () \<longrightarrow> r = Err CapsuleBadID \<and> CAPSULES t = CAPSULES s)
    \<and> (\<forall>c. CAPSULES s cid = Some c \<longrightarrow> CAPSULES t = (CAPSULES s)(cid \<mapsto> c\<lparr>vcores := insert vid (vcores c)\<rparr>))"
  using assms sched_queue.enq_bag[of "GLOBAL_QUEUES s" "\<lparr>vc_id = \<lparr>capsuleid = cid, vcoreid = vid\<rparr>,
      vc_priority = prio, vc_state = supervisor_state_from pf entry\<rparr>"]
  by (auto simp: create_and_add_vcore_def VirtualCore_create_def scheduler_queue_def add_vcore_def
      split: option.splits)

section \<open>An example state\<close>

definition example_capsule :: Capsule where
  "example_capsule = \<lparr>restart = True, vcores = {0},
     memory = [\<lparr>virtual_base = Some 0x80000000, physical_region = Some example_region\<rparr>], allowed_services = {7}\<rparr>"

definition other_capsule :: Capsule where
  "other_capsule = \<lparr>restart = False, vcores = {}, memory = [], allowed_services = {7}\<rparr>"

definition example_hv :: "(usize, usize) hv" where
  "example_hv = blank_hv\<lparr>REGIONS := example_pool_after, CAPSULE_ID_NEXT := 2,
     CAPSULES := [1 \<mapsto> example_capsule, 2 \<mapsto> other_capsule],
     SERVICES := [7 \<mapsto> \<lparr>svc_capsuleid = 2, msgs = []\<rparr>]\<rparr>"

lemma example_hv_fields [simp]:
  "REGIONS example_hv = example_pool_after" "CAPSULES example_hv = [1 \<mapsto> example_capsule, 2 \<mapsto> other_capsule]"
  "SERVICES example_hv = [7 \<mapsto> \<lparr>svc_capsuleid = 2, msgs = []\<rparr>]"
  by (simp_all add: example_hv_def)

lemma example_hv_memory: "memory_inv example_hv"
proof -
  have "holds [example_region] (free_bytes example_pool_after)"
    using regions_pool.alloc_holds(1)[OF example_pool_inv(1) _ example_pool_alloc, of "[]"]
    by (simp add: holds_def)
  moreover have "holds [] F" for F by (simp add: holds_def)
  ultimately show ?thesis
    by (auto simp: memory_inv_def example_pool_inv(2) example_capsule_def other_capsule_def get_physical_def
        capsule_bytes_def split: if_splits)
qed

lemma example_hv_services: "services_inv example_hv"
  by (auto simp: services_but_def other_capsule_def split: if_splits)

theorem create_correct_witness:
  "\<exists>cid t. create example_platform 0 True blank_hv = (Ok cid, t) \<and> CAPSULES t cid \<noteq> None"
  using create_correct[OF example_platform_iteration, of 0 True blank_hv]
  by (auto simp: blank_hv_def hv_start_def)

theorem destroy_correct_witness:
  "CAPSULES (snd (destroy example_platform 0 1 example_hv)) 1 = None
   \<and> free_bytes (REGIONS (snd (destroy example_platform 0 1 example_hv)))
     = free_bytes example_pool_after \<union> region_bytes example_region"
  using destroy_correct[OF example_hv_memory example_hv_services example_platform_iteration
      surjective_pairing, of 0 1]
  by (simp add: example_capsule_def capsule_bytes_def get_physical_def)

theorem destroy_removes_foreign_service_witness:
  "SERVICES (snd (destroy example_platform 0 1 example_hv)) 7 = None
   \<and> CAPSULES (snd (destroy example_platform 0 1 example_hv)) 2 = Some other_capsule"
  using destroy_removes_foreign_service[OF example_platform_iteration, of example_hv 1 example_capsule 7]
  by (simp add: example_capsule_def)

theorem create_and_add_vcore_queues_always_witness:
  "fst (create_and_add_vcore example_platform 9 0 0x80000004 High example_hv) = Err CapsuleBadID
   \<and> size (queued (GLOBAL_QUEUES (snd (create_and_add_vcore example_platform 9 0 0x80000004 High example_hv)))) = 1"
  using create_and_add_vcore_queues_always[OF surjective_pairing, of example_platform 9 0 "0x80000004" High example_hv]
  by (auto simp: example_hv_def blank_hv_def hv_start_def queued_def ScheduleQueues_new_def)

end
