(* ===== verification/Hv_Service.thy ===== *)
theory Hv_Service
  imports Hv_CapsuleSafety
begin

text \<open>
  Registration of services, \<open>register\<close> of \<^verbatim>\<open>src/hypervisor/service.rs\<close>, and the life of a service as its
  clients see it: who owns it, and what happens to the messages sent to it.
\<close>

definition register :: "usize \<Rightarrow> usize \<Rightarrow> ('s, 'c) hv \<Rightarrow> unit result \<times> ('s, 'c) hv" where
  "register sid cid s =
     (case is_service_allowed cid sid s of
        None \<Rightarrow> (Err CapsuleBadID, s)
      | Some flag \<Rightarrow>
          if flag = False then (Err ServiceNotAllowed, s)
          else (case SERVICES s sid of
                  None \<Rightarrow> (Ok (), s\<lparr>SERVICES := (SERVICES s)(sid \<mapsto> \<lparr>svc_capsuleid = cid, msgs = []\<rparr>)\<rparr>)
                | Some _ \<Rightarrow> (Err ServiceAlreadyRegistered, s)))"

lemma register_cases:
  obtains (ok) c where "CAPSULES s cid = Some c" "sid \<in> allowed_services c" "SERVICES s sid = None"
      "register sid cid s = (Ok (), s\<lparr>SERVICES := (SERVICES s)(sid \<mapsto> \<lparr>svc_capsuleid = cid, msgs = []\<rparr>)\<rparr>)"
  | (err) e where "register sid cid s = (Err e, s)"
proof (cases "CAPSULES s cid")
  case None
  then show ?thesis using err by (simp add: register_def is_service_allowed_def)
next
  case (Some c)
  then show ?thesis
    using ok err by (cases "sid \<in> allowed_services c"; cases "SERVICES s sid")
      (auto simp: register_def is_service_allowed_def check_service_def)
qed

lemma register_services_inv: "services_but L s \<Longrightarrow> services_but L (snd (register sid cid s))"
  by (cases rule: register_cases[of s cid sid]) (auto simp: services_but_def)

text \<open>
  The interface a capsule uses: a table of owners, an operation that claims an entry, one that
  releases it, and deliveries that leave the owners alone.
\<close>

locale ownership_table =
  fixes claim :: "'k \<Rightarrow> 'o \<Rightarrow> 't \<Rightarrow> bool \<times> 't"
    and release :: "'k \<Rightarrow> 't \<Rightarrow> 't"
    and owner_of :: "'t \<Rightarrow> 'k \<rightharpoonup> 'o"
    and may :: "'t \<Rightarrow> 'o \<Rightarrow> 'k \<Rightarrow> bool"
  assumes claim_free: "owner_of t k = None \<Longrightarrow> may t p k \<Longrightarrow>
      fst (claim k p t) \<and> owner_of (snd (claim k p t)) = (owner_of t)(k \<mapsto> p)"
    and claim_refused: "owner_of t k \<noteq> None \<or> \<not> may t p k \<Longrightarrow> claim k p t = (False, t)"
    and release_owner: "owner_of (release k t) = (owner_of t)(k := None)"
    and release_may: "may (release k t) = may t"
begin

lemma claim_keeps: "owner_of t k = Some p \<Longrightarrow> owner_of (snd (claim j q t)) k = Some p"
proof (cases "owner_of t j = None \<and> may t q j")
  case True
  moreover assume "owner_of t k = Some p"
  ultimately show ?thesis using claim_free[of t j q] by (cases "j = k") auto
qed (use claim_refused[of t j q] in auto)

lemma claim_iff: "fst (claim k p t) \<longleftrightarrow> owner_of t k = None \<and> may t p k"
  using claim_free[of t k p] claim_refused[of t k p]
  by (cases "owner_of t k = None \<and> may t p k") auto

lemma hand_over: "may t q k \<Longrightarrow> owner_of (snd (claim k q (release k t))) k = Some q"
  using claim_free[of "release k t" k q] by (simp add: release_owner release_may)

end

definition service_owner :: "('s, 'c) hv \<Rightarrow> usize \<rightharpoonup> usize" where
  "service_owner s sid = map_option svc_capsuleid (SERVICES s sid)"

definition may_offer :: "('s, 'c) hv \<Rightarrow> usize \<Rightarrow> usize \<Rightarrow> bool" where
  "may_offer s cid sid \<longleftrightarrow> is_service_allowed cid sid s = Some True"

definition registers :: "usize \<Rightarrow> usize \<Rightarrow> ('s, 'c) hv \<Rightarrow> bool \<times> ('s, 'c) hv" where
  "registers sid cid s = (is_ok (fst (register sid cid s)), snd (register sid cid s))"

interpretation service_table: ownership_table registers "\<lambda>sid s. snd (deregister sid s)" service_owner may_offer
proof unfold_locales
  fix t :: "('s, 'c) hv" and k p
  show "fst (registers k p t) \<and> service_owner (snd (registers k p t)) = (service_owner t)(k \<mapsto> p)"
    if "service_owner t k = None" "may_offer t p k"
    using that by (auto simp: registers_def register_def service_owner_def may_offer_def fun_eq_iff)
  show "registers k p t = (False, t)" if "service_owner t k \<noteq> None \<or> \<not> may_offer t p k"
    using that by (auto simp: registers_def register_def service_owner_def may_offer_def
        split: option.splits)
  show "service_owner (snd (deregister k t)) = (service_owner t)(k := None)"
    by (auto simp: service_owner_def fun_eq_iff)
  show "may_offer (snd (deregister k t)) = may_offer t"
    by (simp add: may_offer_def is_service_allowed_def fun_eq_iff)
qed

section \<open>Properties\<close>

text \<open>C20: a service is registered exactly when the capsule exists, has been allowed to offer it and nobody
  offers it yet; an owner keeps its service whatever others try to register, and a released service
  can be taken over. Each refusal names its reason: \<open>CapsuleBadID\<close>, \<open>ServiceNotAllowed\<close> or
  \<open>ServiceAlreadyRegistered\<close>, in this order.\<close>

theorem register_correct:
  "(fst (register sid cid s) = Ok () \<longleftrightarrow> service_owner s sid = None \<and> may_offer s cid sid)
   \<and> (service_owner s k = Some p \<longrightarrow> service_owner (snd (register sid cid s)) k = Some p)
   \<and> (may_offer s cid sid \<longrightarrow> service_owner (snd (register sid cid (snd (deregister sid s)))) sid = Some cid)
   \<and> (fst (register sid cid s) \<noteq> Ok () \<longrightarrow> snd (register sid cid s) = s \<and> fst (register sid cid s) =
       Err (if CAPSULES s cid = None then CapsuleBadID
            else if \<not> may_offer s cid sid then ServiceNotAllowed else ServiceAlreadyRegistered))"
proof (intro conjI)
  show "fst (register sid cid s) = Ok () \<longleftrightarrow> service_owner s sid = None \<and> may_offer s cid sid"
    using service_table.claim_iff[of sid cid s] by (simp add: registers_def is_ok_iff)
  show "service_owner s k = Some p \<longrightarrow> service_owner (snd (register sid cid s)) k = Some p"
    using service_table.claim_keeps[of s k p sid cid] by (simp add: registers_def)
  show "may_offer s cid sid \<longrightarrow> service_owner (snd (register sid cid (snd (deregister sid s)))) sid = Some cid"
    using service_table.hand_over[of s cid sid] by (simp add: registers_def)
  show "fst (register sid cid s) \<noteq> Ok () \<longrightarrow> snd (register sid cid s) = s \<and> fst (register sid cid s) =
       Err (if CAPSULES s cid = None then CapsuleBadID
            else if \<not> may_offer s cid sid then ServiceNotAllowed else ServiceAlreadyRegistered)"
    by (auto simp: register_def may_offer_def is_service_allowed_def split: option.splits if_splits)
qed

theorem register_correct_witness:
  "fst (register 7 1 example_hv) = Err ServiceAlreadyRegistered
   \<and> service_owner (snd (register 7 1 (snd (deregister 7 example_hv)))) 7 = Some 1"
proof -
  have "may_offer example_hv 1 7" "service_owner example_hv 7 = Some 2"
    by (simp_all add: may_offer_def is_service_allowed_def check_service_def example_capsule_def service_owner_def)
  then show ?thesis using register_correct[of 7 1 example_hv] by auto
qed

end
