(* ===== verification/Hv_PCore.thy ===== *)
theory Hv_PCore
  imports Hv_Service
begin

text \<open>
  Physical cores, \<^verbatim>\<open>src/hypervisor/pcore.rs\<close>: initialisation, the core's own wait queues, and the switch from
  one virtual core to the next.
\<close>

definition BOOT_PCORE_ID :: usize where
  "BOOT_PCORE_ID = 0"

definition with_pvars ::
  "usize \<Rightarrow> ('s PhysicalCore \<Rightarrow> 's PhysicalCore) \<Rightarrow> ('s, 'c) hv \<Rightarrow> ('s, 'c) hv" where
  "with_pvars me f = with_core me (\<lambda>k. k\<lparr>pvars := f (pvars k)\<rparr>)"

definition with_regs :: "usize \<Rightarrow> ('c \<Rightarrow> 'c) \<Rightarrow> ('s, 'c) hv \<Rightarrow> ('s, 'c) hv" where
  "with_regs me f = with_core me (\<lambda>k. k\<lparr>regs := f (regs k)\<rparr>)"

definition PhysicalCore_init :: "('s, 'c) Platform \<Rightarrow> usize \<Rightarrow> usize \<Rightarrow> ('s, 'c) hv \<Rightarrow> ('s, 'c) hv" where
  "PhysicalCore_init pf me cpu_id s =
     (case cpu_heap_area pf me of
        (heap_ptr, heap_size) \<Rightarrow>
          create_mailbox cpu_id
            (with_pvars me (\<lambda>cpu. cpu\<lparr>pc_id := cpu_id, pc_features := cpu_features pf me,
                 pc_smode := cpu_supervisor pf me,
                 pc_heap := heap_init (pc_heap cpu) heap_ptr heap_size,
                 pc_queues := ScheduleQueues_new\<rparr>) s))"

definition PhysicalCore_dequeue :: "usize \<Rightarrow> ('s, 'c) hv \<Rightarrow> 's VirtualCore option \<times> ('s, 'c) hv" where
  "PhysicalCore_dequeue me s =
     (case ScheduleQueues_dequeue (pc_queues (pvars (cores s me))) of
        (r, q) \<Rightarrow> (r, with_pvars me (\<lambda>cpu. cpu\<lparr>pc_queues := q\<rparr>) s))"

definition PhysicalCore_queue :: "usize \<Rightarrow> 's VirtualCore \<Rightarrow> ('s, 'c) hv \<Rightarrow> ('s, 'c) hv" where
  "PhysicalCore_queue me to_queue =
     with_pvars me (\<lambda>cpu. cpu\<lparr>pc_queues := ScheduleQueues_queue (pc_queues cpu) to_queue\<rparr>)"

definition PhysicalCore_get_capsule_id :: "('s, 'c) hv \<Rightarrow> usize \<Rightarrow> usize option" where
  "PhysicalCore_get_capsule_id s me =
     (case VCORES s (PhysicalCore_get_id s me) of
        Some vcore \<Rightarrow> Some (get_capsule_id vcore)
      | None \<Rightarrow> None)"

definition get_virtualcore_id :: "('s, 'c) hv \<Rightarrow> usize \<Rightarrow> usize option" where
  "get_virtualcore_id s me =
     (case VCORES s (PhysicalCore_get_id s me) of
        Some vcore \<Rightarrow> Some (get_id vcore)
      | None \<Rightarrow> None)"

text \<open>
  The first half of \<open>context_switch\<close>: whatever ran before has its registers saved and goes back to the
  core's queue, and the access permissions change when the capsule does.
\<close>

definition switch_out ::
  "('s, 'c) Platform \<Rightarrow> usize \<Rightarrow> 's VirtualCore \<Rightarrow> ('s, 'c) hv \<Rightarrow> ('s, 'c) hv outcome" where
  "switch_out pf me nxt s =
     (let next_capsule = get_capsule_id nxt;
          s1 = s\<lparr>VCORES := (VCORES s)(PhysicalCore_get_id s me := None)\<rparr>
      in case VCORES s (PhysicalCore_get_id s me) of
           Some current_vcore \<Rightarrow>
             (let s2 = hvdebug pf me ''Switching from vcore {} in capsule {} to vcore {} in capsule {}''
                    [dec (get_id current_vcore), dec (get_capsule_id current_vcore), dec (get_id nxt),
                     dec next_capsule] s1;
                  saved = current_vcore\<lparr>vc_state :=
                    save_supervisor_state pf (regs (cores s2 me)) (vc_state current_vcore)\<rparr>
              in bind_outcome
                   (if get_capsule_id current_vcore \<noteq> next_capsule then enforce pf me next_capsule s2
                    else Done (True, s2))
                   (\<lambda>(_, s3). Done (PhysicalCore_queue me saved s3)))
         | None \<Rightarrow>
             (let s2 = hvdebug pf me ''Running vcore {} in capsule {}'' [dec (get_id nxt), dec next_capsule] s1;
                  s3 = with_regs me (prep_supervisor_return pf) s2
              in bind_outcome (enforce pf me next_capsule s3) (\<lambda>(_, s4). Done s4)))"

definition switch_in :: "('s, 'c) Platform \<Rightarrow> usize \<Rightarrow> 's VirtualCore \<Rightarrow> ('s, 'c) hv \<Rightarrow> ('s, 'c) hv" where
  "switch_in pf me nxt s =
     (let s1 = with_regs me (load_supervisor_state pf (vc_state nxt)) s;
          s2 = s1\<lparr>PCORES := (PCORES s1)
            (\<lparr>capsuleid = get_capsule_id nxt, vcoreid = get_id nxt\<rparr> \<mapsto> PhysicalCore_get_id s me)\<rparr>
      in s2\<lparr>VCORES := (VCORES s2)(PhysicalCore_get_id s me \<mapsto> nxt)\<rparr>)"

definition context_switch ::
  "('s, 'c) Platform \<Rightarrow> usize \<Rightarrow> 's VirtualCore \<Rightarrow> ('s, 'c) hv \<Rightarrow> ('s, 'c) hv outcome" where
  "context_switch pf me nxt s = bind_outcome (switch_out pf me nxt s) (\<lambda>s'. Done (switch_in pf me nxt s'))"

section \<open>What each part leaves alone\<close>

lemma with_pvars_fields [simp]:
  "REGIONS (with_pvars me f s) = REGIONS s" "CAPSULE_ID_NEXT (with_pvars me f s) = CAPSULE_ID_NEXT s"
  "CAPSULES (with_pvars me f s) = CAPSULES s" "SERVICES (with_pvars me f s) = SERVICES s"
  "MAILBOXES (with_pvars me f s) = MAILBOXES s" "GLOBAL_QUEUES (with_pvars me f s) = GLOBAL_QUEUES s"
  "WORKLOAD (with_pvars me f s) = WORKLOAD s" "VCORES (with_pvars me f s) = VCORES s"
  "PCORES (with_pvars me f s) = PCORES s" "HARDWARE (with_pvars me f s) = HARDWARE s"
  "HW_LOCK (with_pvars me f s) = HW_LOCK s" "INIT_DONE (with_pvars me f s) = INIT_DONE s"
  "ram (with_pvars me f s) = ram s" "granted (with_pvars me f s) = granted s"
  "pvars (cores (with_pvars me f s) p) = (if p = me then f (pvars (cores s me)) else pvars (cores s p))"
  "regs (cores (with_pvars me f s) p) = regs (cores s p)"
  by (simp_all add: with_pvars_def granted_def fun_eq_iff)

lemma with_regs_fields [simp]:
  "REGIONS (with_regs me g s) = REGIONS s" "CAPSULE_ID_NEXT (with_regs me g s) = CAPSULE_ID_NEXT s"
  "CAPSULES (with_regs me g s) = CAPSULES s" "SERVICES (with_regs me g s) = SERVICES s"
  "MAILBOXES (with_regs me g s) = MAILBOXES s" "GLOBAL_QUEUES (with_regs me g s) = GLOBAL_QUEUES s"
  "WORKLOAD (with_regs me g s) = WORKLOAD s" "VCORES (with_regs me g s) = VCORES s"
  "PCORES (with_regs me g s) = PCORES s" "HARDWARE (with_regs me g s) = HARDWARE s"
  "HW_LOCK (with_regs me g s) = HW_LOCK s" "INIT_DONE (with_regs me g s) = INIT_DONE s"
  "ram (with_regs me g s) = ram s" "granted (with_regs me g s) = granted s"
  "pvars (cores (with_regs me g s) p) = pvars (cores s p)"
  "regs (cores (with_regs me g s) p) = (if p = me then g (regs (cores s me)) else regs (cores s p))"
  by (simp_all add: with_regs_def granted_def fun_eq_iff)

lemma get_id_cong: "pvars (cores t p) = pvars (cores s p) \<Longrightarrow> PhysicalCore_get_id t p = PhysicalCore_get_id s p"
  by (simp add: PhysicalCore_get_id_def)

text \<open>Enforcing a capsule opens its one area, or none, and panics on a second one.\<close>

definition area_of :: "Region \<Rightarrow> usize \<times> usize" where
  "area_of r = (rgn_base r, Region_end r)"

lemma enforce_loop_result:
  "enforce_loop pf me mps n s =
     (case regions_of mps of
        [] \<Rightarrow> Done s
      | [r] \<Rightarrow> if n = 0 then Done (grant_access pf me r s) else Panicked
      | _ \<Rightarrow> Panicked)"
proof (induction mps arbitrary: n s)
  case (Cons mp mps)
  show ?case
    by (cases "get_physical mp"; cases "regions_of mps"; cases n)
      (auto simp: Cons split: list.splits)
qed simp

lemma enforce_result:
  "enforce pf me cid s =
     (case CAPSULES s cid of
        None \<Rightarrow> Done (False, s)
      | Some c \<Rightarrow>
          (case regions_of (memory c) of
             [] \<Rightarrow> Done (True, s)
           | [r] \<Rightarrow> Done (True, grant_access pf me r s)
           | _ \<Rightarrow> Panicked))"
  by (simp add: enforce_def enforce_loop_result get_memory_mappings_def split: option.splits list.splits)

lemma grant_access_fields [simp]:
  "REGIONS (grant_access pf me r s) = REGIONS s" "CAPSULE_ID_NEXT (grant_access pf me r s) = CAPSULE_ID_NEXT s"
  "CAPSULES (grant_access pf me r s) = CAPSULES s" "SERVICES (grant_access pf me r s) = SERVICES s"
  "MAILBOXES (grant_access pf me r s) = MAILBOXES s" "GLOBAL_QUEUES (grant_access pf me r s) = GLOBAL_QUEUES s"
  "WORKLOAD (grant_access pf me r s) = WORKLOAD s" "VCORES (grant_access pf me r s) = VCORES s"
  "PCORES (grant_access pf me r s) = PCORES s" "HARDWARE (grant_access pf me r s) = HARDWARE s"
  "HW_LOCK (grant_access pf me r s) = HW_LOCK s"
  "INIT_DONE (grant_access pf me r s) = INIT_DONE s" "ram (grant_access pf me r s) = ram s"
  "pvars (cores (grant_access pf me r s) p) = pvars (cores s p)"
  "regs (cores (grant_access pf me r s) p) = regs (cores s p)"
  "granted (grant_access pf me r s) = (granted s)(me \<mapsto> area_of r)"
  by (simp_all add: grant_access_def Region_grant_access_def area_of_def Region_end_def)
    (simp add: granted_def fun_eq_iff)

section \<open>The switch as a whole\<close>

definition access_after :: "('s, 'c) hv \<Rightarrow> usize \<Rightarrow> usize \<Rightarrow> usize \<Rightarrow> (usize \<times> usize) option" where
  "access_after s me cid =
     (case CAPSULES s cid of
        None \<Rightarrow> granted s
      | Some c \<Rightarrow>
          (case regions_of (memory c) of
             [r] \<Rightarrow> (granted s)(me \<mapsto> area_of r)
           | _ \<Rightarrow> granted s))"

definition too_many_regions :: "('s, 'c) hv \<Rightarrow> usize \<Rightarrow> bool" where
  "too_many_regions s cid \<longleftrightarrow>
     (case CAPSULES s cid of None \<Rightarrow> False | Some c \<Rightarrow> length (regions_of (memory c)) > 1)"

lemma enforce_Done:
  assumes "enforce pf me cid s = Done (b, t)"
  shows "REGIONS t = REGIONS s" "CAPSULE_ID_NEXT t = CAPSULE_ID_NEXT s" "CAPSULES t = CAPSULES s"
    "SERVICES t = SERVICES s" "MAILBOXES t = MAILBOXES s" "GLOBAL_QUEUES t = GLOBAL_QUEUES s"
    "WORKLOAD t = WORKLOAD s" "VCORES t = VCORES s" "PCORES t = PCORES s" "HARDWARE t = HARDWARE s"
    "HW_LOCK t = HW_LOCK s" "INIT_DONE t = INIT_DONE s" "ram t = ram s"
    "pvars (cores t p) = pvars (cores s p)" "regs (cores t p) = regs (cores s p)"
    "granted t = access_after s me cid"
  using assms by (auto simp: enforce_result access_after_def split: option.splits list.splits)

lemma enforce_total: "(\<exists>b t. enforce pf me cid s = Done (b, t)) \<longleftrightarrow> \<not> too_many_regions s cid"
  by (auto simp: enforce_result too_many_regions_def split: option.splits list.splits)

text \<open>The virtual core a core runs, and the same one with its registers saved.\<close>

definition running :: "('s, 'c) hv \<Rightarrow> usize \<Rightarrow> 's VirtualCore option" where
  "running s me = VCORES s (PhysicalCore_get_id s me)"

definition parked :: "('s, 'c) Platform \<Rightarrow> ('s, 'c) hv \<Rightarrow> usize \<Rightarrow> 's VirtualCore \<Rightarrow> 's VirtualCore" where
  "parked pf s me v = v\<lparr>vc_state := save_supervisor_state pf (regs (cores s me)) (vc_state v)\<rparr>"

lemma granted_cong: "cores t = cores s \<Longrightarrow> granted t = granted s"
  by (simp add: granted_def fun_eq_iff)

lemma access_after_cong:
  "CAPSULES t = CAPSULES s \<Longrightarrow> granted t = granted s \<Longrightarrow> access_after t = access_after s"
  by (intro ext) (simp add: access_after_def split: option.splits list.splits)

text \<open>\<open>switch_frame s t\<close>: the tables that no step of a switch touches.\<close>

definition switch_frame :: "('s, 'c) hv \<Rightarrow> ('s, 'c) hv \<Rightarrow> bool" where
  "switch_frame s t \<longleftrightarrow>
     REGIONS t = REGIONS s \<and> CAPSULE_ID_NEXT t = CAPSULE_ID_NEXT s \<and> CAPSULES t = CAPSULES s
     \<and> SERVICES t = SERVICES s \<and> MAILBOXES t = MAILBOXES s \<and> GLOBAL_QUEUES t = GLOBAL_QUEUES s
     \<and> WORKLOAD t = WORKLOAD s \<and> HARDWARE t = HARDWARE s \<and> HW_LOCK t = HW_LOCK s
     \<and> INIT_DONE t = INIT_DONE s \<and> ram t = ram s"

definition same_capsule :: "('s, 'c) hv \<Rightarrow> usize \<Rightarrow> 's VirtualCore \<Rightarrow> bool" where
  "same_capsule s me nxt \<longleftrightarrow> map_option get_capsule_id (running s me) = Some (get_capsule_id nxt)"

lemma switch_out_Some:
  assumes "running s me = Some cur" and "switch_out pf me nxt s = Done t"
  shows "switch_frame s t" "VCORES t = (VCORES s)(PhysicalCore_get_id s me := None)" "PCORES t = PCORES s"
    "regs (cores t p) = regs (cores s p)"
    "pvars (cores t p) = (if p = me then (pvars (cores s me))
       \<lparr>pc_queues := ScheduleQueues_queue (pc_queues (pvars (cores s me))) (parked pf s me cur)\<rparr>
     else pvars (cores s p))"
    "granted t = (if same_capsule s me nxt then granted s else access_after s me (get_capsule_id nxt))"
proof -
  let ?s1 = "s\<lparr>VCORES := (VCORES s)(PhysicalCore_get_id s me := None)\<rparr>"
  define s2 where "s2 = hvdebug pf me ''Switching from vcore {} in capsule {} to vcore {} in capsule {}''
    [dec (get_id cur), dec (get_capsule_id cur), dec (get_id nxt), dec (get_capsule_id nxt)] ?s1"
  have g: "granted s2 = granted s" by (rule granted_cong) (simp add: s2_def)
  obtain b u where t: "t = PhysicalCore_queue me (parked pf s me cur) u"
    and e: "(if get_capsule_id cur \<noteq> get_capsule_id nxt then enforce pf me (get_capsule_id nxt) s2
       else Done (True, s2)) = Done (b, u)"
    using assms unfolding running_def switch_out_def Let_def s2_def parked_def
    by (auto simp: bind_outcome_Done)
  have u: "switch_frame s2 u" "VCORES u = VCORES s2" "PCORES u = PCORES s2"
    "\<And>p. pvars (cores u p) = pvars (cores s2 p)" "\<And>p. regs (cores u p) = regs (cores s2 p)"
    "granted u = (if same_capsule s me nxt then granted s else access_after s2 me (get_capsule_id nxt))"
    using e enforce_Done[of pf me "get_capsule_id nxt" s2 b u] assms(1) g
    by (auto simp: switch_frame_def same_capsule_def split: if_splits)
  have a: "access_after s2 = access_after s" by (rule access_after_cong[OF _ g]) (simp add: s2_def)
  show "switch_frame s t" "VCORES t = (VCORES s)(PhysicalCore_get_id s me := None)" "PCORES t = PCORES s"
    "regs (cores t p) = regs (cores s p)"
    "pvars (cores t p) = (if p = me then (pvars (cores s me))
       \<lparr>pc_queues := ScheduleQueues_queue (pc_queues (pvars (cores s me))) (parked pf s me cur)\<rparr>
     else pvars (cores s p))"
    "granted t = (if same_capsule s me nxt then granted s else access_after s me (get_capsule_id nxt))"
    using u a by (simp_all add: t PhysicalCore_queue_def s2_def switch_frame_def)
qed

lemma switch_out_None:
  assumes "running s me = None" and "switch_out pf me nxt s = Done t"
  shows "switch_frame s t" "VCORES t = (VCORES s)(PhysicalCore_get_id s me := None)" "PCORES t = PCORES s"
    "regs (cores t p) = (if p = me then prep_supervisor_return pf (regs (cores s me)) else regs (cores s p))"
    "pvars (cores t p) = pvars (cores s p)"
    "granted t = access_after s me (get_capsule_id nxt)"
proof -
  let ?s1 = "s\<lparr>VCORES := (VCORES s)(PhysicalCore_get_id s me := None)\<rparr>"
  define s2 where "s2 = with_regs me (prep_supervisor_return pf) (hvdebug pf me
    ''Running vcore {} in capsule {}'' [dec (get_id nxt), dec (get_capsule_id nxt)] ?s1)"
  have g: "granted s2 = granted s"
    unfolding s2_def with_regs_fields(14) by (rule granted_cong) simp
  obtain b where e: "enforce pf me (get_capsule_id nxt) s2 = Done (b, t)"
    using assms unfolding running_def switch_out_def Let_def s2_def by (auto simp: bind_outcome_Done)
  have a: "access_after s2 = access_after s" by (rule access_after_cong[OF _ g]) (simp add: s2_def)
  show "switch_frame s t" "VCORES t = (VCORES s)(PhysicalCore_get_id s me := None)" "PCORES t = PCORES s"
    "regs (cores t p) = (if p = me then prep_supervisor_return pf (regs (cores s me)) else regs (cores s p))"
    "pvars (cores t p) = pvars (cores s p)"
    "granted t = access_after s me (get_capsule_id nxt)"
    using enforce_Done[OF e] a by (simp_all add: s2_def switch_frame_def)
qed

text \<open>The private variables of the switching core: its queues take the parked core, if there was one.\<close>

definition queues_after :: "('s, 'c) Platform \<Rightarrow> ('s, 'c) hv \<Rightarrow> usize \<Rightarrow> 's ScheduleQueues" where
  "queues_after pf s me =
     (case running s me of
        None \<Rightarrow> pc_queues (pvars (cores s me))
      | Some cur \<Rightarrow> ScheduleQueues_queue (pc_queues (pvars (cores s me))) (parked pf s me cur))"

definition regs_before_load :: "('s, 'c) Platform \<Rightarrow> ('s, 'c) hv \<Rightarrow> usize \<Rightarrow> 'c" where
  "regs_before_load pf s me =
     (case running s me of
        None \<Rightarrow> prep_supervisor_return pf (regs (cores s me))
      | Some _ \<Rightarrow> regs (cores s me))"

lemma switch_out_fields:
  assumes "switch_out pf me nxt s = Done t"
  shows "switch_frame s t" "VCORES t = (VCORES s)(PhysicalCore_get_id s me := None)" "PCORES t = PCORES s"
    "pvars (cores t p) = (if p = me then (pvars (cores s me))\<lparr>pc_queues := queues_after pf s me\<rparr>
       else pvars (cores s p))"
    "regs (cores t p) = (if p = me then regs_before_load pf s me else regs (cores s p))"
    "granted t = (if same_capsule s me nxt then granted s else access_after s me (get_capsule_id nxt))"
proof -
  have "switch_frame s t \<and> VCORES t = (VCORES s)(PhysicalCore_get_id s me := None) \<and> PCORES t = PCORES s
    \<and> pvars (cores t p) = (if p = me then (pvars (cores s me))\<lparr>pc_queues := queues_after pf s me\<rparr>
         else pvars (cores s p))
    \<and> regs (cores t p) = (if p = me then regs_before_load pf s me else regs (cores s p))
    \<and> granted t = (if same_capsule s me nxt then granted s else access_after s me (get_capsule_id nxt))"
  proof (cases "running s me")
    case None
    then show ?thesis
      using switch_out_None[OF None assms]
      by (simp add: queues_after_def regs_before_load_def same_capsule_def)
  next
    case (Some cur)
    then show ?thesis
      using switch_out_Some[OF Some assms] by (simp add: queues_after_def regs_before_load_def)
  qed
  then show "switch_frame s t" "VCORES t = (VCORES s)(PhysicalCore_get_id s me := None)" "PCORES t = PCORES s"
    "pvars (cores t p) = (if p = me then (pvars (cores s me))\<lparr>pc_queues := queues_after pf s me\<rparr>
       else pvars (cores s p))"
    "regs (cores t p) = (if p = me then regs_before_load pf s me else regs (cores s p))"
    "granted t = (if same_capsule s me nxt then granted s else access_after s me (get_capsule_id nxt))"
    by simp_all
qed

lemma context_switch_Done:
  assumes "context_switch pf me nxt s = Done t"
  shows "switch_frame s t" "VCORES t = (VCORES s)(PhysicalCore_get_id s me \<mapsto> nxt)"
    "PCORES t = (PCORES s)(vc_id nxt \<mapsto> PhysicalCore_get_id s me)"
    "pvars (cores t p) = (if p = me then (pvars (cores s me))\<lparr>pc_queues := queues_after pf s me\<rparr>
       else pvars (cores s p))"
    "regs (cores t p) = (if p = me then load_supervisor_state pf (vc_state nxt) (regs_before_load pf s me)
       else regs (cores s p))"
    "granted t = (if same_capsule s me nxt then granted s else access_after s me (get_capsule_id nxt))"
proof -
  obtain u where u: "switch_out pf me nxt s = Done u" and t: "t = switch_in pf me nxt u"
    using assms by (auto simp: context_switch_def bind_outcome_Done)
  note f = switch_out_fields[OF u]
  have i: "PhysicalCore_get_id u me = PhysicalCore_get_id s me" using f(4)[of me] by (simp add: PhysicalCore_get_id_def)
  have k: "\<lparr>capsuleid = get_capsule_id nxt, vcoreid = get_id nxt\<rparr> = vc_id nxt"
    by (simp add: get_capsule_id_def get_id_def)
  have g: "granted t = granted u" by (simp add: t switch_in_def granted_def fun_eq_iff with_regs_def)
  show "switch_frame s t" "VCORES t = (VCORES s)(PhysicalCore_get_id s me \<mapsto> nxt)"
    "PCORES t = (PCORES s)(vc_id nxt \<mapsto> PhysicalCore_get_id s me)"
    "pvars (cores t p) = (if p = me then (pvars (cores s me))\<lparr>pc_queues := queues_after pf s me\<rparr>
       else pvars (cores s p))"
    "regs (cores t p) = (if p = me then load_supervisor_state pf (vc_state nxt) (regs_before_load pf s me)
       else regs (cores s p))"
    using f k i by (simp_all add: t switch_in_def Let_def switch_frame_def)
  show "granted t = (if same_capsule s me nxt then granted s else access_after s me (get_capsule_id nxt))"
    using f(6) g by simp
qed

lemma bind_enforce:
  "(\<exists>t. bind_outcome (enforce pf me cid u) (\<lambda>(b, t). Done (f t)) = Done t) \<longleftrightarrow> \<not> too_many_regions u cid"
  using enforce_total[of pf me cid u] by (auto simp: bind_outcome_Done)

lemma context_switch_total:
  "(\<exists>t. context_switch pf me nxt s = Done t) \<longleftrightarrow>
     same_capsule s me nxt \<or> \<not> too_many_regions s (get_capsule_id nxt)"
proof -
  have "(\<exists>t. context_switch pf me nxt s = Done t) \<longleftrightarrow> (\<exists>t. switch_out pf me nxt s = Done t)"
    by (auto simp: context_switch_def bind_outcome_Done)
  also have "\<dots> \<longleftrightarrow> same_capsule s me nxt \<or> \<not> too_many_regions s (get_capsule_id nxt)"
  proof (cases "VCORES s (PhysicalCore_get_id s me)")
    case None
    then show ?thesis
      by (simp add: switch_out_def same_capsule_def running_def Let_def bind_enforce[where f = "\<lambda>t. t"] too_many_regions_def)
  next
    case (Some cur)
    then show ?thesis
      by (cases "get_capsule_id cur = get_capsule_id nxt")
        (simp_all add: switch_out_def same_capsule_def running_def Let_def bind_enforce too_many_regions_def)
  qed
  finally show ?thesis .
qed

section \<open>Every virtual core is in one place\<close>

definition vc_key :: "'s VirtualCore \<Rightarrow> VirtualCoreCanonicalID \<times> Priority" where
  "vc_key v = (vc_id v, vc_priority v)"

definition waiting_on :: "('s, 'c) hv \<Rightarrow> usize \<Rightarrow> (VirtualCoreCanonicalID \<times> Priority) multiset" where
  "waiting_on s p = image_mset vc_key (queued (pc_queues (pvars (cores s p))))"

definition running_on :: "('s, 'c) hv \<Rightarrow> usize \<Rightarrow> (VirtualCoreCanonicalID \<times> Priority) multiset" where
  "running_on s p = (case VCORES s p of None \<Rightarrow> {#} | Some v \<Rightarrow> {#vc_key v#})"

text \<open>All virtual cores: on the global queue, waiting on a core, or running.\<close>

definition all_vcores :: "('s, 'c) hv \<Rightarrow> (VirtualCoreCanonicalID \<times> Priority) multiset" where
  "all_vcores s = image_mset vc_key (queued (GLOBAL_QUEUES s))
     + (\<Sum>p\<in>UNIV. waiting_on s p) + (\<Sum>p\<in>UNIV. running_on s p)"

lemma sum_fun_upd:
  fixes g :: "usize \<Rightarrow> 'm :: comm_monoid_add"
  shows "(\<Sum>p\<in>UNIV. (g(a := x)) p) + g a = (\<Sum>p\<in>UNIV. g p) + x"
proof -
  have "(\<Sum>p\<in>UNIV - {a}. (g(a := x)) p) = (\<Sum>p\<in>UNIV - {a}. g p)" by (rule sum.cong) auto
  then show ?thesis
    by (simp add: sum.remove[of UNIV a] ac_simps)
qed

lemma parked_key [simp]: "vc_key (parked pf s me v) = vc_key v"
  by (simp add: parked_def vc_key_def)

lemma context_switch_conserves:
  assumes "context_switch pf me nxt s = Done t"
  shows "all_vcores t = add_mset (vc_key nxt) (all_vcores s)"
proof -
  note f = context_switch_Done[OF assms]
  let ?i = "PhysicalCore_get_id s me"
  have g: "GLOBAL_QUEUES t = GLOBAL_QUEUES s" using f(1) by (simp add: switch_frame_def)
  have r: "running_on t = (running_on s)(?i := {#vc_key nxt#})"
    using f(2) by (auto simp: running_on_def fun_eq_iff)
  have w: "waiting_on t = (waiting_on s)(me := waiting_on s me + running_on s ?i)"
    using f(4) by (cases "running s me")
      (auto simp: waiting_on_def running_on_def fun_eq_iff queues_after_def running_def sched_queue.enq_bag)
  have "(\<Sum>p\<in>UNIV. running_on t p) + running_on s ?i = (\<Sum>p\<in>UNIV. running_on s p) + {#vc_key nxt#}"
    unfolding r by (rule sum_fun_upd)
  moreover have "(\<Sum>p\<in>UNIV. waiting_on t p) + waiting_on s me
      = (\<Sum>p\<in>UNIV. waiting_on s p) + (waiting_on s me + running_on s ?i)"
    unfolding w by (rule sum_fun_upd)
  ultimately show ?thesis
    by (simp add: all_vcores_def g) (metis (no_types, lifting) add.assoc add.commute add_right_cancel
        add_mset_add_single)
qed

end
