(* ===== verification/Hv_Switch.thy ===== *)
theory Hv_Switch
  imports Hv_PCore
begin

text \<open>
  The guarantees of a context switch: no virtual core is lost, a virtual core resumes where it was
  interrupted, and it reaches only the RAM of its own capsule, provided the capsule still exists.
\<close>

text \<open>
  \<open>A\<close> is the set of cores that have been initialised; their ids are distinct. Each of them that runs
  a virtual core of an existing capsule with one area of RAM has access to exactly this area.
\<close>

definition isolation_inv :: "usize set \<Rightarrow> ('s, 'c) hv \<Rightarrow> bool" where
  "isolation_inv A s \<longleftrightarrow>
     inj_on (PhysicalCore_get_id s) A
     \<and> (\<forall>p\<in>A. \<forall>v c r. running s p = Some v \<and> CAPSULES s (get_capsule_id v) = Some c
          \<and> regions_of (memory c) = [r] \<longrightarrow> granted s p = Some (area_of r))"

lemma context_switch_ids:
  assumes "context_switch pf me nxt s = Done t"
  shows "PhysicalCore_get_id t p = PhysicalCore_get_id s p"
  using context_switch_Done(4)[OF assms, of p] by (simp add: PhysicalCore_get_id_def)

lemma context_switch_running:
  assumes "context_switch pf me nxt s = Done t" and "inj_on (PhysicalCore_get_id s) A" and "me \<in> A"
  shows "running t me = Some nxt" and "p \<in> A \<Longrightarrow> p \<noteq> me \<Longrightarrow> running t p = running s p"
  using context_switch_Done(2)[OF assms(1)] assms(2,3)
  by (auto simp: running_def context_switch_ids[OF assms(1)] dest: inj_onD)

lemma access_after_other [simp]: "p \<noteq> me \<Longrightarrow> access_after s me cid p = granted s p"
  by (simp add: access_after_def split: option.splits list.splits)

lemma isolation_inv_switch:
  assumes inv: "isolation_inv A s" and me: "me \<in> A" and cs: "context_switch pf me nxt s = Done t"
  shows "isolation_inv A t"
    and "CAPSULES s (get_capsule_id nxt) = Some c \<Longrightarrow> regions_of (memory c) = [r] \<Longrightarrow>
      granted t me = Some (area_of r)"
proof -
  have inj: "inj_on (PhysicalCore_get_id s) A" using inv by (simp add: isolation_inv_def)
  have inj': "inj_on (PhysicalCore_get_id t) A"
    using inj by (simp add: inj_on_def context_switch_ids[OF cs])
  have caps: "CAPSULES t = CAPSULES s" using context_switch_Done(1)[OF cs] by (simp add: switch_frame_def)
  note g = context_switch_Done(6)[OF cs] and run = context_switch_running[OF cs inj me]
  have own: "granted t me = Some (area_of r)"
    if c: "CAPSULES s (get_capsule_id nxt) = Some c" and r: "regions_of (memory c) = [r]" for c r
  proof (cases "same_capsule s me nxt")
    case True
    then obtain v where "running s me = Some v" "get_capsule_id v = get_capsule_id nxt"
      by (auto simp: same_capsule_def)
    with inv me c r have "granted s me = Some (area_of r)" unfolding isolation_inv_def by auto
    with True g show ?thesis by simp
  next
    case False
    with g c r show ?thesis by (simp add: access_after_def)
  qed
  from own show "CAPSULES s (get_capsule_id nxt) = Some c \<Longrightarrow> regions_of (memory c) = [r] \<Longrightarrow>
      granted t me = Some (area_of r)" .
  have "granted t p = Some (area_of r)"
    if "p \<in> A" "running t p = Some v" "CAPSULES s (get_capsule_id v) = Some c" "regions_of (memory c) = [r]"
    for p v c r
  proof (cases "p = me")
    case True
    with that run(1) own show ?thesis by auto
  next
    case False
    with that run(2) have "running s p = Some v" by simp
    with inv that have "granted s p = Some (area_of r)" unfolding isolation_inv_def by blast
    with False g show ?thesis by simp
  qed
  with inj' caps show "isolation_inv A t" unfolding isolation_inv_def by simp
qed

section \<open>Properties\<close>

text \<open>C8: a context switch makes the next virtual core the one that runs, with its saved registers loaded;
  the one that ran before goes to the back of this core's queue with the registers it was interrupted
  with; every virtual core is still in exactly one place, no other core and no table is touched, and
  the switch panics exactly if the capsule changes and the next one has more than one area of RAM.\<close>

theorem context_switch_correct:
  "(context_switch pf me nxt s = Done t \<longrightarrow>
      VCORES t (PhysicalCore_get_id s me) = Some nxt
      \<and> regs (cores t me) = load_supervisor_state pf (vc_state nxt) (regs_before_load pf s me)
      \<and> all_vcores t = add_mset (vc_key nxt) (all_vcores s)
      \<and> (\<forall>cur. running s me = Some cur \<longrightarrow> pc_queues (pvars (cores t me)) =
           ScheduleQueues_queue (pc_queues (pvars (cores s me)))
             (cur\<lparr>vc_state := save_supervisor_state pf (regs (cores s me)) (vc_state cur)\<rparr>))
      \<and> (\<forall>p. p \<noteq> me \<longrightarrow> pvars (cores t p) = pvars (cores s p) \<and> regs (cores t p) = regs (cores s p))
      \<and> switch_frame s t)
   \<and> (context_switch pf me nxt s = Panicked \<longleftrightarrow>
      \<not> same_capsule s me nxt \<and> too_many_regions s (get_capsule_id nxt))"
proof (intro conjI impI)
  assume cs: "context_switch pf me nxt s = Done t"
  note f = context_switch_Done[OF cs]
  show "VCORES t (PhysicalCore_get_id s me) = Some nxt" "switch_frame s t"
    "regs (cores t me) = load_supervisor_state pf (vc_state nxt) (regs_before_load pf s me)"
    using f by simp_all
  show "all_vcores t = add_mset (vc_key nxt) (all_vcores s)" by (rule context_switch_conserves[OF cs])
  show "\<forall>cur. running s me = Some cur \<longrightarrow> pc_queues (pvars (cores t me)) =
      ScheduleQueues_queue (pc_queues (pvars (cores s me)))
        (cur\<lparr>vc_state := save_supervisor_state pf (regs (cores s me)) (vc_state cur)\<rparr>)"
    using f(4)[of me] by (simp add: queues_after_def parked_def)
  show "\<forall>p. p \<noteq> me \<longrightarrow> pvars (cores t p) = pvars (cores s p) \<and> regs (cores t p) = regs (cores s p)"
    using f(4,5) by simp
next
  show "context_switch pf me nxt s = Panicked \<longleftrightarrow>
      \<not> same_capsule s me nxt \<and> too_many_regions s (get_capsule_id nxt)"
    using context_switch_total[of pf me nxt s] by (cases "context_switch pf me nxt s") auto
qed

text \<open>C5: what a context switch does to the access permissions, in every case. On the core that switches, the area
  of the next capsule is opened in place of the one before, if that capsule exists and has one area of
  RAM; if it does not exist or has no RAM, the core keeps the access it had. The other cores keep theirs.
  So hardware isolation survives: each initialised core that runs a virtual core of an existing
  capsule with one area reaches exactly that area.\<close>

theorem context_switch_isolates:
  assumes "isolation_inv A s" and "me \<in> A" and "context_switch pf me nxt s = Done t"
  shows "isolation_inv A t
    \<and> (\<forall>c r. CAPSULES s (get_capsule_id nxt) = Some c \<and> regions_of (memory c) = [r] \<longrightarrow>
         granted t me = Some (rgn_base r, rgn_base r + rgn_size r))
    \<and> (CAPSULES s (get_capsule_id nxt) = None \<or> (\<exists>c. CAPSULES s (get_capsule_id nxt) = Some c \<and> regions_of (memory c) = []) \<longrightarrow>
         granted t me = granted s me)
    \<and> (\<forall>p. p \<noteq> me \<longrightarrow> granted t p = granted s p)"
proof -
  have "granted t me = granted s me"
    if "CAPSULES s (get_capsule_id nxt) = None \<or> (\<exists>c. CAPSULES s (get_capsule_id nxt) = Some c \<and> regions_of (memory c) = [])"
    using that context_switch_Done(6)[OF assms(3)] by (auto simp: access_after_def)
  then show ?thesis
    using isolation_inv_switch[OF assms] context_switch_Done(6)[OF assms(3)]
    by (auto simp: area_of_def Region_end_def)
qed

text \<open>C35: a virtual core of a capsule that has been destroyed is run all the same, with whatever access
  the core had before: if the core ran another capsule, the dead capsule's code runs with full access
  to that capsule's RAM.\<close>

theorem dead_capsule_inherits_access:
  assumes "isolation_inv A s" and "me \<in> A" and "running s me = Some v"
    and "CAPSULES s (get_capsule_id v) = Some c" and "regions_of (memory c) = [r]"
    and "CAPSULES s (get_capsule_id nxt) = None"
  shows "\<exists>t. context_switch pf me nxt s = Done t \<and> running t me = Some nxt
    \<and> granted t me = Some (rgn_base r, rgn_base r + rgn_size r)"
proof -
  have inj: "inj_on (PhysicalCore_get_id s) A" and g: "granted s me = Some (area_of r)"
    using assms unfolding isolation_inv_def by blast+
  have "\<not> too_many_regions s (get_capsule_id nxt)" using assms(6) by (simp add: too_many_regions_def)
  then obtain t where t: "context_switch pf me nxt s = Done t" using context_switch_total by blast
  have "granted t = granted s"
    using context_switch_Done(6)[OF t] assms(6) by (simp add: access_after_def)
  then show ?thesis
    using t context_switch_running(1)[OF t inj assms(2)] g by (auto simp: area_of_def Region_end_def)
qed

text \<open>A virtual core that is switched out and later switched in again on the same core resumes with
  exactly the registers it was interrupted with, if loading a saved state restores the registers.\<close>

theorem context_switch_resumes:
  assumes "\<And>r st r'. load_supervisor_state pf (save_supervisor_state pf r st) r' = r"
    and "running s me = Some v" and "context_switch pf me w s = Done t"
    and "context_switch pf me (parked pf s me v) u = Done u'"
  shows "parked pf s me v \<in># queued (pc_queues (pvars (cores t me)))
    \<and> regs (cores u' me) = regs (cores s me)"
  using context_switch_Done(4)[OF assms(3), of me] context_switch_Done(5)[OF assms(4), of me] assms(1,2)
  by (simp add: queues_after_def sched_queue.enq_bag) (simp add: parked_def)

section \<open>Examples\<close>

definition vcore_of :: "usize \<Rightarrow> usize \<Rightarrow> Priority \<Rightarrow> usize \<Rightarrow> usize VirtualCore" where
  "vcore_of cid vid prio pc = \<lparr>vc_id = \<lparr>capsuleid = cid, vcoreid = vid\<rparr>, vc_priority = prio, vc_state = pc\<rparr>"

text \<open>Core 0 runs a virtual core of capsule 1, interrupted at \<open>0x80000010\<close>; there is no capsule 3.\<close>

definition running_hv :: "(usize, usize) hv" where
  "running_hv = example_hv\<lparr>VCORES := [0 \<mapsto> vcore_of 1 0 High 0x80000004],
     cores := (cores blank_hv)(0 := blank_core\<lparr>regs := 0x80000010, calls := [Protect 0x80000000 0x88000000]\<rparr>)\<rparr>"

lemma running_hv_fields [simp]:
  "CAPSULES running_hv = [1 \<mapsto> example_capsule, 2 \<mapsto> other_capsule]"
  "VCORES running_hv = [0 \<mapsto> vcore_of 1 0 High 0x80000004]"
  "PhysicalCore_get_id running_hv p = p" "regs (cores running_hv 0) = 0x80000010"
  "running running_hv 0 = Some (vcore_of 1 0 High 0x80000004)"
  "granted running_hv 0 = Some (area_of example_region)"
  "pc_queues (pvars (cores running_hv 0)) = ScheduleQueues_new"
  by (simp_all add: running_hv_def PhysicalCore_get_id_def blank_hv_def hv_start_def blank_core_def granted_def
      area_of_def Region_end_def example_region_def running_def)

lemma example_platform_regs [simp]:
  "load_supervisor_state example_platform st r = st" "save_supervisor_state example_platform r st = r"
  "supervisor_state_from example_platform e = e"
  by (simp_all add: example_platform_def)

lemma vcore_of_simps [simp]: "get_capsule_id (vcore_of c v p pc) = c" "get_id (vcore_of c v p pc) = v"
  "vc_state (vcore_of c v p pc) = pc" "(vcore_of c v p pc)\<lparr>vc_state := x\<rparr> = vcore_of c v p x"
  by (simp_all add: vcore_of_def get_capsule_id_def get_id_def)

lemma example_regions [simp]: "regions_of (memory example_capsule) = [example_region]" "regions_of (memory other_capsule) = []"
  by (simp_all add: example_capsule_def other_capsule_def get_physical_def)

lemma running_hv_isolation: "isolation_inv {0, 1} running_hv"
proof -
  have "running running_hv 1 = None"
    by (simp add: running_def)
  then show ?thesis by (auto simp: isolation_inv_def inj_on_def split: if_splits)
qed

lemma running_hv_switch:
  "\<exists>t. context_switch example_platform 0 (vcore_of 1 1 Normal 0x80000020) running_hv = Done t"
  unfolding context_switch_total by (simp add: same_capsule_def)

theorem context_switch_correct_witness:
  "\<exists>t. context_switch example_platform 0 (vcore_of 1 1 Normal 0x80000020) running_hv = Done t
     \<and> regs (cores t 0) = 0x80000020
     \<and> pc_queues (pvars (cores t 0)) = ScheduleQueues_queue ScheduleQueues_new (vcore_of 1 0 High 0x80000010)"
proof -
  obtain t where t: "context_switch example_platform 0 (vcore_of 1 1 Normal 0x80000020) running_hv = Done t"
    using running_hv_switch by blast
  then show ?thesis
    using context_switch_correct[of example_platform 0 "vcore_of 1 1 Normal 0x80000020" running_hv t]
    by simp
qed

theorem context_switch_isolates_witness:
  "\<exists>t. context_switch example_platform 1 (vcore_of 1 1 Normal 0x80000020) running_hv = Done t
     \<and> granted t 1 = Some (0x80000000, 0x88000000)"
proof -
  have "\<not> too_many_regions running_hv 1" by (simp add: too_many_regions_def)
  then obtain t where t: "context_switch example_platform 1 (vcore_of 1 1 Normal 0x80000020) running_hv = Done t"
    using context_switch_total[of example_platform 1 "vcore_of 1 1 Normal 0x80000020" running_hv] by auto
  then show ?thesis
    using context_switch_isolates[OF running_hv_isolation _ t] by (simp add: example_region_def)
qed

theorem dead_capsule_inherits_access_witness:
  "\<exists>t. context_switch example_platform 0 (vcore_of 3 0 High 0x99) running_hv = Done t
     \<and> running t 0 = Some (vcore_of 3 0 High 0x99) \<and> granted t 0 = Some (0x80000000, 0x88000000)"
  using dead_capsule_inherits_access[OF running_hv_isolation, of 0 "vcore_of 1 0 High 0x80000004"
      example_capsule example_region "vcore_of 3 0 High 0x99" example_platform]
  by (simp add: example_region_def)

theorem context_switch_resumes_witness:
  "\<exists>t u'. context_switch example_platform 0 (vcore_of 1 1 Normal 0x80000020) running_hv = Done t
     \<and> context_switch example_platform 0 (vcore_of 1 0 High 0x80000010) t = Done u'
     \<and> regs (cores u' 0) = 0x80000010"
proof -
  obtain t where t: "context_switch example_platform 0 (vcore_of 1 1 Normal 0x80000020) running_hv = Done t"
    using running_hv_switch by blast
  have r: "running t 0 = Some (vcore_of 1 1 Normal 0x80000020)"
    using context_switch_running(1)[OF t, of "{0}"] by simp
  then obtain u' where u: "context_switch example_platform 0 (vcore_of 1 0 High 0x80000010) t = Done u'"
    using context_switch_total[of example_platform 0 "vcore_of 1 0 High 0x80000010" t]
    by (auto simp: same_capsule_def)
  have p: "parked example_platform running_hv 0 (vcore_of 1 0 High 0x80000004) = vcore_of 1 0 High 0x80000010"
    by (simp add: parked_def)
  have "load_supervisor_state example_platform (save_supervisor_state example_platform a b) c = a" for a b c
    by simp
  from context_switch_resumes[OF this _ t, of "vcore_of 1 0 High 0x80000004" t u', unfolded p] t u show ?thesis
    by auto
qed

end
