(* ===== verification/Hv_Scheduler.thy ===== *)
theory Hv_Scheduler
  imports Hv_Switch
begin

text \<open>
  The scheduler, \<^verbatim>\<open>src/hypervisor/scheduler.rs\<close>: picking the next virtual core for a physical core, and the
  housekeeping of a core that has nothing to run.
\<close>

definition TIMESLICE_LENGTH :: u64 where
  "TIMESLICE_LENGTH = 50000"

definition scheduler_start :: "usize \<Rightarrow> ('s, 'c) hv \<Rightarrow> unit result \<times> ('s, 'c) hv" where
  "scheduler_start me s = (Ok (), scheduler_timer_start me s)"

text \<open>\<open>ScheduleQueues::run\<close>, on the queues of the calling core.\<close>

definition ScheduleQueues_run ::
  "('s, 'c) Platform \<Rightarrow> usize \<Rightarrow> 's VirtualCore \<Rightarrow> ('s, 'c) hv \<Rightarrow> ('s, 'c) hv outcome" where
  "ScheduleQueues_run pf me to_run s =
     context_switch pf me to_run
       (with_pvars me (\<lambda>cpu. cpu\<lparr>pc_queues := count_timeslice (pc_queues cpu) to_run\<rparr>) s)"

section \<open>Housekeeping\<close>

fun busiest :: "(usize \<times> usize) list \<Rightarrow> usize \<Rightarrow> usize option \<Rightarrow> usize \<times> usize option" where
  "busiest [] highest_count busiest_pcore = (highest_count, busiest_pcore)"
| "busiest ((pcoreid, vcore_count) # ws) highest_count busiest_pcore =
     (if vcore_count > highest_count then busiest ws vcore_count (Some pcoreid)
      else busiest ws highest_count busiest_pcore)"

definition housekeeping :: "('s, 'c) Platform \<Rightarrow> usize \<Rightarrow> ('s, 'c) hv \<Rightarrow> ('s, 'c) hv" where
  "housekeeping pf me s =
     (let s1 = drain_queue me s;
          s2 = s1\<lparr>REGIONS := coalesce_regions (REGIONS s1)\<rparr>
      in if total_queued (GLOBAL_QUEUES s2) > 0
         then (case busiest (map_iter pf (WORKLOAD s2)) 0 None of
                 (highest_count, busiest_pcore) \<Rightarrow>
                   if highest_count > 1
                   then (case busiest_pcore of
                           Some pid \<Rightarrow>
                             snd (message_send (Message_new s2 me (send_to_pcore pid) DisownQueuedVirtualCore) s2)
                         | None \<Rightarrow> s2)
                   else s2)
         else s2)"

section \<open>Picking the next virtual core\<close>

definition count_workload :: "usize \<Rightarrow> ('s, 'c) hv \<Rightarrow> ('s, 'c) hv" where
  "count_workload me s =
     (let pid = PhysicalCore_get_id s me
      in case WORKLOAD s pid of
           Some n \<Rightarrow> s\<lparr>WORKLOAD := (WORKLOAD s)(pid \<mapsto> n + 1)\<rparr>
         | None \<Rightarrow> s\<lparr>WORKLOAD := (WORKLOAD s)(pid \<mapsto> 1)\<rparr>)"

text \<open>One round of the loop of \<open>run_next\<close>; the flag is \<open>something_found\<close>.\<close>

definition pick_next :: "('s, 'c) Platform \<Rightarrow> usize \<Rightarrow> ('s, 'c) hv \<Rightarrow> (bool \<times> ('s, 'c) hv) outcome" where
  "pick_next pf me s =
     (case ScheduleQueues_dequeue (GLOBAL_QUEUES s) of
        (Some orphan, q) \<Rightarrow>
          bind_outcome (context_switch pf me orphan (count_workload me (s\<lparr>GLOBAL_QUEUES := q\<rparr>)))
            (\<lambda>t. Done (True, t))
      | (None, q) \<Rightarrow>
          (case PhysicalCore_dequeue me (s\<lparr>GLOBAL_QUEUES := q\<rparr>) of
             (Some virtcore, s') \<Rightarrow> bind_outcome (context_switch pf me virtcore s') (\<lambda>t. Done (True, t))
           | (None, s') \<Rightarrow> Done (False, s')))"

text \<open>
  The loop. \<open>None\<close> means that it goes round for ever, as it does when there is nothing to run and no
  other core queues anything.
\<close>

partial_function (option) run_loop ::
  "('s, 'c) Platform \<Rightarrow> usize \<Rightarrow> bool \<Rightarrow> ('s, 'c) hv \<Rightarrow> ('s, 'c) hv outcome option" where
  [code]: "run_loop pf me must_switch s =
     (case pick_next pf me s of
        Panicked \<Rightarrow> Some Panicked
      | Done r \<Rightarrow>
          if must_switch = False \<or> (must_switch \<and> fst r = True) then Some (Done (snd r))
          else run_loop pf me must_switch (housekeeping pf me (snd r)))"

definition run_next ::
  "('s, 'c) Platform \<Rightarrow> usize \<Rightarrow> bool \<Rightarrow> ('s, 'c) hv \<Rightarrow> ('s, 'c) hv outcome option" where
  "run_next pf me must_switch s =
     map_option (\<lambda>r. bind_outcome r (\<lambda>t. Done (scheduler_timer_next me TIMESLICE_LENGTH t)))
       (if smode_supported s me then run_loop pf me must_switch s
        else Some (Done (housekeeping pf me s)))"

section \<open>What housekeeping does\<close>

lemma housekeeping_fields [simp]:
  "CAPSULE_ID_NEXT (housekeeping pf me s) = CAPSULE_ID_NEXT s" "CAPSULES (housekeeping pf me s) = CAPSULES s"
  "GLOBAL_QUEUES (housekeeping pf me s) = GLOBAL_QUEUES s" "WORKLOAD (housekeeping pf me s) = WORKLOAD s"
  "VCORES (housekeeping pf me s) = VCORES s" "PCORES (housekeeping pf me s) = PCORES s"
  "HARDWARE (housekeeping pf me s) = HARDWARE s" "INIT_DONE (housekeeping pf me s) = INIT_DONE s"
  "ram (housekeeping pf me s) = ram s" "cores (housekeeping pf me s) = cores s"
  "REGIONS (housekeeping pf me s) = coalesce_regions (REGIONS s)"
  by (simp_all add: housekeeping_def Let_def split: prod.splits option.splits)

lemma housekeeping_services [simp]: "SERVICES (housekeeping pf me s) = SERVICES s"
  by (auto simp: housekeeping_def Let_def message_send_def Message_new_def send_to_pcore_def
      split: prod.splits option.splits)

text \<open>The core found is one with the highest count, and the highest count is positive.\<close>

lemma busiest_max:
  assumes "busiest ws h b = (h', b')" and "\<And>p. b = Some p \<Longrightarrow> (p, h) \<in> W" and "set ws \<subseteq> W"
  shows "(\<forall>p. b' = Some p \<longrightarrow> (p, h') \<in> W) \<and> h \<le> h' \<and> (\<forall>(p, n)\<in>set ws. n \<le> h')
    \<and> (b' = None \<longrightarrow> b = None \<and> h' = h)"
  using assms
proof (induction ws h b rule: busiest.induct)
  case (2 p n ws h b)
  show ?case
  proof (cases "n > h")
    case True
    with "2.prems" have "busiest ws n (Some p) = (h', b')" "(p, n) \<in> W" "set ws \<subseteq> W" by auto
    with "2.IH"(1)[OF True] True show ?thesis by auto
  next
    case False
    with "2.prems" have "busiest ws h b = (h', b')" "set ws \<subseteq> W" by auto
    with "2.IH"(2)[OF False this(1)] False "2.prems"(2) show ?thesis by auto
  qed
qed auto

text \<open>A core to ask for a virtual core: the global queues are not empty, and the core has taken the most
  virtual cores from them, at least two.\<close>

definition overworked :: "('s, 'c) hv \<Rightarrow> usize \<Rightarrow> bool" where
  "overworked s p \<longleftrightarrow> total_queued (GLOBAL_QUEUES s) > 0
     \<and> (\<exists>n. WORKLOAD s p = Some n \<and> n > 1 \<and> (\<forall>q m. WORKLOAD s q = Some m \<longrightarrow> m \<le> n))"

definition post :: "usize \<Rightarrow> Message \<Rightarrow> (usize \<rightharpoonup> Message list) \<Rightarrow> usize \<rightharpoonup> Message list" where
  "post p m boxes = (case boxes p of None \<Rightarrow> boxes | Some box \<Rightarrow> boxes(p \<mapsto> box @ [m]))"

lemma busiest_workload:
  assumes "iteration_ok pf" and "busiest (map_iter pf W) 0 None = (h, b)"
  shows "(b = None \<longrightarrow> h = 0) \<and> (\<forall>p. b = Some p \<longrightarrow> W p = Some h) \<and> (\<forall>q m. W q = Some m \<longrightarrow> m \<le> h)"
proof -
  have W: "set (map_iter pf W) = {(k, v). W k = Some v}" using assms(1) by (simp add: iteration_ok_def)
  from busiest_max[OF assms(2), of "set (map_iter pf W)"] show ?thesis unfolding W by auto
qed

lemma housekeeping_mailboxes:
  assumes "iteration_ok pf"
  shows "if \<exists>p. overworked s p
    then \<exists>p. overworked s p \<and> MAILBOXES (housekeeping pf me s) =
      post p \<lparr>sender = FromPhysicalCore (PhysicalCore_get_id s me), receiver = ToPhysicalCore p,
        code = DisownQueuedVirtualCore\<rparr> (MAILBOXES s)
    else MAILBOXES (housekeeping pf me s) = MAILBOXES s"
proof -
  obtain h b where hb: "busiest (map_iter pf (WORKLOAD s)) 0 None = (h, b)" by fastforce
  note w = busiest_workload[OF assms hb]
  show ?thesis
  proof (cases "total_queued (GLOBAL_QUEUES s) > 0 \<and> h > 1")
    case True
    with w obtain p where p: "b = Some p" "WORKLOAD s p = Some h" by (cases b) auto
    with True w have o: "overworked s p" by (auto simp: overworked_def)
    have "MAILBOXES (housekeeping pf me s) =
      post p \<lparr>sender = FromPhysicalCore (PhysicalCore_get_id s me), receiver = ToPhysicalCore p,
        code = DisownQueuedVirtualCore\<rparr> (MAILBOXES s)"
      using True hb p(1) by (auto simp: housekeeping_def message_send_def Message_new_def send_to_pcore_def
          post_def PhysicalCore_get_id_def split: option.splits)
    with o show ?thesis by auto
  next
    case False
    have "\<not> overworked s p" for p
    proof
      assume "overworked s p"
      then obtain n where "total_queued (GLOBAL_QUEUES s) > 0" "WORKLOAD s p = Some n" "n > 1"
        by (auto simp: overworked_def)
      with w have "n \<le> h" by blast
      with False \<open>n > 1\<close> \<open>total_queued (GLOBAL_QUEUES s) > 0\<close> show False by (auto dest: order.strict_trans2)
    qed
    moreover have "MAILBOXES (housekeeping pf me s) = MAILBOXES s"
      using False hb by (auto simp: housekeeping_def Let_def split: option.splits)
    ultimately show ?thesis by simp
  qed
qed

lemma housekeeping_vcores [simp]: "all_vcores (housekeeping pf me s) = all_vcores s"
  by (simp add: all_vcores_def waiting_on_def[abs_def] running_on_def[abs_def])

section \<open>What a round does\<close>

lemma PhysicalCore_dequeue_idle:
  assumes "ScheduleQueues_dequeue (pc_queues (pvars (cores s me))) = (None, q)"
  shows "PhysicalCore_dequeue me s = (None, s)"
  using sched_queue.deq_None[OF assms] assms
  by (simp add: PhysicalCore_dequeue_def with_pvars_def with_core_def)

lemma pick_next_cases:
  obtains (global) v q where "ScheduleQueues_dequeue (GLOBAL_QUEUES s) = (Some v, q)"
      "pick_next pf me s = bind_outcome (context_switch pf me v (count_workload me (s\<lparr>GLOBAL_QUEUES := q\<rparr>)))
         (\<lambda>t. Done (True, t))"
  | (local) v q where "queued (GLOBAL_QUEUES s) = {#}"
      "ScheduleQueues_dequeue (pc_queues (pvars (cores s me))) = (Some v, q)"
      "pick_next pf me s = bind_outcome (context_switch pf me v (with_pvars me (\<lambda>cpu. cpu\<lparr>pc_queues := q\<rparr>) s))
         (\<lambda>t. Done (True, t))"
  | (idle) "queued (GLOBAL_QUEUES s) = {#}" "queued (pc_queues (pvars (cores s me))) = {#}"
      "pick_next pf me s = Done (False, s)"
proof (cases "ScheduleQueues_dequeue (GLOBAL_QUEUES s)")
  case (Pair r q)
  show ?thesis
  proof (cases r)
    case (Some v)
    with Pair show ?thesis using global by (simp add: pick_next_def)
  next
    case None
    with Pair have e: "queued (GLOBAL_QUEUES s) = {#}" and "q = GLOBAL_QUEUES s"
      using sched_queue.deq_None[of "GLOBAL_QUEUES s" q] by auto
    then have s: "s\<lparr>GLOBAL_QUEUES := q\<rparr> = s" by simp
    obtain r' q' where d: "ScheduleQueues_dequeue (pc_queues (pvars (cores s me))) = (r', q')" by fastforce
    show ?thesis
    proof (cases r')
      case None
      with d have "queued (pc_queues (pvars (cores s me))) = {#}"
        using sched_queue.deq_None[of _ q'] by auto
      then show ?thesis
        using idle[OF e] Pair \<open>r = None\<close> s PhysicalCore_dequeue_idle[OF d[unfolded None]]
        by (simp add: pick_next_def)
    next
      case (Some v)
      then show ?thesis
        using local[OF e] d Pair \<open>r = None\<close> s by (simp add: pick_next_def PhysicalCore_dequeue_def)
    qed
  qed
qed

text \<open>The state a switch starts from: the chosen core has left its queue.\<close>

definition picked :: "('s, 'c) Platform \<Rightarrow> usize \<Rightarrow> ('s, 'c) hv \<Rightarrow> ('s VirtualCore \<times> ('s, 'c) hv) option" where
  "picked pf me s =
     (case ScheduleQueues_dequeue (GLOBAL_QUEUES s) of
        (Some v, q) \<Rightarrow> Some (v, count_workload me (s\<lparr>GLOBAL_QUEUES := q\<rparr>))
      | (None, _) \<Rightarrow>
          (case ScheduleQueues_dequeue (pc_queues (pvars (cores s me))) of
             (Some v, q) \<Rightarrow> Some (v, with_pvars me (\<lambda>cpu. cpu\<lparr>pc_queues := q\<rparr>) s)
           | (None, _) \<Rightarrow> None))"

definition candidates :: "usize \<Rightarrow> ('s, 'c) hv \<Rightarrow> 's VirtualCore list" where
  "candidates me s = service_order (GLOBAL_QUEUES s) @ service_order (pc_queues (pvars (cores s me)))"

lemma pick_next_picked:
  "pick_next pf me s =
     (case picked pf me s of
        None \<Rightarrow> Done (False, s)
      | Some (v, s') \<Rightarrow> bind_outcome (context_switch pf me v s') (\<lambda>t. Done (True, t)))"
proof (cases rule: pick_next_cases[of s pf me])
  case (global v q)
  then show ?thesis by (simp add: picked_def)
next
  case (local v q)
  then obtain q0 where "ScheduleQueues_dequeue (GLOBAL_QUEUES s) = (None, q0)"
    using sched_queue.deq_empty_iff[of "GLOBAL_QUEUES s"] by (metis prod.collapse)
  with local show ?thesis by (simp add: picked_def)
next
  case idle
  then obtain q0 q1 where "ScheduleQueues_dequeue (GLOBAL_QUEUES s) = (None, q0)"
    "ScheduleQueues_dequeue (pc_queues (pvars (cores s me))) = (None, q1)"
    using sched_queue.deq_empty_iff by (metis prod.collapse)
  with idle(3) show ?thesis by (simp add: picked_def)
qed

lemma picked_candidates:
  "map_option fst (picked pf me s) = (case candidates me s of [] \<Rightarrow> None | v # _ \<Rightarrow> Some v)"
  using service_order_dequeue[of "GLOBAL_QUEUES s"] service_order_dequeue[of "pc_queues (pvars (cores s me))"]
  by (auto simp: picked_def candidates_def split: list.splits prod.splits)

lemma count_workload_fields [simp]:
  "REGIONS (count_workload me s) = REGIONS s" "CAPSULE_ID_NEXT (count_workload me s) = CAPSULE_ID_NEXT s"
  "CAPSULES (count_workload me s) = CAPSULES s" "SERVICES (count_workload me s) = SERVICES s"
  "MAILBOXES (count_workload me s) = MAILBOXES s" "GLOBAL_QUEUES (count_workload me s) = GLOBAL_QUEUES s"
  "VCORES (count_workload me s) = VCORES s" "PCORES (count_workload me s) = PCORES s"
  "HARDWARE (count_workload me s) = HARDWARE s" "HW_LOCK (count_workload me s) = HW_LOCK s"
  "INIT_DONE (count_workload me s) = INIT_DONE s" "ram (count_workload me s) = ram s"
  "cores (count_workload me s) = cores s"
  by (simp_all add: count_workload_def Let_def split: option.splits)

lemma picked_fields:
  assumes "picked pf me s = Some (v, s')"
  shows "REGIONS s' = REGIONS s" "CAPSULE_ID_NEXT s' = CAPSULE_ID_NEXT s" "CAPSULES s' = CAPSULES s"
    "SERVICES s' = SERVICES s" "MAILBOXES s' = MAILBOXES s" "VCORES s' = VCORES s" "PCORES s' = PCORES s"
    "HARDWARE s' = HARDWARE s" "HW_LOCK s' = HW_LOCK s" "INIT_DONE s' = INIT_DONE s" "ram s' = ram s"
    "granted s' = granted s" "regs (cores s' p) = regs (cores s p)"
    "PhysicalCore_get_id s' p = PhysicalCore_get_id s p"
    "p \<noteq> me \<Longrightarrow> pvars (cores s' p) = pvars (cores s p)"
  using assms by (auto simp: picked_def granted_def[abs_def] PhysicalCore_get_id_def with_pvars_def
      split: prod.splits option.splits)

lemma picked_vcores:
  assumes "picked pf me s = Some (v, s')"
  shows "all_vcores s = add_mset (vc_key v) (all_vcores s')"
proof (cases "ScheduleQueues_dequeue (GLOBAL_QUEUES s)")
  case (Pair r q)
  show ?thesis
  proof (cases r)
    case (Some w)
    with assms Pair have "w = v" and s': "s' = count_workload me (s\<lparr>GLOBAL_QUEUES := q\<rparr>)"
      by (simp_all add: picked_def)
    then have "queued (GLOBAL_QUEUES s) = add_mset v (queued q)"
      using sched_queue.deq_Some Pair Some by blast
    then show ?thesis
      by (simp add: all_vcores_def waiting_on_def[abs_def] running_on_def[abs_def] s')
  next
    case None
    then obtain q' where d: "ScheduleQueues_dequeue (pc_queues (pvars (cores s me))) = (Some v, q')"
      and s': "s' = with_pvars me (\<lambda>cpu. cpu\<lparr>pc_queues := q'\<rparr>) s"
      using assms Pair by (auto simp: picked_def split: prod.splits option.splits)
    have m: "waiting_on s me = add_mset (vc_key v) (image_mset vc_key (queued q'))"
      using sched_queue.deq_Some[OF d] by (simp add: waiting_on_def)
    have "waiting_on s' = (waiting_on s)(me := image_mset vc_key (queued q'))"
      by (auto simp: waiting_on_def fun_eq_iff s')
    then have "(\<Sum>p\<in>UNIV. waiting_on s' p) + waiting_on s me
        = (\<Sum>p\<in>UNIV. waiting_on s p) + image_mset vc_key (queued q')"
      using sum_fun_upd[of "waiting_on s" me] by simp
    then have "(\<Sum>p\<in>UNIV. waiting_on s p) = add_mset (vc_key v) (\<Sum>p\<in>UNIV. waiting_on s' p)"
      unfolding m by (simp flip: add_mset_add_single)
    then show ?thesis by (simp add: all_vcores_def s' running_on_def[abs_def])
  qed
qed

section \<open>The loop\<close>

lemma run_loop_found:
  assumes "picked pf me s = Some (v, s')"
  shows "run_loop pf me must s = Some (context_switch pf me v s')"
  using assms by (cases "context_switch pf me v s'") (simp_all add: run_loop.simps[of pf me must s] pick_next_picked)

lemma run_loop_idle:
  assumes "picked pf me s = None"
  shows "run_loop pf me must s = (if must then run_loop pf me True (housekeeping pf me s) else Some (Done s))"
  using assms by (simp add: run_loop.simps[of pf me must s] pick_next_picked)

lemma picked_None_iff: "picked pf me s = None \<longleftrightarrow> candidates me s = []"
  using picked_candidates[of pf me s] by (cases "picked pf me s"; cases "candidates me s") auto

lemma candidates_housekeeping [simp]: "candidates me (housekeeping pf me s) = candidates me s"
  by (simp add: candidates_def)

lemma run_loop_returns:
  assumes "run_loop pf me must s = Some r"
  shows "must \<longrightarrow> candidates me s \<noteq> []"
proof (rule run_loop.raw_induct[where P = "\<lambda>pf me must s r. must \<longrightarrow> candidates me s \<noteq> []", OF _ assms])
  fix rl :: "('a, 'b) Platform \<Rightarrow> usize \<Rightarrow> bool \<Rightarrow> ('a, 'b) hv \<Rightarrow> ('a, 'b) hv outcome option" and pf me must s r
  assume IH: "\<And>pf me must s r. rl pf me must s = Some r \<Longrightarrow> must \<longrightarrow> candidates me s \<noteq> []"
    and step: "(case pick_next pf me s of
        Done r \<Rightarrow>
          if must = False \<or> (must \<and> fst r = True) then Some (Done (snd r))
          else rl pf me must (housekeeping pf me (snd r))
      | Panicked \<Rightarrow> Some Panicked) = Some r"
  show "must \<longrightarrow> candidates me s \<noteq> []"
  proof (rule impI, rule notI)
    assume must and "candidates me s = []"
    then have "pick_next pf me s = Done (False, s)"
      by (simp add: pick_next_picked picked_None_iff[THEN iffD2])
    with step \<open>must\<close> have "rl pf me must (housekeeping pf me s) = Some r" by simp
    from IH[OF this] \<open>must\<close> \<open>candidates me s = []\<close> show False by simp
  qed
qed

lemma run_loop_diverges: "candidates me s = [] \<Longrightarrow> run_loop pf me True s = None"
  using run_loop_returns[of pf me True s] by (cases "run_loop pf me True s") auto

lemma run_next_found:
  assumes "smode_supported s me" and "picked pf me s = Some (v, s')"
  shows "run_next pf me must s =
    Some (bind_outcome (context_switch pf me v s') (\<lambda>t. Done (scheduler_timer_next me TIMESLICE_LENGTH t)))"
  using assms by (simp add: run_next_def run_loop_found)

text \<open>Every way in which \<open>run_next\<close> can return.\<close>

lemma run_next_cases:
  assumes "run_next pf me must s = Some (Done t)"
  obtains (switched) v s' u where "smode_supported s me" "picked pf me s = Some (v, s')"
      "context_switch pf me v s' = Done u" "t = scheduler_timer_next me TIMESLICE_LENGTH u"
  | (idle) "smode_supported s me" "candidates me s = []" "\<not> must" "t = scheduler_timer_next me TIMESLICE_LENGTH s"
  | (managed) "\<not> smode_supported s me" "t = scheduler_timer_next me TIMESLICE_LENGTH (housekeeping pf me s)"
proof (cases "smode_supported s me")
  case False
  then show ?thesis using managed assms by (simp add: run_next_def)
next
  case True
  show ?thesis
  proof (cases "picked pf me s")
    case None
    then have c: "candidates me s = []" by (simp add: picked_None_iff)
    have "\<not> must" using assms True run_loop_diverges[OF c] by (cases must) (auto simp: run_next_def)
    moreover from this have "t = scheduler_timer_next me TIMESLICE_LENGTH s"
      using assms True run_loop_idle[OF None, of must] by (simp add: run_next_def)
    ultimately show ?thesis using idle True c by blast
  next
    case (Some vs)
    then obtain v s' where vs: "picked pf me s = Some (v, s')" by (cases vs) auto
    from run_next_found[OF True vs, of must] assms obtain u where
      "context_switch pf me v s' = Done u" "t = scheduler_timer_next me TIMESLICE_LENGTH u"
      by (cases "context_switch pf me v s'") auto
    then show ?thesis using switched[OF True vs] by blast
  qed
qed

lemma timer_next_vcores [simp]: "all_vcores (scheduler_timer_next me u s) = all_vcores s"
  by (simp add: all_vcores_def waiting_on_def[abs_def] running_on_def[abs_def])

lemma picked_switch_vcores:
  assumes "picked pf me s = Some (v, s')" and "context_switch pf me v s' = Done u"
  shows "all_vcores u = all_vcores s"
  using picked_vcores[OF assms(1)] context_switch_conserves[OF assms(2)] by simp

lemma isolation_inv_cong:
  assumes "\<And>p. PhysicalCore_get_id t p = PhysicalCore_get_id s p" "VCORES t = VCORES s"
    "CAPSULES t = CAPSULES s" "granted t = granted s"
  shows "isolation_inv A t \<longleftrightarrow> isolation_inv A s"
  using assms by (simp add: isolation_inv_def inj_on_def running_def)

lemma isolation_inv_timer [simp]: "isolation_inv A (scheduler_timer_next me u s) \<longleftrightarrow> isolation_inv A s"
  by (rule isolation_inv_cong) (simp_all add: PhysicalCore_get_id_def)

lemma isolation_inv_housekeeping [simp]: "isolation_inv A (housekeeping pf me s) \<longleftrightarrow> isolation_inv A s"
  by (rule isolation_inv_cong) (simp_all add: PhysicalCore_get_id_def granted_def[abs_def])

lemma run_next_isolation:
  assumes "isolation_inv A s" and "me \<in> A" and "run_next pf me must s = Some (Done t)"
  shows "isolation_inv A t"
  using assms(3)
proof (cases rule: run_next_cases)
  case (switched v s' u)
  have "isolation_inv A s'"
    using assms(1) isolation_inv_cong[of s' s A] picked_fields[OF switched(2)] by simp
  from isolation_inv_switch(1)[OF this assms(2) switched(3)] switched(4) show ?thesis by simp
qed (use assms(1) in simp_all)

section \<open>A core on its own\<close>

text \<open>The timer fires \<open>n\<close> times on one core while nothing else happens.\<close>

fun ticks :: "('s, 'c) Platform \<Rightarrow> usize \<Rightarrow> nat \<Rightarrow> ('s, 'c) hv \<Rightarrow> ('s, 'c) hv outcome option" where
  "ticks pf me 0 s = Some (Done s)"
| "ticks pf me (Suc n) s =
     (case run_next pf me False s of
        Some (Done t) \<Rightarrow> ticks pf me n t
      | r \<Rightarrow> r)"

text \<open>The core runs supervisors, nothing waits globally, and no capsule has two areas of RAM.\<close>

definition on_its_own :: "usize \<Rightarrow> ('s, 'c) hv \<Rightarrow> bool" where
  "on_its_own me s \<longleftrightarrow> smode_supported s me \<and> queued (GLOBAL_QUEUES s) = {#}
     \<and> \<not> high_timeslices (pc_queues (pvars (cores s me))) > HIGH_PRIO_TIMESLICES_MAX
     \<and> (\<forall>cid. \<not> too_many_regions s cid)"

lemma tick_high:
  assumes own: "on_its_own me s" and h: "high (pc_queues (pvars (cores s me))) = v # vs"
  shows "\<exists>t. run_next pf me False s = Some (Done t) \<and> on_its_own me t \<and> running t me = Some v
    \<and> pc_queues (pvars (cores t me)) =
       (let q = (pc_queues (pvars (cores s me)))\<lparr>high := vs\<rparr>
        in case running s me of None \<Rightarrow> q | Some cur \<Rightarrow> ScheduleQueues_queue q (parked pf s me cur))"
proof -
  let ?q = "pc_queues (pvars (cores s me))"
  let ?s = "with_pvars me (\<lambda>cpu. cpu\<lparr>pc_queues := ?q\<lparr>high := vs\<rparr>\<rparr>) s"
  have d: "ScheduleQueues_dequeue ?q = (Some v, ?q\<lparr>high := vs\<rparr>)"
    using own h by (simp add: on_its_own_def ScheduleQueues_dequeue_def dequeue_by_priority_def)
  have "fst (ScheduleQueues_dequeue (GLOBAL_QUEUES s)) = None"
    using own by (simp add: on_its_own_def sched_queue.deq_empty_iff)
  then have p: "picked pf me s = Some (v, ?s)"
    using d by (cases "ScheduleQueues_dequeue (GLOBAL_QUEUES s)") (simp add: picked_def)
  have "\<not> too_many_regions ?s cid" for cid using own by (simp add: on_its_own_def too_many_regions_def)
  then obtain u where u: "context_switch pf me v ?s = Done u" using context_switch_total by blast
  note f = context_switch_Done[OF u]
  let ?t = "scheduler_timer_next me TIMESLICE_LENGTH u"
  have r: "running ?s me = running s me" "parked pf ?s me = parked pf s me"
    by (simp_all add: running_def PhysicalCore_get_id_def parked_def fun_eq_iff)
  have qs: "pc_queues (pvars (cores ?t me)) =
      (case running s me of None \<Rightarrow> ?q\<lparr>high := vs\<rparr>
       | Some cur \<Rightarrow> ScheduleQueues_queue (?q\<lparr>high := vs\<rparr>) (parked pf s me cur))"
    using f(4)[of me] by (cases "running s me") (simp_all add: queues_after_def r)
  have "run_next pf me False s = Some (Done ?t)"
    using run_next_found[OF _ p] own u by (simp add: on_its_own_def)
  moreover have "running ?t me = Some v"
    using f(2) f(4)[of me] by (simp add: running_def PhysicalCore_get_id_def)
  moreover have "on_its_own me ?t"
    using own f(1) f(4)[of me] qs
    by (auto simp: on_its_own_def switch_frame_def too_many_regions_def smode_supported_def split: option.splits)
  ultimately show ?thesis using qs by (auto simp: Let_def)
qed

lemma high_after_tick:
  assumes "pc_queues (pvars (cores t me)) =
      (let q = (pc_queues (pvars (cores s me)))\<lparr>high := vs\<rparr>
       in case running s me of None \<Rightarrow> q | Some cur \<Rightarrow> ScheduleQueues_queue q (parked pf s me cur))"
  shows "\<exists>ws. high (pc_queues (pvars (cores t me))) = vs @ ws"
    and "running s me = Some cur \<Longrightarrow> vc_priority cur = High \<Longrightarrow>
      high (pc_queues (pvars (cores t me))) = vs @ [parked pf s me cur]
      \<and> low (pc_queues (pvars (cores t me))) = low (pc_queues (pvars (cores s me)))"
  using assms
  by (auto simp: Let_def ScheduleQueues_queue_def get_priority_def parked_def split: option.splits Priority.splits)

section \<open>Properties\<close>

text \<open>C7: picking the next virtual core. A core that can run supervisors switches to the first virtual core
  of the global queues or, when these are empty, of its own queues; no virtual core is lost or
  duplicated, no capsule, area of RAM, service or message is touched, and the timer is set again. With
  nothing queued anywhere it returns at once to what it ran when it may, and it never returns when it
  must switch.\<close>

theorem run_next_correct:
  assumes "smode_supported s me"
  shows "case candidates me s of
      [] \<Rightarrow> run_next pf me False s = Some (Done (scheduler_timer_next me TIMESLICE_LENGTH s))
        \<and> run_next pf me True s = None
    | v # _ \<Rightarrow>
        if \<not> same_capsule s me v \<and> too_many_regions s (get_capsule_id v)
        then run_next pf me must s = Some Panicked
        else \<exists>t. run_next pf me must s = Some (Done t) \<and> VCORES t = (VCORES s)(PhysicalCore_get_id s me \<mapsto> v)
          \<and> all_vcores t = all_vcores s \<and> CAPSULES t = CAPSULES s \<and> REGIONS t = REGIONS s
          \<and> SERVICES t = SERVICES s \<and> MAILBOXES t = MAILBOXES s
          \<and> regs (cores t me) = load_supervisor_state pf (vc_state v) (regs_before_load pf s me)"
proof (cases "picked pf me s")
  case None
  then have c: "candidates me s = []" by (simp add: picked_None_iff)
  then show ?thesis
    using assms run_loop_diverges[OF c, of pf] run_loop_idle[OF None, of False] by (simp add: run_next_def)
next
  case (Some vs)
  then obtain v s' where p: "picked pf me s = Some (v, s')" by (cases vs) auto
  then obtain w ws where c: "candidates me s = v # ws"
    using picked_candidates[of pf me s] by (cases "candidates me s") auto
  note f = picked_fields[OF p]
  have same: "same_capsule s' me v = same_capsule s me v" "too_many_regions s' cid = too_many_regions s cid"
    "regs_before_load pf s' me = regs_before_load pf s me" for cid
    using f by (simp_all add: same_capsule_def running_def too_many_regions_def regs_before_load_def
        split: option.splits)
  show ?thesis
  proof (cases "context_switch pf me v s'")
    case (Done u)
    then have "\<not> (\<not> same_capsule s me v \<and> too_many_regions s (get_capsule_id v))"
      using context_switch_total[of pf me v s'] same by auto
    moreover have "run_next pf me must s = Some (Done (scheduler_timer_next me TIMESLICE_LENGTH u))"
      using run_next_found[OF assms p] Done by simp
    ultimately show ?thesis
      using context_switch_Done(1,2)[OF Done] context_switch_Done(5)[OF Done, of me] picked_switch_vcores[OF p Done] f same(3)
      by (simp add: c switch_frame_def)
  next
    case Panicked
    then have "\<not> same_capsule s me v \<and> too_many_regions s (get_capsule_id v)"
      using context_switch_total[of pf me v s'] same by auto
    then show ?thesis using run_next_found[OF assms p] Panicked by (simp add: c)
  qed
qed

text \<open>Hardware isolation survives the scheduler: whatever it picks, every initialised core that runs a
  virtual core of an existing capsule can reach exactly that capsule's area of RAM.\<close>

theorem run_next_isolates:
  assumes "isolation_inv A s" and "me \<in> A" and "run_next pf me must s = Some (Done t)"
  shows "isolation_inv A t \<and> (\<forall>p\<in>A. \<forall>v c r. running t p = Some v \<and> CAPSULES t (get_capsule_id v) = Some c
    \<and> regions_of (memory c) = [r] \<longrightarrow> granted t p = Some (rgn_base r, rgn_base r + rgn_size r))"
  using run_next_isolation[OF assms] by (auto simp: isolation_inv_def area_of_def Region_end_def)

text \<open>C22: housekeeping merges the free RAM without changing which bytes are free, moves no virtual core, and
  asks exactly one core to give a virtual core back: one that has taken the most from the global
  queues, if that is more than one and the global queues are not empty; otherwise it asks nobody.\<close>

theorem housekeeping_correct:
  assumes "iteration_ok pf" and "regions_inv (REGIONS s)"
  shows "regions_merged (REGIONS (housekeeping pf me s))
    \<and> free_bytes (REGIONS (housekeeping pf me s)) = free_bytes (REGIONS s)
    \<and> all_vcores (housekeeping pf me s) = all_vcores s
    \<and> (if \<exists>p. overworked s p
       then \<exists>p. overworked s p \<and> MAILBOXES (housekeeping pf me s) =
         post p \<lparr>sender = FromPhysicalCore (PhysicalCore_get_id s me), receiver = ToPhysicalCore p,
           code = DisownQueuedVirtualCore\<rparr> (MAILBOXES s)
       else MAILBOXES (housekeeping pf me s) = MAILBOXES s)"
  using merge_law[OF assms(2)] housekeeping_mailboxes[OF assms(1), of s me]
  by (simp add: coalesce_regions_def)

text \<open>C21: a high-priority virtual core that waits on a core with \<open>i\<close> others before it runs after \<open>i + 1\<close> timer
  ticks, as long as nothing arrives on the global queues.\<close>

theorem high_priority_served:
  assumes "on_its_own me s" and "high (pc_queues (pvars (cores s me))) = us @ v # ws"
  shows "\<exists>t. ticks pf me (Suc (length us)) s = Some (Done t) \<and> running t me = Some v"
  using assms
proof (induction us arbitrary: s ws)
  case Nil
  then show ?case using tick_high[of me s v ws pf] by auto
next
  case (Cons u us)
  then obtain t where t: "run_next pf me False s = Some (Done t)" "on_its_own me t"
    and q: "pc_queues (pvars (cores t me)) =
      (let q = (pc_queues (pvars (cores s me)))\<lparr>high := us @ v # ws\<rparr>
       in case running s me of None \<Rightarrow> q | Some cur \<Rightarrow> ScheduleQueues_queue q (parked pf s me cur))"
    using tick_high[of me s u "us @ v # ws" pf] by auto
  obtain xs where "high (pc_queues (pvars (cores t me))) = us @ v # (ws @ xs)"
    using high_after_tick(1)[OF q] by auto
  from Cons.IH[OF t(2) this] t(1) show ?case by simp
qed

text \<open>C36: nothing that runs counts timeslices, so the guard against starvation does not fire. Consider a core that
  runs a high-priority virtual core and has another one waiting, with nothing on the global queues. However
  often its timer ticks, it always runs a high-priority virtual core, its normal-priority ones stay
  where they are, and the counter of the guard does not move.\<close>

theorem normal_priority_starves:
  assumes "on_its_own me s" and "queues_inv (pc_queues (pvars (cores s me)))"
    and "high (pc_queues (pvars (cores s me))) \<noteq> []"
    and "running s me = Some cur" and "vc_priority cur = High"
  shows "\<exists>t v. ticks pf me n s = Some (Done t) \<and> running t me = Some v \<and> vc_priority v = High
    \<and> low (pc_queues (pvars (cores t me))) = low (pc_queues (pvars (cores s me)))
    \<and> high_timeslices (pc_queues (pvars (cores t me))) = high_timeslices (pc_queues (pvars (cores s me)))"
  using assms
proof (induction n arbitrary: s cur)
  case (Suc n)
  then obtain v vs where h: "high (pc_queues (pvars (cores s me))) = v # vs"
    by (cases "high (pc_queues (pvars (cores s me)))") auto
  then have v: "vc_priority v = High" "list_all (\<lambda>v. vc_priority v = High) vs"
    using Suc.prems(2) by (simp_all add: queues_inv_def)
  obtain t where t: "run_next pf me False s = Some (Done t)" "on_its_own me t" "running t me = Some v"
    and q: "pc_queues (pvars (cores t me)) =
      (let q = (pc_queues (pvars (cores s me)))\<lparr>high := vs\<rparr>
       in case running s me of None \<Rightarrow> q | Some cur \<Rightarrow> ScheduleQueues_queue q (parked pf s me cur))"
    using tick_high[OF Suc.prems(1) h] by blast
  note hl = high_after_tick(2)[OF q Suc.prems(4,5)]
  have "queues_inv (pc_queues (pvars (cores t me)))"
    using Suc.prems(2,5) v(2) hl by (simp add: queues_inv_def parked_def)
  moreover have "high_timeslices (pc_queues (pvars (cores t me))) = high_timeslices (pc_queues (pvars (cores s me)))"
    using q Suc.prems(4) by (simp add: ScheduleQueues_queue_def Let_def split: Priority.splits)
  ultimately show ?case using Suc.IH[OF t(2) _ _ t(3) v(1)] hl t(1) by auto
qed auto

section \<open>Examples\<close>

text \<open>Core 0 runs a high-priority virtual core; another one and a normal one wait for it.\<close>

definition busy_hv :: "(usize, usize) hv" where
  "busy_hv = with_pvars 0 (\<lambda>cpu. cpu\<lparr>pc_queues := \<lparr>high = [vcore_of 1 1 High 0x80000020],
     low = [vcore_of 1 2 Normal 0x80000030], high_timeslices = 0\<rparr>\<rparr>) running_hv"

lemma busy_hv_own: "on_its_own 0 busy_hv"
  by (auto simp: on_its_own_def busy_hv_def smode_supported_def too_many_regions_def HIGH_PRIO_TIMESLICES_MAX_def)
    (simp_all add: running_hv_def example_hv_def blank_hv_def hv_start_def blank_core_def queued_def
      ScheduleQueues_new_def)

lemma busy_hv_queues [simp]:
  "high (pc_queues (pvars (cores busy_hv 0))) = [vcore_of 1 1 High 0x80000020]"
  "low (pc_queues (pvars (cores busy_hv 0))) = [vcore_of 1 2 Normal 0x80000030]"
  "running busy_hv 0 = Some (vcore_of 1 0 High 0x80000004)"
  by (simp_all add: busy_hv_def running_def PhysicalCore_get_id_def)
    (simp add: running_hv_def blank_core_def)

lemma busy_hv_isolation: "isolation_inv {0, 1} busy_hv"
proof -
  have "isolation_inv {0, 1} busy_hv \<longleftrightarrow> isolation_inv {0, 1} running_hv"
    by (rule isolation_inv_cong) (simp_all add: busy_hv_def PhysicalCore_get_id_def)
  then show ?thesis using running_hv_isolation by simp
qed

theorem high_priority_served_witness:
  "\<exists>t. ticks example_platform 0 1 busy_hv = Some (Done t) \<and> running t 0 = Some (vcore_of 1 1 High 0x80000020)"
  using high_priority_served[OF busy_hv_own, of "[]"] by simp

theorem normal_priority_starves_witness:
  "\<exists>t. ticks example_platform 0 1000 busy_hv = Some (Done t)
     \<and> low (pc_queues (pvars (cores t 0))) = [vcore_of 1 2 Normal 0x80000030]"
proof -
  have "queues_inv (pc_queues (pvars (cores busy_hv 0)))"
    by (simp add: queues_inv_def) (simp add: vcore_of_def)
  then have "\<exists>t v. ticks example_platform 0 1000 busy_hv = Some (Done t) \<and> running t 0 = Some v
      \<and> vc_priority v = High \<and> low (pc_queues (pvars (cores t 0))) = low (pc_queues (pvars (cores busy_hv 0)))
      \<and> high_timeslices (pc_queues (pvars (cores t 0))) = high_timeslices (pc_queues (pvars (cores busy_hv 0)))"
    by (rule normal_priority_starves[OF busy_hv_own _ _ busy_hv_queues(3)]) (simp_all add: vcore_of_def)
  then show ?thesis by auto
qed

lemma busy_hv_candidates: "candidates 0 busy_hv = [vcore_of 1 1 High 0x80000020, vcore_of 1 2 Normal 0x80000030]"
proof -
  have "service_order (GLOBAL_QUEUES busy_hv) = []"
    by (simp add: busy_hv_def running_hv_def example_hv_def blank_hv_def hv_start_def ScheduleQueues_new_def
        service_order_def)
  then show ?thesis using busy_hv_own by (simp add: candidates_def service_order_def on_its_own_def)
qed

theorem run_next_correct_witness:
  "\<exists>t. run_next example_platform 0 True busy_hv = Some (Done t)
     \<and> VCORES t = [0 \<mapsto> vcore_of 1 1 High 0x80000020] \<and> all_vcores t = all_vcores busy_hv"
proof -
  have "candidates 0 busy_hv = [vcore_of 1 1 High 0x80000020, vcore_of 1 2 Normal 0x80000030]"
    by (rule busy_hv_candidates)
  moreover have "smode_supported busy_hv 0" "\<not> too_many_regions busy_hv 1"
    using busy_hv_own by (simp_all add: on_its_own_def)
  moreover have "VCORES busy_hv = [0 \<mapsto> vcore_of 1 0 High 0x80000004]" "PhysicalCore_get_id busy_hv 0 = 0"
    by (simp_all add: busy_hv_def PhysicalCore_get_id_def) (simp add: running_hv_def blank_core_def)
  ultimately show ?thesis
    using run_next_correct[of busy_hv 0 example_platform True] by auto
qed

theorem run_next_isolates_witness:
  "\<exists>t. run_next example_platform 0 False busy_hv = Some (Done t) \<and> isolation_inv {0, 1} t"
  using tick_high[OF busy_hv_own busy_hv_queues(1), of example_platform]
    run_next_isolates[OF busy_hv_isolation, of 0 example_platform False] by auto

theorem housekeeping_correct_witness:
  "MAILBOXES (housekeeping example_platform 1 (running_hv\<lparr>WORKLOAD := [0 \<mapsto> 2, 1 \<mapsto> 1], MAILBOXES := [0 \<mapsto> []],
     GLOBAL_QUEUES := \<lparr>high = [vcore_of 1 1 High 0x80000020], low = [], high_timeslices = 0\<rparr>\<rparr>)) 0
   = Some [\<lparr>sender = FromPhysicalCore 1, receiver = ToPhysicalCore 0, code = DisownQueuedVirtualCore\<rparr>]"
proof -
  let ?s = "running_hv\<lparr>WORKLOAD := [0 \<mapsto> 2, 1 \<mapsto> 1], MAILBOXES := [0 \<mapsto> []],
     GLOBAL_QUEUES := \<lparr>high = [vcore_of 1 1 High 0x80000020], low = [], high_timeslices = 0\<rparr>\<rparr>"
  have o: "overworked ?s p \<longleftrightarrow> p = 0" for p
    by (auto simp: overworked_def total_queued_def split: if_splits)
  have "regions_inv (REGIONS ?s)" by (simp add: running_hv_def example_pool_inv)
  from housekeeping_correct[OF example_platform_iteration this, of 1]
  have "MAILBOXES (housekeeping example_platform 1 ?s) =
      post 0 \<lparr>sender = FromPhysicalCore (PhysicalCore_get_id ?s 1), receiver = ToPhysicalCore 0,
        code = DisownQueuedVirtualCore\<rparr> (MAILBOXES ?s)"
    unfolding o by simp
  moreover have "PhysicalCore_get_id ?s 1 = 1"
    using running_hv_fields(3)[of 1] by (simp add: PhysicalCore_get_id_def)
  ultimately show ?thesis by (simp add: post_def)
qed

end
