(* ===== verification/Hv_Loader.thy ===== *)
theory Hv_Loader
  imports Hv_Scheduler
begin

text \<open>
  The loader, \<^verbatim>\<open>src/hypervisor/loader.rs\<close>: copying the load segments of a supervisor binary into the RAM
  of a capsule and finding the physical address of its entry point. The ELF parser is a parameter;
  RAM is a function from addresses to bytes.
\<close>

definition ram_slice :: "(usize \<Rightarrow> 8 word) \<Rightarrow> usize \<Rightarrow> usize \<Rightarrow> 8 word list" where
  "ram_slice m base n = map (\<lambda>i. m (base + of_nat i)) [0..<unat n]"

text \<open>\<open>copy_nonoverlapping\<close>: \<open>count\<close> bytes from \<open>src\<close> to \<open>dst\<close>.\<close>

definition copy_nonoverlapping :: "usize \<Rightarrow> usize \<Rightarrow> usize \<Rightarrow> ('s, 'c) hv \<Rightarrow> ('s, 'c) hv" where
  "copy_nonoverlapping src dst n s =
     s\<lparr>ram := (\<lambda>a. if a - dst < n then ram s (src + (a - dst)) else ram s a)\<rparr>"

fun load_headers ::
  "('s, 'c) Platform \<Rightarrow> usize \<Rightarrow> u64 \<Rightarrow> u64 \<Rightarrow> u64 \<Rightarrow> u64 \<Rightarrow> ProgramHeader option list \<Rightarrow> usize option \<Rightarrow>
   ('s, 'c) hv \<Rightarrow> usize option result \<times> ('s, 'c) hv" where
  "load_headers pf me target_base target_end source_base entry_virtual [] entry_physical s = (Ok entry_physical, s)"
| "load_headers pf me target_base target_end source_base entry_virtual (None # phs) entry_physical s =
     (Ok entry_physical, s)"
| "load_headers pf me target_base target_end source_base entry_virtual (Some ph # phs) entry_physical s =
     (if ph_is_load ph then
        (if target_base + ph_offset ph + ph_mem_size ph > target_end
         then (Err LoaderSupervisorTooLarge, s)
         else
           (let here = entry_virtual \<ge> ph_virtual_addr ph \<and> entry_virtual < ph_virtual_addr ph + ph_mem_size ph;
                found = (entry_virtual - ph_virtual_addr ph) + target_base;
                entry' = (if here then Some found else entry_physical);
                s1 = (if here
                      then hvdebug pf me
                        ''Translated supervisor virtual entry point 0x{:x} to 0x{:x} in physical RAM''
                        [hex entry_virtual, hex found] s
                      else s);
                s2 = hvdebug pf me ''Loading supervisor ELF program area: 0x{:x} size 0x{:x} into 0x{:x}''
                       [hex (ph_offset ph + source_base), hex (ph_file_size ph),
                        hex (ph_physical_addr ph + target_base)] s1;
                s3 = copy_nonoverlapping (ph_offset ph + source_base) (ph_physical_addr ph + target_base)
                       (ph_file_size ph) s2
            in load_headers pf me target_base target_end source_base entry_virtual phs entry' s3))
      else load_headers pf me target_base target_end source_base entry_virtual phs entry_physical s)"

definition load ::
  "('s, 'c) Platform \<Rightarrow> usize \<Rightarrow> Region \<Rightarrow> Region \<Rightarrow> ('s, 'c) hv \<Rightarrow> usize result \<times> ('s, 'c) hv" where
  "load pf me target source s =
     (case parse_elf pf (ram_slice (ram s) (rgn_base source) (rgn_size source)) of
        Inr msg \<Rightarrow>
          (Err LoaderUnrecognizedSupervisor,
           hvalert me ''Failed to parse supervisor ELF (source physical RAM base 0x{:x}, size {} MiB): {}''
             [hex (rgn_base source), dec (rgn_size source div 1024 div 1024), msg] s)
      | Inl elf \<Rightarrow>
          (case load_headers pf me (rgn_base target) (Region_end target) (rgn_base source) (entry_point elf)
                  (program_headers elf) None s of
             (Err e, s') \<Rightarrow> (Err e, s')
           | (Ok None, s') \<Rightarrow> (Err LoaderBadEntry, s')
           | (Ok (Some entry), s') \<Rightarrow> (Ok entry, s')))"

section \<open>What the loader changes\<close>

definition no_ram :: "('s, 'c) hv \<Rightarrow> ('s, 'c) hv" where
  "no_ram s = (essence s)\<lparr>ram := (\<lambda>_. 0)\<rparr>"

lemma no_ram_fields:
  assumes "no_ram t = no_ram s"
  shows "REGIONS t = REGIONS s" "CAPSULE_ID_NEXT t = CAPSULE_ID_NEXT s" "CAPSULES t = CAPSULES s"
    "SERVICES t = SERVICES s" "MAILBOXES t = MAILBOXES s" "GLOBAL_QUEUES t = GLOBAL_QUEUES s"
    "WORKLOAD t = WORKLOAD s" "VCORES t = VCORES s" "PCORES t = PCORES s" "HARDWARE t = HARDWARE s"
    "INIT_DONE t = INIT_DONE s" "cores t = cores s"
  using assms by (cases s; cases t; simp add: no_ram_def essence_def)+

lemma no_ram_steps [simp]:
  "no_ram (hvdebug pf me f as s) = no_ram s"
  "no_ram (hvalert me f as s) = no_ram s"
  "no_ram (copy_nonoverlapping a b n s) = no_ram s"
  by (simp_all add: no_ram_def) (simp add: copy_nonoverlapping_def essence_def)

lemma load_headers_no_ram: "no_ram (snd (load_headers pf me tb te sb ev phs e s)) = no_ram s"
  by (induction pf me tb te sb ev phs e s rule: load_headers.induct) (auto simp: Let_def)

lemma load_no_ram: "no_ram (snd (load pf me target source s)) = no_ram s"
proof (cases "parse_elf pf (ram_slice (ram s) (rgn_base source) (rgn_size source))")
  case (Inl elf)
  obtain r s' where lh: "load_headers pf me (rgn_base target) (Region_end target) (rgn_base source)
      (entry_point elf) (program_headers elf) None s = (r, s')" by fastforce
  have "no_ram s' = no_ram s" using load_headers_no_ram[of pf me "rgn_base target" "Region_end target"
      "rgn_base source" "entry_point elf" "program_headers elf" None s] lh by simp
  with Inl lh show ?thesis by (auto simp: load_def split: result.splits option.splits)
qed (simp add: load_def)

lemma load_lock: "HW_LOCK (snd (load pf me target source s)) = HW_LOCK s"
proof -
  have lh: "HW_LOCK (snd (load_headers pf me tb te sb ev phs e s)) = HW_LOCK s" for tb te sb ev phs e
    by (induction pf me tb te sb ev phs e s rule: load_headers.induct)
      (auto simp: Let_def copy_nonoverlapping_def)
  show ?thesis
    by (cases "parse_elf pf (ram_slice (ram s) (rgn_base source) (rgn_size source))")
      (auto simp: load_def split: result.splits option.splits prod.splits dest: arg_cong[where f = "\<lambda>x. HW_LOCK (snd x)"]
        simp: lh)
qed

lemma copy_hit: "i < n \<Longrightarrow> ram (copy_nonoverlapping src dst n s) (dst + i) = ram s (src + i)"
  by (simp add: copy_nonoverlapping_def)

section \<open>Segments that stay inside the target\<close>

text \<open>A load segment whose checked extent does not wrap, whose destination lies in the target, and whose
  virtual extent does not wrap.\<close>

definition segment_ok :: "Region \<Rightarrow> ProgramHeader \<Rightarrow> bool" where
  "segment_ok target ph \<longleftrightarrow>
     unat (rgn_base target) + unat (ph_offset ph) + unat (ph_mem_size ph) < 2 ^ 64
     \<and> unat (ph_physical_addr ph) + unat (ph_file_size ph) \<le> unat (rgn_size target)
     \<and> unat (ph_virtual_addr ph) + unat (ph_mem_size ph) < 2 ^ 64"

definition binary_ok :: "Region \<Rightarrow> Elf \<Rightarrow> bool" where
  "binary_ok target elf \<longleftrightarrow>
     list_all (\<lambda>h. case h of None \<Rightarrow> True | Some ph \<Rightarrow> ph_is_load ph \<longrightarrow> segment_ok target ph) (program_headers elf)"

lemma copy_outside:
  assumes "region_ok target" and "segment_ok target ph" and "unat a \<notin> region_bytes target"
  shows "ram (copy_nonoverlapping src (ph_physical_addr ph + rgn_base target) (ph_file_size ph) s) a = ram s a"
proof -
  let ?dst = "ph_physical_addr ph + rgn_base target"
  have dst: "unat ?dst = unat (ph_physical_addr ph) + unat (rgn_base target)"
    using assms(1,2) by (intro unat_add_nowrap) (simp add: region_ok_def segment_ok_def)
  have "\<not> a - ?dst < ph_file_size ph"
  proof
    assume less: "a - ?dst < ph_file_size ph"
    then have k: "unat (a - ?dst) < unat (ph_file_size ph)" by (simp add: word_nat)
    have "unat (?dst + (a - ?dst)) = unat ?dst + unat (a - ?dst)"
      by (rule unat_add_nowrap) (use k dst assms(1,2) in \<open>simp add: region_ok_def segment_ok_def\<close>)
    then have "unat a = unat ?dst + unat (a - ?dst)" by simp
    with k dst assms(2,3) show False by (simp add: region_bytes_def bytes_def segment_ok_def)
  qed
  then show ?thesis by (simp add: copy_nonoverlapping_def)
qed

lemma entry_inside:
  assumes "region_ok target" and "segment_ok target ph"
    and "\<not> rgn_base target + ph_offset ph + ph_mem_size ph > Region_end target"
    and "ev \<ge> ph_virtual_addr ph" and "ev < ph_virtual_addr ph + ph_mem_size ph"
  shows "unat (ev - ph_virtual_addr ph + rgn_base target) \<in> region_bytes target"
proof -
  have "unat (rgn_base target + ph_offset ph) = unat (rgn_base target) + unat (ph_offset ph)"
    using assms(2) by (intro unat_add_nowrap) (simp add: segment_ok_def)
  moreover from this have "unat (rgn_base target + ph_offset ph + ph_mem_size ph) =
      unat (rgn_base target) + unat (ph_offset ph) + unat (ph_mem_size ph)"
    using assms(2) by (subst unat_add_nowrap) (simp_all add: segment_ok_def)
  ultimately have mem: "unat (ph_mem_size ph) \<le> unat (rgn_size target)"
    using assms(3) Region_end_nat[OF assms(1)] by (simp add: not_less word_nat)
  have "unat (ph_virtual_addr ph + ph_mem_size ph) = unat (ph_virtual_addr ph) + unat (ph_mem_size ph)"
    using assms(2) by (intro unat_add_nowrap) (simp add: segment_ok_def)
  then have d: "unat (ev - ph_virtual_addr ph) < unat (ph_mem_size ph)"
    using assms(4,5) by (simp add: word_nat unat_sub_nowrap)
  then have "unat (ev - ph_virtual_addr ph + rgn_base target) = unat (ev - ph_virtual_addr ph) + unat (rgn_base target)"
    using assms(1) mem by (intro unat_add_nowrap) (simp add: region_ok_def)
  with d mem show ?thesis by (simp add: region_bytes_def bytes_def)
qed

lemma load_headers_confined:
  assumes "region_ok target"
    and "list_all (\<lambda>h. case h of None \<Rightarrow> True | Some ph \<Rightarrow> ph_is_load ph \<longrightarrow> segment_ok target ph) phs"
    and "\<And>p. e = Some p \<Longrightarrow> unat p \<in> region_bytes target"
    and "load_headers pf me (rgn_base target) (Region_end target) sb ev phs e s = (r, t)"
  shows "(\<forall>p. r = Ok (Some p) \<longrightarrow> unat p \<in> region_bytes target)
    \<and> (\<forall>a. unat a \<notin> region_bytes target \<longrightarrow> ram t a = ram s a)"
  using assms(2-)
proof (induction phs arbitrary: e s)
  case (Cons h phs)
  show ?case
  proof (cases h)
    case None
    with Cons.prems show ?thesis by auto
  next
    case (Some ph)
    show ?thesis
    proof (cases "ph_is_load ph \<and> \<not> rgn_base target + ph_offset ph + ph_mem_size ph > Region_end target")
      case False
      then show ?thesis using Cons.prems Cons.IH[of e s] Some by (auto split: if_splits)
    next
      case True
      let ?here = "ev \<ge> ph_virtual_addr ph \<and> ev < ph_virtual_addr ph + ph_mem_size ph"
      let ?e = "if ?here then Some (ev - ph_virtual_addr ph + rgn_base target) else e"
      have ok: "segment_ok target ph" using Cons.prems(1) Some True by simp
      obtain u where rest: "load_headers pf me (rgn_base target) (Region_end target) sb ev phs ?e
          (copy_nonoverlapping (ph_offset ph + sb) (ph_physical_addr ph + rgn_base target) (ph_file_size ph) u) = (r, t)"
        and u: "ram u = ram s"
        using Cons.prems(3) True Some by (simp add: Let_def split: if_splits)
      have "\<And>p. ?e = Some p \<Longrightarrow> unat p \<in> region_bytes target"
        using Cons.prems(2) entry_inside[OF assms(1) ok] True by (auto split: if_splits)
      from Cons.IH[OF _ this rest] Cons.prems(1) copy_outside[OF assms(1) ok, where s = u] u show ?thesis by simp
    qed
  qed
qed auto

lemma load_confined:
  assumes "region_ok target" and "load pf me target source s = (r, t)"
    and "\<And>elf. parse_elf pf (ram_slice (ram s) (rgn_base source) (rgn_size source)) = Inl elf \<Longrightarrow> binary_ok target elf"
  shows "(\<forall>p. r = Ok p \<longrightarrow> unat p \<in> region_bytes target)
    \<and> (\<forall>a. unat a \<notin> region_bytes target \<longrightarrow> ram t a = ram s a)"
proof (cases "parse_elf pf (ram_slice (ram s) (rgn_base source) (rgn_size source))")
  case (Inl elf)
  obtain r' t' where lh: "load_headers pf me (rgn_base target) (Region_end target) (rgn_base source)
      (entry_point elf) (program_headers elf) None s = (r', t')" by fastforce
  from load_headers_confined[OF assms(1) _ _ this] assms(2,3) Inl lh show ?thesis
    by (auto simp: load_def binary_ok_def split: result.splits option.splits)
qed (use assms(2) in \<open>auto simp: load_def\<close>)

section \<open>What a binary asks for\<close>

text \<open>The load segments of a list of program headers, up to the first one that cannot be read; whether a
  segment passes the size check; and whether it is home to the entry point.\<close>

definition load_segments :: "ProgramHeader option list \<Rightarrow> ProgramHeader list" where
  "load_segments phs = filter ph_is_load (map the (takeWhile (\<lambda>h. h \<noteq> None) phs))"

definition segment_fits :: "u64 \<Rightarrow> u64 \<Rightarrow> ProgramHeader \<Rightarrow> bool" where
  "segment_fits target_base target_end ph \<longleftrightarrow> target_base + ph_offset ph + ph_mem_size ph \<le> target_end"

definition entry_home :: "u64 \<Rightarrow> ProgramHeader \<Rightarrow> bool" where
  "entry_home ev ph \<longleftrightarrow> ph_virtual_addr ph \<le> ev \<and> ev < ph_virtual_addr ph + ph_mem_size ph"

lemma load_segments_simps [simp]:
  "load_segments [] = []" "load_segments (None # phs) = []"
  "load_segments (Some ph # phs) = (if ph_is_load ph then ph # load_segments phs else load_segments phs)"
  by (simp_all add: load_segments_def)

text \<open>One load segment that passes the check.\<close>

lemma load_headers_segment:
  assumes "ph_is_load ph" and "segment_fits tb te ph"
  obtains u where "ram u = ram s" "load_headers pf me tb te sb ev (Some ph # phs) e s =
    load_headers pf me tb te sb ev phs (if entry_home ev ph then Some (ev - ph_virtual_addr ph + tb) else e)
      (copy_nonoverlapping (ph_offset ph + sb) (ph_physical_addr ph + tb) (ph_file_size ph) u)"
proof -
  have "\<not> tb + ph_offset ph + ph_mem_size ph > te" using assms(2) by (simp add: segment_fits_def)
  moreover define s1 where "s1 = (if entry_home ev ph
    then hvdebug pf me ''Translated supervisor virtual entry point 0x{:x} to 0x{:x} in physical RAM''
      [hex ev, hex (ev - ph_virtual_addr ph + tb)] s else s)"
  ultimately show ?thesis
    using assms(1) by (intro that[of "hvdebug pf me ''Loading supervisor ELF program area: 0x{:x} size 0x{:x} into 0x{:x}''
      [hex (ph_offset ph + sb), hex (ph_file_size ph), hex (ph_physical_addr ph + tb)] s1"])
      (simp_all add: Let_def entry_home_def)
qed

lemma load_headers_result:
  "fst (load_headers pf me tb te sb ev phs e s) =
     (if list_all (segment_fits tb te) (load_segments phs)
      then Ok (case filter (entry_home ev) (load_segments phs) of
          [] \<Rightarrow> e | h # hs \<Rightarrow> Some (ev - ph_virtual_addr (last (h # hs)) + tb))
      else Err LoaderSupervisorTooLarge)"
proof (induction phs arbitrary: e s)
  case (Cons h phs)
  show ?case
  proof (cases h)
    case (Some ph)
    show ?thesis
    proof (cases "ph_is_load ph \<and> segment_fits tb te ph")
      case True
      then obtain u where u: "load_headers pf me tb te sb ev (Some ph # phs) e s =
          load_headers pf me tb te sb ev phs (if entry_home ev ph then Some (ev - ph_virtual_addr ph + tb) else e)
            (copy_nonoverlapping (ph_offset ph + sb) (ph_physical_addr ph + tb) (ph_file_size ph) u)"
        using load_headers_segment[of ph tb te] by metis
      show ?thesis unfolding Some u Cons.IH using True
        by (cases "filter (entry_home ev) (load_segments phs)") simp_all
    next
      case False
      then show ?thesis using Some Cons.IH[of e s] by (auto simp: segment_fits_def)
    qed
  qed simp
qed simp

text \<open>RAM after a segment was copied, and after all those that were copied.\<close>

definition placed :: "u64 \<Rightarrow> u64 \<Rightarrow> ProgramHeader \<Rightarrow> (usize \<Rightarrow> 8 word) \<Rightarrow> usize \<Rightarrow> 8 word" where
  "placed tb sb ph m a = (let i = a - (ph_physical_addr ph + tb)
     in if i < ph_file_size ph then m (ph_offset ph + sb + i) else m a)"

lemma copy_placed:
  "ram (copy_nonoverlapping (ph_offset ph + sb) (ph_physical_addr ph + tb) (ph_file_size ph) s) = placed tb sb ph (ram s)"
  by (simp add: copy_nonoverlapping_def placed_def Let_def fun_eq_iff)

lemma load_headers_ram:
  "ram (snd (load_headers pf me tb te sb ev phs e s)) =
     fold (placed tb sb) (takeWhile (segment_fits tb te) (load_segments phs)) (ram s)"
proof (induction phs arbitrary: e s)
  case (Cons h phs)
  show ?case
  proof (cases h)
    case (Some ph)
    show ?thesis
    proof (cases "ph_is_load ph \<and> segment_fits tb te ph")
      case True
      then obtain u where u: "ram u = ram s" "load_headers pf me tb te sb ev (Some ph # phs) e s =
          load_headers pf me tb te sb ev phs (if entry_home ev ph then Some (ev - ph_virtual_addr ph + tb) else e)
            (copy_nonoverlapping (ph_offset ph + sb) (ph_physical_addr ph + tb) (ph_file_size ph) u)"
        using load_headers_segment[of ph tb te] by metis
      show ?thesis unfolding Some u(2) Cons.IH using True u(1) by (simp add: copy_placed)
    next
      case False
      then show ?thesis using Some Cons.IH[of e s] by (auto simp: segment_fits_def)
    qed
  qed simp
qed simp

lemma fold_placed_outside:
  assumes "region_ok target" and "list_all (segment_ok target) phs" and "unat a \<notin> region_bytes target"
  shows "fold (placed (rgn_base target) sb) phs m a = m a"
  using assms(2)
proof (induction phs arbitrary: m)
  case (Cons ph phs)
  then show ?case
    using copy_outside[OF assms(1) _ assms(3), of ph "ph_offset ph + sb" "undefined\<lparr>ram := m\<rparr>"]
    by (simp add: copy_placed)
qed simp

lemma fold_placed_missed:
  "list_all (\<lambda>q. \<not> a - (ph_physical_addr q + tb) < ph_file_size q) phs \<Longrightarrow> fold (placed tb sb) phs m a = m a"
  by (induction phs arbitrary: m) (simp_all add: placed_def)

text \<open>A byte of a segment arrives if the binary is outside the target and no later segment covers it.\<close>

lemma fold_placed_arrives:
  assumes "region_ok target" and "list_all (segment_ok target) xs" and "i < ph_file_size ph"
    and "unat (ph_offset ph + sb + i) \<notin> region_bytes target"
    and "list_all (\<lambda>q. \<not> ph_physical_addr ph + i - ph_physical_addr q < ph_file_size q) ys"
  shows "fold (placed (rgn_base target) sb) (xs @ ph # ys) m (ph_physical_addr ph + rgn_base target + i) =
    m (ph_offset ph + sb + i)"
proof -
  let ?a = "ph_physical_addr ph + rgn_base target + i"
  have "?a - (ph_physical_addr q + rgn_base target) = ph_physical_addr ph + i - ph_physical_addr q"
    for q :: ProgramHeader by simp
  then have "fold (placed (rgn_base target) sb) ys m' ?a = m' ?a" for m'
    using assms(5) by (intro fold_placed_missed) (simp only:)
  then show ?thesis
    using assms(3) fold_placed_outside[OF assms(1,2,4)] by (simp add: placed_def)
qed

lemma load_segments_ok:
  "binary_ok target elf \<Longrightarrow> list_all (segment_ok target) (load_segments (program_headers elf))"
  by (auto simp: binary_ok_def load_segments_def list_all_iff dest!: set_takeWhileD)

section \<open>Properties\<close>



text \<open>C37: the size check looks at the file offset and memory size of a segment, not at the address the
  segment is copied to: a segment that passes it is copied to any physical address it asks for,
  inside the target or not.\<close>

theorem load_escapes_target:
  assumes "parse_elf pf (ram_slice (ram s) (rgn_base source) (rgn_size source)) =
      Inl \<lparr>entry_point = ev, program_headers = [Some ph]\<rparr>" and "ph_is_load ph"
    and "rgn_base target + ph_offset ph + ph_mem_size ph \<le> Region_end target"
    and "i < ph_file_size ph"
  shows "ram (snd (load pf me target source s)) (ph_physical_addr ph + rgn_base target + i)
    = ram s (ph_offset ph + rgn_base source + i)"
proof -
  obtain u e where lh: "load_headers pf me (rgn_base target) (Region_end target) (rgn_base source) ev [Some ph] None s =
      (Ok e, copy_nonoverlapping (ph_offset ph + rgn_base source) (ph_physical_addr ph + rgn_base target)
        (ph_file_size ph) u)" and u: "ram u = ram s"
    using assms(2,3) by (simp add: Let_def not_less)
  have "ram (snd (load pf me target source s)) = ram (snd (load_headers pf me (rgn_base target)
      (Region_end target) (rgn_base source) ev [Some ph] None s))"
    by (simp add: load_def assms(1) lh del: load_headers.simps split: option.splits)
  then show ?thesis using copy_hit[OF assms(4), where s = u] u by (simp only: lh snd_conv)
qed

theorem load_escapes_target_witness:
  "ram (snd (load (example_platform\<lparr>parse_elf := (\<lambda>_. Inl \<lparr>entry_point = 0x1000, program_headers =
       [Some \<lparr>ph_is_load = True, ph_offset = 0, ph_virtual_addr = 0x1000, ph_physical_addr = 0x10000000,
         ph_file_size = 8, ph_mem_size = 16\<rparr>]\<rparr>)\<rparr>) 0 example_region
     \<lparr>rgn_base = 0x70000000, rgn_size = 8\<rparr> (blank_hv\<lparr>ram := (\<lambda>a. if a = 0x70000000 then 7 else 0)\<rparr>))) 0x90000000 = 7
   \<and> unat (0x90000000 :: usize) \<notin> region_bytes example_region"
  using load_escapes_target[of "example_platform\<lparr>parse_elf := (\<lambda>_. Inl \<lparr>entry_point = 0x1000, program_headers =
       [Some \<lparr>ph_is_load = True, ph_offset = 0, ph_virtual_addr = 0x1000, ph_physical_addr = 0x10000000,
         ph_file_size = 8, ph_mem_size = 16\<rparr>]\<rparr>)\<rparr>" "blank_hv\<lparr>ram := (\<lambda>a. if a = 0x70000000 then 7 else 0)\<rparr>"
      "\<lparr>rgn_base = 0x70000000, rgn_size = 8\<rparr>" _ _ example_region 0 0]
  by (simp add: example_region_def Region_end_def region_bytes_def bytes_def)

end
