(* ===== verification/Hv_Boot.thy ===== *)
theory Hv_Boot
  imports Hv_Loader
begin

text \<open>
  Starting the system, \<^verbatim>\<open>src/hypervisor/main.rs\<close>, with the creation of the boot capsule
  (\<open>create_boot_capsule\<close> of \<^verbatim>\<open>capsule.rs\<close>) and the registration of the host's RAM (\<open>init\<close> of \<^verbatim>\<open>physmem.rs\<close>) as
  they act on the whole state.
\<close>

text \<open>Rust's \<open>?\<close>: an error ends the function.\<close>

definition and_then :: "'a result \<times> 't \<Rightarrow> ('a \<Rightarrow> 't \<Rightarrow> 'b result \<times> 't) \<Rightarrow> 'b result \<times> 't" where
  "and_then p f = (case p of (Ok a, s) \<Rightarrow> f a s | (Err e, s) \<Rightarrow> (Err e, s))"

lemma and_then_simps [simp]:
  "and_then (Ok a, s) f = f a s"
  "and_then (Err e, s) f = (Err e, s)"
  by (simp_all add: and_then_def)

lemma and_then_Ok: "and_then p f = (Ok b, t) \<longleftrightarrow> (\<exists>a s. p = (Ok a, s) \<and> f a s = (Ok b, t))"
  by (cases p; cases "fst p") (auto simp: and_then_def)

section \<open>Registering the host's RAM\<close>

fun log_sections :: "('s, 'c) Platform \<Rightarrow> usize \<Rightarrow> RAMArea list \<Rightarrow> ('s, 'c) hv \<Rightarrow> ('s, 'c) hv" where
  "log_sections pf me [] s = s"
| "log_sections pf me (a # as) s =
     log_sections pf me as (hvdebug pf me ''Enabling RAM region 0x{:x}, size {} MB''
       [hex (area_base a), dec (area_size a div 1024 div 1024)] s)"

definition physmem_startup :: "('s, 'c) Platform \<Rightarrow> usize \<Rightarrow> ('s, 'c) hv \<Rightarrow> unit result \<times> ('s, 'c) hv" where
  "physmem_startup pf me s =
     (case get_nr_cpu_cores me s of
        (None, s1) \<Rightarrow> (Err PhysicalCoreCountUnknown, s1)
      | (Some n, s1) \<Rightarrow>
          (case get_phys_ram_chunks me s1 of
             (None, s2) \<Rightarrow> (Err PhysNoRAMFound, s2)
           | (Some cs, s2) \<Rightarrow>
               (case physmem_init (validate_ram pf) (Some n) (Some cs) (REGIONS s2) of
                  (r, R) \<Rightarrow>
                    (r, log_sections pf me (concat (map (validate_ram pf n) cs)) (s2\<lparr>REGIONS := R\<rparr>)))))"

section \<open>The boot capsule\<close>

fun add_vcores :: "('s, 'c) Platform \<Rightarrow> usize \<Rightarrow> usize \<Rightarrow> usize list \<Rightarrow> ('s, 'c) hv \<Rightarrow> unit result \<times> ('s, 'c) hv" where
  "add_vcores pf capid entry [] s = (Ok (), s)"
| "add_vcores pf capid entry (vid # vs) s =
     and_then (create_and_add_vcore pf capid vid entry High s) (\<lambda>_. add_vcores pf capid entry vs)"

definition create_boot_capsule :: "('s, 'c) Platform \<Rightarrow> usize \<Rightarrow> ('s, 'c) hv \<Rightarrow> unit result \<times> ('s, 'c) hv" where
  "create_boot_capsule pf me s =
     and_then (create pf me True s) (\<lambda>capid s1.
       (let size = 128 * 1024 * 1024; cpus = [0] in
        and_then (case alloc_region (REGIONS s1) size of (r, R) \<Rightarrow> (r, s1\<lparr>REGIONS := R\<rparr>)) (\<lambda>region s2.
          (case identity_mapping (set_physical Mapping_new region) of
             (Err e, _) \<Rightarrow> (Err e, s2)
           | (Ok _, mapping) \<Rightarrow>
               and_then (map_memory capid mapping s2) (\<lambda>_ s3.
                 and_then (load pf me region (boot_supervisor (boot_supervisor_area pf)) s3) (\<lambda>entry s4.
                   add_vcores pf capid entry cpus s4))))))"

section \<open>The main function\<close>

primrec cause_debug :: "Cause \<Rightarrow> string" where
  "cause_debug NotImplemented = ''NotImplemented''"
| "cause_debug DeviceTreeBad = ''DeviceTreeBad''"
| "cause_debug PhysicalCoreBadID = ''PhysicalCoreBadID''"
| "cause_debug PhysicalCoreCountUnknown = ''PhysicalCoreCountUnknown''"
| "cause_debug ServiceAlreadyRegistered = ''ServiceAlreadyRegistered''"
| "cause_debug ServiceNotAllowed = ''ServiceNotAllowed''"
| "cause_debug ServiceNotFound = ''ServiceNotFound''"
| "cause_debug MessageBadType = ''MessageBadType''"
| "cause_debug HeapNotInUse = ''HeapNotInUse''"
| "cause_debug HeapBadBlock = ''HeapBadBlock''"
| "cause_debug HeapNoFreeMem = ''HeapNoFreeMem''"
| "cause_debug HeapBadSize = ''HeapBadSize''"
| "cause_debug PhysNoRAMFound = ''PhysNoRAMFound''"
| "cause_debug PhysNotEnoughFreeRAM = ''PhysNotEnoughFreeRAM''"
| "cause_debug PhysRegionCollision = ''PhysRegionCollision''"
| "cause_debug PhysRegionNoMatch = ''PhysRegionNoMatch''"
| "cause_debug PhysRegionSplitOutOfBounds = ''PhysRegionSplitOutOfBounds''"
| "cause_debug VirtMemPhysNotSet = ''VirtMemPhysNotSet''"
| "cause_debug CapsuleIDExhaustion = ''CapsuleIDExhaustion''"
| "cause_debug CapsuleBadID = ''CapsuleBadID''"
| "cause_debug SchedNoTimer = ''SchedNoTimer''"
| "cause_debug LoaderSupervisorTooLarge = ''LoaderSupervisorTooLarge''"
| "cause_debug LoaderUnrecognizedSupervisor = ''LoaderUnrecognizedSupervisor''"
| "cause_debug LoaderBadEntry = ''LoaderBadEntry''"

text \<open>The number of cores is only looked up when the debug line is compiled in.\<close>

definition announce_cores :: "('s, 'c) Platform \<Rightarrow> usize \<Rightarrow> ('s, 'c) hv \<Rightarrow> ('s, 'c) hv" where
  "announce_cores pf me s =
     (if debug_assertions pf
      then case get_nr_cpu_cores me s of
             (n, s') \<Rightarrow> hvdebug pf me ''Debugging enabled, {} CPU cores found''
               [dec (case n of Some c \<Rightarrow> c | None \<Rightarrow> 0)] s'
      else s)"

text \<open>What the boot core does before it lets the other cores continue.\<close>

definition boot_setup :: "('s, 'c) Platform \<Rightarrow> usize \<Rightarrow> 8 word list \<Rightarrow> ('s, 'c) hv \<Rightarrow> unit result \<times> ('s, 'c) hv" where
  "boot_setup pf me dtb s =
     and_then (parse_and_init pf dtb s) (\<lambda>_ s1.
     and_then (physmem_startup pf me s1) (\<lambda>_ s2.
     and_then (create_boot_capsule pf me
       (announce_cores pf me (hvlog me ''Welcome to {} {}'' [''diosix'', ''2.0.0''] s2))) (\<lambda>_ s3.
     (Ok (), s3\<lparr>INIT_DONE := True\<rparr>))))"

text \<open>\<open>None\<close>: the core waits for ever for \<open>INIT_DONE\<close>.\<close>

definition hvmain ::
  "('s, 'c) Platform \<Rightarrow> usize \<Rightarrow> usize \<Rightarrow> 8 word list \<Rightarrow> ('s, 'c) hv \<Rightarrow> (unit result \<times> ('s, 'c) hv) option" where
  "hvmain pf me cpu_nr dtb s =
     (let s1 = PhysicalCore_init pf me cpu_nr s;
          finish = (\<lambda>_ s2. scheduler_start me
            (hvdebug pf me ''Physical CPU core {:?} ready to roll'' [cpu_describe pf me] s2))
      in if cpu_nr = BOOT_PCORE_ID then Some (and_then (boot_setup pf me dtb s1) finish)
         else if INIT_DONE s1 then Some (finish () s1) else None)"

definition hventry ::
  "('s, 'c) Platform \<Rightarrow> usize \<Rightarrow> usize \<Rightarrow> 8 word list \<Rightarrow> ('s, 'c) hv \<Rightarrow> ('s, 'c) hv option" where
  "hventry pf me cpu_nr dtb s =
     (case hvmain pf me cpu_nr dtb s of
        None \<Rightarrow> None
      | Some (Err e, s') \<Rightarrow> Some (hvalert me ''hvmain bailed out with error: {:?}'' [cause_debug e] s')
      | Some (Ok _, s') \<Rightarrow> Some s')"

section \<open>The outcomes of creating the boot capsule\<close>

definition boot_capsule :: "Region \<Rightarrow> Capsule" where
  "boot_capsule r = \<lparr>restart = True, vcores = {0},
     memory = [\<lparr>virtual_base = Some (rgn_base r), physical_region = Some r\<rparr>], allowed_services = {}\<rparr>"

definition boot_vcore :: "('s, 'c) Platform \<Rightarrow> usize \<Rightarrow> usize \<Rightarrow> 's VirtualCore" where
  "boot_vcore pf cid entry = \<lparr>vc_id = \<lparr>capsuleid = cid, vcoreid = 0\<rparr>, vc_priority = High,
     vc_state = supervisor_state_from pf entry\<rparr>"

text \<open>The state when the capsule has its RAM, before anything is loaded.\<close>

definition with_boot_ram :: "usize \<Rightarrow> Region \<Rightarrow> SortedRegions \<Rightarrow> ('s, 'c) hv \<Rightarrow> ('s, 'c) hv" where
  "with_boot_ram cid r R s = s\<lparr>CAPSULE_ID_NEXT := cid, REGIONS := R,
     CAPSULES := (CAPSULES s)(cid \<mapsto> (boot_capsule r)\<lparr>vcores := {}\<rparr>)\<rparr>"

lemma create_boot_capsule_cases:
  assumes "iteration_ok pf"
  obtains (exhausted) "\<forall>i. CAPSULES s i \<noteq> None"
      "create_boot_capsule pf me s =
        (Err CapsuleIDExhaustion, hvdebug pf me ''Tearing down capsule'' [] (s\<lparr>CAPSULE_ID_NEXT := 0\<rparr>))"
  | (no_memory) cid c where "CAPSULES s cid = None" "memory c = []"
      "alloc_region (REGIONS s) 0x8000000 = (Err PhysNotEnoughFreeRAM, REGIONS s)"
      "create_boot_capsule pf me s = (Err PhysNotEnoughFreeRAM,
         s\<lparr>CAPSULE_ID_NEXT := cid, CAPSULES := (CAPSULES s)(cid \<mapsto> c)\<rparr>)"
  | (not_loaded) cid r R e t where "CAPSULES s cid = None" "alloc_region (REGIONS s) 0x8000000 = (Ok r, R)"
      "load pf me r (boot_supervisor (boot_supervisor_area pf)) (with_boot_ram cid r R s) = (Err e, t)"
      "create_boot_capsule pf me s = (Err e, t)"
  | (loaded) cid r R entry u where "CAPSULES s cid = None" "alloc_region (REGIONS s) 0x8000000 = (Ok r, R)"
      "load pf me r (boot_supervisor (boot_supervisor_area pf)) (with_boot_ram cid r R s) = (Ok entry, u)"
      "create_boot_capsule pf me s = (Ok (), u\<lparr>CAPSULES := (CAPSULES s)(cid \<mapsto> boot_capsule r),
         GLOBAL_QUEUES := ScheduleQueues_queue (GLOBAL_QUEUES s) (boot_vcore pf cid entry)\<rparr>)"
using assms
proof (cases rule: create_cases[of pf me True s])
  case exhausted
  then show ?thesis using that(1) by (simp add: create_boot_capsule_def)
next
  case (created cid c)
  let ?s1 = "s\<lparr>CAPSULE_ID_NEXT := cid, CAPSULES := (CAPSULES s)(cid \<mapsto> c)\<rparr>"
  obtain ar R where al: "alloc_region (REGIONS s) 0x8000000 = (ar, R)" by fastforce
  show ?thesis
  proof (cases ar)
    case (Err e)
    with al have "e = PhysNotEnoughFreeRAM" "R = REGIONS s" using alloc_region_Err by auto
    with created al Err show ?thesis using that(2)[of cid c] by (simp add: create_boot_capsule_def Let_def)
  next
    case (Ok r)
    have m: "map_memory cid \<lparr>virtual_base = Some (rgn_base r), physical_region = Some r\<rparr> (?s1\<lparr>REGIONS := R\<rparr>)
      = (Ok (), with_boot_ram cid r R s)"
      using created(3) by (simp add: map_memory_def with_boot_ram_def boot_capsule_def set_memory_mapping_def)
    have i: "identity_mapping (set_physical Mapping_new r)
      = (Ok (), \<lparr>virtual_base = Some (rgn_base r), physical_region = Some r\<rparr>)"
      by (simp add: identity_mapping_def set_physical_def Mapping_new_def)
    obtain lr u where l: "load pf me r (boot_supervisor (boot_supervisor_area pf)) (with_boot_ram cid r R s) = (lr, u)"
      by fastforce
    have cb: "create_boot_capsule pf me s = and_then (lr, u) (\<lambda>entry s4. add_vcores pf cid entry [0] s4)"
      using created(1) al Ok i m l by (simp add: create_boot_capsule_def Let_def del: add_vcores.simps)
    show ?thesis
    proof (cases lr)
      case (Err e)
      then show ?thesis using that(3)[OF created(2)] al Ok l cb by simp
    next
      case (Ok entry)
      have "no_ram u = no_ram (with_boot_ram cid r R s)"
        using load_no_ram[of pf me r _ "with_boot_ram cid r R s"] l by (metis snd_conv)
      note f = no_ram_fields[OF this]
      have "add_vcores pf cid entry [0] u = (Ok (), u\<lparr>CAPSULES := (CAPSULES s)(cid \<mapsto> boot_capsule r),
         GLOBAL_QUEUES := ScheduleQueues_queue (GLOBAL_QUEUES s) (boot_vcore pf cid entry)\<rparr>)"
        using f by (simp add: create_and_add_vcore_def VirtualCore_create_def scheduler_queue_def boot_vcore_def
            with_boot_ram_def boot_capsule_def add_vcore_def)
      then show ?thesis using that(4)[OF created(2)] al \<open>ar = Ok r\<close> l cb Ok by simp
    qed
  qed
qed

lemma with_boot_ram_inv:
  assumes "memory_inv s" and "CAPSULES s cid = None" and "alloc_region (REGIONS s) n = (Ok r, R)"
  shows "memory_inv (with_boot_ram cid r R s)"
proof -
  let ?c = "(boot_capsule r)\<lparr>vcores := {}, memory := []\<rparr>"
  let ?s = "s\<lparr>CAPSULE_ID_NEXT := cid, CAPSULES := (CAPSULES s)(cid \<mapsto> ?c)\<rparr>"
  have "memory_inv ?s" by (rule memory_inv_new[OF assms(1,2)]) simp
  then have "memory_inv (snd (map_memory cid \<lparr>virtual_base = Some (rgn_base r), physical_region = Some r\<rparr>
      (?s\<lparr>REGIONS := R\<rparr>)))"
    by (rule alloc_map_memory[where c = ?c and n = n]) (simp_all add: assms(3) get_physical_def)
  then show ?thesis
    by (simp add: map_memory_def set_memory_mapping_def with_boot_ram_def boot_capsule_def)
qed

lemma boot_region_size:
  assumes "alloc_region R 0x8000000 = (Ok r, R')" and "regions_inv R"
  shows "rgn_size r = 0x8000000" "region_ok r" "region_bytes r \<subseteq> free_bytes R"
proof -
  have "adjusted_size 0x8000000 = 0x8000000" by code_simp
  then show "rgn_size r = 0x8000000" "region_ok r" "region_bytes r \<subseteq> free_bytes R"
    using alloc_region_law[OF assms(2,1)] by simp_all
qed

lemma create_boot_capsule_frame:
  assumes "iteration_ok pf"
  shows "SERVICES (snd (create_boot_capsule pf me s)) = SERVICES s"
  "MAILBOXES (snd (create_boot_capsule pf me s)) = MAILBOXES s"
  "WORKLOAD (snd (create_boot_capsule pf me s)) = WORKLOAD s"
  "VCORES (snd (create_boot_capsule pf me s)) = VCORES s"
  "PCORES (snd (create_boot_capsule pf me s)) = PCORES s"
  "HARDWARE (snd (create_boot_capsule pf me s)) = HARDWARE s"
  "INIT_DONE (snd (create_boot_capsule pf me s)) = INIT_DONE s"
  "cores (snd (create_boot_capsule pf me s)) = cores s"
  "HW_LOCK (snd (create_boot_capsule pf me s)) = HW_LOCK s"
proof -
  let ?P = "\<lambda>t. SERVICES t = SERVICES s \<and> MAILBOXES t = MAILBOXES s \<and> WORKLOAD t = WORKLOAD s \<and> VCORES t = VCORES s
    \<and> PCORES t = PCORES s \<and> HARDWARE t = HARDWARE s \<and> INIT_DONE t = INIT_DONE s \<and> cores t = cores s
    \<and> HW_LOCK t = HW_LOCK s"
  have l: "?P (snd (load pf me r src (with_boot_ram cid r R s)))" for cid r R src
    using no_ram_fields[OF load_no_ram[of pf me r src "with_boot_ram cid r R s"]]
      load_lock[of pf me r src "with_boot_ram cid r R s"] by (simp add: with_boot_ram_def)
  have "?P (snd (create_boot_capsule pf me s))"
  using assms
  proof (cases rule: create_boot_capsule_cases[where pf = pf and me = me and s = s])
    case (not_loaded cid r R e t)
    then show ?thesis using l[of r _ cid R] by (metis snd_conv)
  next
    case (loaded cid r R entry u)
    then have "?P u" using l[of r _ cid R] by (metis snd_conv)
    then show ?thesis using loaded by simp
  qed simp_all
  then show "SERVICES (snd (create_boot_capsule pf me s)) = SERVICES s"
    "MAILBOXES (snd (create_boot_capsule pf me s)) = MAILBOXES s"
    "WORKLOAD (snd (create_boot_capsule pf me s)) = WORKLOAD s"
    "VCORES (snd (create_boot_capsule pf me s)) = VCORES s"
    "PCORES (snd (create_boot_capsule pf me s)) = PCORES s"
    "HARDWARE (snd (create_boot_capsule pf me s)) = HARDWARE s"
    "INIT_DONE (snd (create_boot_capsule pf me s)) = INIT_DONE s"
    "cores (snd (create_boot_capsule pf me s)) = cores s"
    "HW_LOCK (snd (create_boot_capsule pf me s)) = HW_LOCK s" by simp_all
qed

lemma create_boot_capsule_inv:
  assumes "memory_inv s" and it: "iteration_ok pf"
  shows "memory_inv (snd (create_boot_capsule pf me s))"
using it
proof (cases rule: create_boot_capsule_cases[where pf = pf and me = me and s = s])
  case exhausted
  then show ?thesis using assms by (simp add: memory_inv_def)
next
  case (no_memory cid c)
  then show ?thesis using memory_inv_new[OF assms(1) no_memory(1,2)] by simp
next
  case (not_loaded cid r R e t)
  have "memory_inv t \<longleftrightarrow> memory_inv (with_boot_ram cid r R s)"
    using no_ram_fields(1,3)[OF load_no_ram[of pf me r _ "with_boot_ram cid r R s"]] not_loaded(3)
    by (intro memory_inv_cong) (metis snd_conv)+
  then show ?thesis using with_boot_ram_inv[OF assms(1) not_loaded(1,2)] not_loaded(4) by simp
next
  case (loaded cid r R entry u)
  let ?w = "with_boot_ram cid r R s"
  have u: "REGIONS u = REGIONS ?w"
    using no_ram_fields(1)[OF load_no_ram[of pf me r _ ?w]] loaded(3) by (metis snd_conv)
  have "memory_inv (?w\<lparr>CAPSULES := (CAPSULES ?w)(cid \<mapsto> boot_capsule r)\<rparr>)"
    by (rule memory_inv_update[OF with_boot_ram_inv[OF assms(1) loaded(1,2)], where c = "(boot_capsule r)\<lparr>vcores := {}\<rparr>"])
      (simp_all add: with_boot_ram_def)
  moreover have "memory_inv (snd (create_boot_capsule pf me s)) \<longleftrightarrow>
      memory_inv (?w\<lparr>CAPSULES := (CAPSULES ?w)(cid \<mapsto> boot_capsule r)\<rparr>)"
    unfolding loaded(4) by (rule memory_inv_cong) (simp_all add: u with_boot_ram_def)
  ultimately show ?thesis by simp
qed

section \<open>From power-on to a running system\<close>

text \<open>The areas of RAM the platform reports for a device tree do not overlap and do not wrap.\<close>

definition host_areas :: "('s, 'c) Platform \<Rightarrow> Devices \<Rightarrow> Region list" where
  "host_areas pf d = map area_region (concat (map (validate_ram pf (dev_nr_cpu_cores d)) (dev_phys_ram_areas d)))"

definition host_ram_ok :: "('s, 'c) Platform \<Rightarrow> 8 word list \<Rightarrow> bool" where
  "host_ram_ok pf dtb \<longleftrightarrow>
     (case parse_devices pf dtb of
        None \<Rightarrow> True
      | Some d \<Rightarrow> sorted_wrt apart (host_areas pf d) \<and> list_all region_ok (host_areas pf d))"

text \<open>What is assumed of the platform and the device tree for the system to run.\<close>

definition machine_ok :: "('s, 'c) Platform \<Rightarrow> 8 word list \<Rightarrow> bool" where
  "machine_ok pf dtb \<longleftrightarrow> iteration_ok pf \<and> host_ram_ok pf dtb"

lemma log_sections_essence [simp]: "essence (log_sections pf me as s) = essence s"
  and log_sections_lock [simp]: "HW_LOCK (log_sections pf me as s) = HW_LOCK s"
  by (induction as arbitrary: s) simp_all

text \<open>The free list after the areas have been registered one by one.\<close>

definition host_pool :: "('s, 'c) Platform \<Rightarrow> Devices \<Rightarrow> SortedRegions" where
  "host_pool pf d = give_back dealloc_region SortedRegions_new (host_areas pf d)"

lemma physmem_startup_Ok:
  assumes "HARDWARE s = Some d" and "\<not> held (HW_LOCK s)" and "REGIONS s = SortedRegions_new"
    and "sorted_wrt apart (host_areas pf d)" and "list_all region_ok (host_areas pf d)"
  shows "\<exists>t R. physmem_startup pf me s = (Ok (), t) \<and> essence t = essence (s\<lparr>REGIONS := R\<rparr>)
    \<and> R = host_pool pf d \<and> \<not> held (HW_LOCK t) \<and> regions_inv R \<and> free_bytes R = held_bytes (host_areas pf d)
    \<and> (\<forall>a\<in>set (host_areas pf d). rgn_size a \<noteq> 0 \<longrightarrow> a \<in> set (regions R))"
proof -
  have "holds (host_areas pf d @ []) (free_bytes SortedRegions_new)"
    using assms(4,5) by (simp add: holds_def list_all_iff)
  note law = regions_pool.give_back_all[OF SortedRegions_new_law(1) this]
    give_back_regions[OF SortedRegions_new_law(1) this]
  let ?R = "give_back dealloc_region SortedRegions_new (host_areas pf d)"
  obtain l where "physmem_startup pf me s = (Ok (), log_sections pf me
      (concat (map (validate_ram pf (dev_nr_cpu_cores d)) (dev_phys_ram_areas d))) (s\<lparr>HW_LOCK := l, REGIONS := ?R\<rparr>))"
    and "\<not> held l"
    using assms(1-3)
    by (simp add: physmem_startup_def get_nr_cpu_cores_def get_phys_ram_chunks_def with_hardware_free
        physmem_init_def init_chunks_concat init_sections_give_back host_areas_def)
  moreover have "essence (s\<lparr>HW_LOCK := l, REGIONS := ?R\<rparr>) = essence (s\<lparr>REGIONS := ?R\<rparr>)"
    by (simp add: essence_def)
  moreover have "?R = host_pool pf d" by (simp add: host_pool_def)
  ultimately show ?thesis using law by fastforce
qed

lemma announce_cores_essence [simp]: "essence (announce_cores pf me s) = essence s"
  and announce_cores_lock: "\<not> held (HW_LOCK s) \<Longrightarrow> \<not> held (HW_LOCK (announce_cores pf me s))"
proof -
  obtain n s' where n: "get_nr_cpu_cores me s = (n, s')" by fastforce
  then have "essence s' = essence s" using hardware_query_essence(1)[of me s] by (metis snd_conv)
  with n show "essence (announce_cores pf me s) = essence s" by (simp add: announce_cores_def)
  assume "\<not> held (HW_LOCK s)"
  then have "\<not> held (HW_LOCK s')" using lock_stays_free(4)[of s me] n by simp
  with n \<open>\<not> held (HW_LOCK s)\<close> show "\<not> held (HW_LOCK (announce_cores pf me s))" by (simp add: announce_cores_def)
qed

text \<open>The state of a core that has just been initialised, on a machine that has just been switched on.\<close>

lemma init_fields [simp]:
  "REGIONS (PhysicalCore_init pf me i s) = REGIONS s" "CAPSULES (PhysicalCore_init pf me i s) = CAPSULES s"
  "SERVICES (PhysicalCore_init pf me i s) = SERVICES s" "VCORES (PhysicalCore_init pf me i s) = VCORES s"
  "GLOBAL_QUEUES (PhysicalCore_init pf me i s) = GLOBAL_QUEUES s" "HARDWARE (PhysicalCore_init pf me i s) = HARDWARE s"
  "HW_LOCK (PhysicalCore_init pf me i s) = HW_LOCK s" "INIT_DONE (PhysicalCore_init pf me i s) = INIT_DONE s"
  "WORKLOAD (PhysicalCore_init pf me i s) = WORKLOAD s"
  "MAILBOXES (PhysicalCore_init pf me i s) = (MAILBOXES s)(i \<mapsto> [])" "ram (PhysicalCore_init pf me i s) = ram s"
  by (simp_all add: PhysicalCore_init_def create_mailbox_def split: prod.splits)

lemma start_fields [simp]:
  "REGIONS (hv_start ks m) = SortedRegions_new" "CAPSULES (hv_start ks m) = Map.empty"
  "SERVICES (hv_start ks m) = Map.empty" "VCORES (hv_start ks m) = Map.empty"
  "GLOBAL_QUEUES (hv_start ks m) = ScheduleQueues_new" "HARDWARE (hv_start ks m) = None"
  "\<not> held (HW_LOCK (hv_start ks m))" "\<not> INIT_DONE (hv_start ks m)" "ram (hv_start ks m) = m"
  by (simp_all add: hv_start_def)

definition booted :: "('s, 'c) Platform \<Rightarrow> Devices \<Rightarrow> ('s, 'c) hv \<Rightarrow> bool" where
  "booted pf d t \<longleftrightarrow> INIT_DONE t \<and> HARDWARE t = Some d \<and> \<not> held (HW_LOCK t) \<and>
     (\<exists>cid r entry. CAPSULES t = [cid \<mapsto> boot_capsule r] \<and> rgn_size r = 0x8000000 \<and> region_ok r
        \<and> region_bytes r \<subseteq> held_bytes (host_areas pf d)
        \<and> alloc_region (host_pool pf d) 0x8000000 = (Ok r, REGIONS t)
        \<and> free_bytes (REGIONS t) = held_bytes (host_areas pf d) - region_bytes r
        \<and> GLOBAL_QUEUES t = ScheduleQueues_queue ScheduleQueues_new (boot_vcore pf cid entry))"

text \<open>The boot can succeed: the device tree is readable, some area has 128 MiB, and the supervisor binary
  in RAM can be loaded into any area of that size.\<close>

definition boot_possible :: "('s, 'c) Platform \<Rightarrow> usize \<Rightarrow> 8 word list \<Rightarrow> (usize \<Rightarrow> 8 word) \<Rightarrow> bool" where
  "boot_possible pf me dtb m \<longleftrightarrow>
     (\<exists>d. parse_devices pf dtb = Some d \<and> (\<exists>a\<in>set (host_areas pf d). 0x8000000 \<le> rgn_size a))
     \<and> (\<forall>r (s :: ('s, 'c) hv). rgn_size r = 0x8000000 \<and> region_ok r \<and> region_bytes r \<subseteq>
            held_bytes (concat (map (host_areas pf) (case parse_devices pf dtb of None \<Rightarrow> [] | Some d \<Rightarrow> [d])))
          \<and> ram s = m \<longrightarrow> is_ok (fst (load pf me r (boot_supervisor (boot_supervisor_area pf)) s)))"

lemma boot_setup_result:
  assumes ok: "machine_ok pf dtb" and s: "s = PhysicalCore_init pf me BOOT_PCORE_ID (hv_start ks m)"
    and "boot_setup pf me dtb s = (r, t)"
  shows "memory_inv t \<and> VCORES t = Map.empty \<and> SERVICES t = Map.empty \<and> cores t = cores s
    \<and> (if r = Ok () then \<exists>d. parse_devices pf dtb = Some d \<and> booted pf d t
       else \<not> INIT_DONE t \<and> GLOBAL_QUEUES t = ScheduleQueues_new)
    \<and> (boot_possible pf me dtb m \<longrightarrow> r = Ok ())"
proof (cases "parse_devices pf dtb")
  case None
  then show ?thesis using assms(3) s
    by (auto simp: boot_setup_def parse_and_init_def memory_inv_def boot_possible_def)
next
  case (Some d)
  let ?s1 = "s\<lparr>HARDWARE := Some d\<rparr>"
  have it: "iteration_ok pf" using ok by (simp add: machine_ok_def)
  have p: "parse_and_init pf dtb s = (Ok (), ?s1)" using Some by (simp add: parse_and_init_def)
  obtain s2 R where s2: "physmem_startup pf me ?s1 = (Ok (), s2)" "essence s2 = essence (?s1\<lparr>REGIONS := R\<rparr>)"
    "\<not> held (HW_LOCK s2)" "regions_inv R" "free_bytes R = held_bytes (host_areas pf d)"
    "\<forall>a\<in>set (host_areas pf d). rgn_size a \<noteq> 0 \<longrightarrow> a \<in> set (regions R)" "R = host_pool pf d"
    using physmem_startup_Ok[of ?s1 d pf me] ok Some s by (auto simp: machine_ok_def host_ram_ok_def)
  define s3 where "s3 = announce_cores pf me (hvlog me ''Welcome to {} {}'' [''diosix'', ''2.0.0''] s2)"
  have e3: "essence s3 = essence (?s1\<lparr>REGIONS := R\<rparr>)" using s2(2) by (simp add: s3_def)
  note f3 = essence_fields[OF e3]
  have l3: "\<not> held (HW_LOCK s3)" unfolding s3_def by (rule announce_cores_lock) (simp add: s2(3))
  have m3: "memory_inv s3" using f3 s2(4) s by (simp add: memory_inv_def)
  obtain r' s4 where c: "create_boot_capsule pf me s3 = (r', s4)" by fastforce
  have bs: "boot_setup pf me dtb s = and_then (r', s4) (\<lambda>_ s3. (Ok (), s3\<lparr>INIT_DONE := True\<rparr>))"
    using p s2(1) c by (simp add: boot_setup_def s3_def)
  have m4: "memory_inv s4" using create_boot_capsule_inv[OF m3 it, of me] c by simp
  note fr = create_boot_capsule_frame[OF it, of me s3, unfolded c snd_conv]
  show ?thesis
  using it
  proof (cases rule: create_boot_capsule_cases[where pf = pf and me = me and s = s3])
    case (loaded cid rg R' entry u)
    then have "r' = Ok ()" and s4: "CAPSULES s4 = [cid \<mapsto> boot_capsule rg]"
      "GLOBAL_QUEUES s4 = ScheduleQueues_queue ScheduleQueues_new (boot_vcore pf cid entry)"
      using c f3 s by auto
    then have rt: "r = Ok ()" "t = s4\<lparr>INIT_DONE := True\<rparr>" using bs assms(3) by simp_all
    have "REGIONS u = R'"
      using no_ram_fields(1)[OF load_no_ram[of pf me rg _ "with_boot_ram cid rg R' s3"]] loaded(3)
      by (simp add: with_boot_ram_def) (metis snd_conv)
    moreover have "u\<lparr>CAPSULES := (CAPSULES s3)(cid \<mapsto> boot_capsule rg),
         GLOBAL_QUEUES := ScheduleQueues_queue (GLOBAL_QUEUES s3) (boot_vcore pf cid entry)\<rparr> = s4"
      using loaded(4) c by simp
    ultimately have R': "REGIONS t = R'" using rt(2) by auto
    then have "alloc_region (host_pool pf d) 0x8000000 = (Ok rg, REGIONS t)" using loaded(2) f3 s2(7) by simp
    moreover have "free_bytes (REGIONS t) = held_bytes (host_areas pf d) - region_bytes rg"
      using alloc_region_law(5)[OF _ loaded(2)] f3 s2(4,5) R' by simp
    ultimately have "booted pf d t"
      using boot_region_size[OF loaded(2)] s4 rt(2) fr f3 l3 s2(4,5) s
      by (auto simp: booted_def)
    moreover have "memory_inv t" using m4 rt(2) by (simp add: memory_inv_def)
    ultimately show ?thesis using rt Some fr f3 s by simp
  next
    case (not_loaded cid rg R' e u)
    then have "r' = Err e" "s4 = u" using c by auto
    then have rt: "r = Err e" "t = s4" using bs assms(3) by simp_all
    have "GLOBAL_QUEUES u = GLOBAL_QUEUES (with_boot_ram cid rg R' s3)"
      using no_ram_fields(6)[OF load_no_ram[of pf me rg _ "with_boot_ram cid rg R' s3"]] not_loaded(3)
      by (metis snd_conv)
    moreover have "ram (with_boot_ram cid rg R' s3) = m" using f3 s by (simp add: with_boot_ram_def)
    then have "\<not> boot_possible pf me dtb m"
      using not_loaded(3) boot_region_size[OF not_loaded(2)] f3 s2(4,5) Some
      by (auto simp: boot_possible_def dest!: spec[of _ rg] spec[of _ "with_boot_ram cid rg R' s3"])
    ultimately show ?thesis using rt \<open>s4 = u\<close> m4 fr f3 s by (simp add: with_boot_ram_def)
  next
    case (no_memory cid c')
    then have "r = Err PhysNotEnoughFreeRAM" "t = s4" "GLOBAL_QUEUES s4 = GLOBAL_QUEUES s3"
      using bs assms(3) c by auto
    moreover have "\<not> boot_possible pf me dtb m"
    proof
      assume "boot_possible pf me dtb m"
      then obtain a where a: "a \<in> set (host_areas pf d)" "0x8000000 \<le> rgn_size a"
        using Some by (auto simp: boot_possible_def)
      then have "a \<in> set (regions R)" using s2(6) by auto
      moreover have "adjusted_size 0x8000000 = 0x8000000" by code_simp
      moreover have "alloc_region R 0x8000000 = (Err PhysNotEnoughFreeRAM, R)" using no_memory(3) f3 by simp
      ultimately show False using a(2) alloc_region_Err[of R "0x8000000"] by (auto simp: not_le[symmetric])
    qed
    ultimately show ?thesis using m4 fr f3 s by simp
  next
    case exhausted
    then have "r = Err CapsuleIDExhaustion" "t = s4" "GLOBAL_QUEUES s4 = GLOBAL_QUEUES s3"
      using bs assms(3) c by auto
    then show ?thesis using m4 fr f3 s exhausted(1) by simp
  qed
qed

lemma start_timer:
  assumes "HARDWARE s = Some d" and "\<not> held (HW_LOCK s)"
  shows "calls (cores (scheduler_timer_start me s) me) = calls (cores s me) @ [TimerStart]"
  using assms by (simp add: scheduler_timer_start_def with_hardware_free call_platform_def)

lemma hvmain_boot_result:
  assumes "machine_ok pf dtb"
  obtains r t where "hvmain pf me BOOT_PCORE_ID dtb (hv_start ks m) = Some (r, t)"
    "boot_possible pf me dtb m \<Longrightarrow> r = Ok ()" "memory_inv t" "VCORES t = Map.empty" "SERVICES t = Map.empty" "INIT_DONE t \<longleftrightarrow> r = Ok ()"
    "r \<noteq> Ok () \<Longrightarrow> GLOBAL_QUEUES t = ScheduleQueues_new"
    "r = Ok () \<Longrightarrow> \<exists>d. parse_devices pf dtb = Some d \<and> booted pf d t
       \<and> calls (cores t me) = calls (ks me) @ [TimerStart] \<and> smode_supported t me = cpu_supervisor pf me"
proof -
  define s where "s = PhysicalCore_init pf me BOOT_PCORE_ID (hv_start ks m)"
  obtain r t where bs: "boot_setup pf me dtb s = (r, t)" by fastforce
  note law = boot_setup_result[OF assms s_def bs]
  have sc: "calls (cores s me) = calls (ks me)" "pc_smode (pvars (cores s me)) = cpu_supervisor pf me"
    by (simp_all add: s_def PhysicalCore_init_def create_mailbox_def with_pvars_def hv_start_def split: prod.splits)
  show ?thesis
  proof (cases r)
    case (Err e)
    then have "hvmain pf me BOOT_PCORE_ID dtb (hv_start ks m) = Some (r, t)"
      using bs by (simp add: hvmain_def Let_def flip: s_def)
    then show ?thesis using that law Err by auto
  next
    case (Ok u)
    let ?f = "hvdebug pf me ''Physical CPU core {:?} ready to roll'' [cpu_describe pf me] t"
    let ?t = "scheduler_timer_start me ?f"
    have h: "hvmain pf me BOOT_PCORE_ID dtb (hv_start ks m) = Some (Ok (), ?t)"
      using bs Ok by (simp add: hvmain_def Let_def scheduler_start_def flip: s_def)
    from law Ok obtain d where d: "parse_devices pf dtb = Some d" "booted pf d t" by auto
    have "calls (cores ?t me) = calls (ks me) @ [TimerStart]"
      using start_timer[of ?f d me] d(2) law sc by (simp add: booted_def)
    moreover have "booted pf d ?t"
      using d(2) lock_stays_free(2)[of ?f me] by (simp add: booted_def)
    moreover have "smode_supported ?t me = cpu_supervisor pf me"
      using law sc by (simp add: smode_supported_def)
    moreover have "memory_inv ?t" using law by (simp add: memory_inv_def)
    ultimately show ?thesis using that[OF h] law d by (simp add: booted_def)
  qed
qed

lemma first_tick:
  assumes "machine_ok pf dtb" and "hvmain pf me BOOT_PCORE_ID dtb (hv_start ks m) = Some (Ok (), t)"
    and "cpu_supervisor pf me"
  shows "\<exists>u cid r entry. run_next pf me False t = Some (Done u) \<and> CAPSULES u = [cid \<mapsto> boot_capsule r]
    \<and> running u me = Some (boot_vcore pf cid entry) \<and> queued (GLOBAL_QUEUES u) = {#}
    \<and> granted u me = Some (rgn_base r, rgn_base r + 0x8000000)
    \<and> rgn_size r = 0x8000000"
proof -
  obtain d where b: "booted pf d t" "VCORES t = Map.empty" "smode_supported t me"
    by (rule hvmain_boot_result[OF assms(1), of me ks m]) (use assms(2,3) in auto)
  then obtain cid r entry where c: "CAPSULES t = [cid \<mapsto> boot_capsule r]" "rgn_size r = 0x8000000"
    and g: "GLOBAL_QUEUES t = ScheduleQueues_queue ScheduleQueues_new (boot_vcore pf cid entry)"
    by (auto simp: booted_def)
  let ?v = "boot_vcore pf cid entry"
  let ?s = "count_workload me (t\<lparr>GLOBAL_QUEUES := ScheduleQueues_new\<rparr>)"
  have "ScheduleQueues_dequeue (GLOBAL_QUEUES t) = (Some ?v, ScheduleQueues_new)"
    by (simp add: g ScheduleQueues_queue_def get_priority_def boot_vcore_def ScheduleQueues_new_def
        ScheduleQueues_dequeue_def dequeue_by_priority_def HIGH_PRIO_TIMESLICES_MAX_def)
  then have p: "picked pf me t = Some (?v, ?s)" by (simp add: picked_def)
  have v: "get_capsule_id ?v = cid" by (simp add: boot_vcore_def get_capsule_id_def)
  have reg: "regions_of (memory (boot_capsule r)) = [r]" by (simp add: boot_capsule_def get_physical_def)
  have "\<not> too_many_regions ?s cid" by (simp add: too_many_regions_def c reg)
  then obtain u where u: "context_switch pf me ?v ?s = Done u" using context_switch_total v by metis
  note f = context_switch_Done[OF u]
  have "\<not> same_capsule ?s me ?v" using b(2) by (simp add: same_capsule_def running_def)
  then have "granted u me = Some (area_of r)" using f(6) v c reg by (simp add: access_after_def)
  moreover have "running u me = Some ?v"
    using f(2) f(4)[of me] by (simp add: running_def PhysicalCore_get_id_def)
  moreover have "run_next pf me False t = Some (Done (scheduler_timer_next me TIMESLICE_LENGTH u))"
    using run_next_found[OF b(3) p] u by simp
  ultimately show ?thesis
    using f(1) c by (intro exI[of _ "scheduler_timer_next me TIMESLICE_LENGTH u"] exI[of _ cid] exI[of _ r] exI[of _ entry])
      (simp add: switch_frame_def area_of_def Region_end_def running_def PhysicalCore_get_id_def
        queued_def ScheduleQueues_new_def)
qed

section \<open>Properties\<close>

text \<open>C9: the boot core always comes back from \<open>hvmain\<close>. If it succeeds, there is one capsule with 128 MiB of the
  host's RAM, identity-mapped, one high-priority virtual core at the binary's entry point waits on the
  global queue, and the scheduler timer runs. If anything fails, the other cores wait for ever.
  Either way RAM ownership is consistent and nothing runs yet.\<close>

theorem hvmain_boot_correct:
  assumes "machine_ok pf dtb"
  shows "\<exists>r t. hvmain pf me BOOT_PCORE_ID dtb (hv_start ks m) = Some (r, t)
    \<and> (boot_possible pf me dtb m \<longrightarrow> r = Ok ()) \<and> memory_inv t \<and> VCORES t = Map.empty
    \<and> (if r = Ok ()
       then \<exists>d. parse_devices pf dtb = Some d \<and> booted pf d t \<and> calls (cores t me) = calls (ks me) @ [TimerStart]
       else GLOBAL_QUEUES t = ScheduleQueues_new)
    \<and> (\<forall>p n. n \<noteq> BOOT_PCORE_ID \<longrightarrow> (hvmain pf p n dtb t = None \<longleftrightarrow> r \<noteq> Ok ()))"
proof -
  obtain r t where h: "hvmain pf me BOOT_PCORE_ID dtb (hv_start ks m) = Some (r, t)"
    "boot_possible pf me dtb m \<Longrightarrow> r = Ok ()" "memory_inv t" "VCORES t = Map.empty" "INIT_DONE t \<longleftrightarrow> r = Ok ()"
    "r \<noteq> Ok () \<Longrightarrow> GLOBAL_QUEUES t = ScheduleQueues_new"
    "r = Ok () \<Longrightarrow> \<exists>d. parse_devices pf dtb = Some d \<and> booted pf d t
       \<and> calls (cores t me) = calls (ks me) @ [TimerStart] \<and> smode_supported t me = cpu_supervisor pf me"
    by (rule hvmain_boot_result[OF assms, of me ks m]) blast
  have "hvmain pf p n dtb t = None \<longleftrightarrow> r \<noteq> Ok ()" if "n \<noteq> BOOT_PCORE_ID" for p n
    using that h(5) by (auto simp: hvmain_def Let_def)
  then show ?thesis using h by auto
qed

text \<open>C12: from power-on to the first instruction of a supervisor: after a successful boot, the first timer
  tick on the boot core runs the boot capsule's virtual core, with the registers the platform prepared
  for the entry point, and with access to exactly the capsule's 128 MiB.\<close>

theorem first_tick_runs_boot_capsule:
  assumes "machine_ok pf dtb" and "hvmain pf me BOOT_PCORE_ID dtb (hv_start ks m) = Some (Ok (), t)"
    and "cpu_supervisor pf me"
  shows "\<exists>u cid r entry. run_next pf me False t = Some (Done u) \<and> CAPSULES u = [cid \<mapsto> boot_capsule r]
    \<and> running u me = Some (boot_vcore pf cid entry) \<and> queued (GLOBAL_QUEUES u) = {#}
    \<and> granted u me = Some (rgn_base r, rgn_base r + 0x8000000)"
  using first_tick[OF assms] by blast

lemma example_host_ram: "host_ram_ok example_platform dtb"
  by (simp add: host_ram_ok_def host_areas_def example_platform_def area_region_def Region_new_def region_ok_def)

lemma example_machine: "machine_ok example_platform dtb"
  by (simp add: machine_ok_def example_platform_iteration example_host_ram)

lemma example_load:
  fixes s :: "(usize, usize) hv"
  assumes "rgn_size r = 0x8000000" and "region_bytes r \<subseteq> {0x80000000 ..< 0x90000000}"
  shows "is_ok (fst (load example_platform me r src s))"
proof -
  have "unat (rgn_base r) \<in> region_bytes r" using assms(1) by (simp add: region_bytes_def bytes_def)
  then have "unat (rgn_base r) < 0x90000000" using assms(2) by auto
  then have "unat (rgn_base r + 16) \<le> unat (rgn_base r + 0x8000000)"
    by (subst unat_add_nowrap; simp)+
  then have "\<not> rgn_base r + 16 > rgn_base r + 0x8000000" by (simp add: word_nat not_less)
  then show ?thesis using assms(1) by (simp add: load_def example_platform_def Region_end_def Let_def)
qed

lemma example_boot_possible: "boot_possible example_platform 0 dtb m"
proof -
  have "region_bytes \<lparr>rgn_base = 0x80000000, rgn_size = 0x10000000\<rparr> = {0x80000000 ..< 0x90000000}"
    by (simp add: region_bytes_def bytes_def)
  then show ?thesis
    using example_load by (simp add: boot_possible_def)
      (simp add: host_areas_def example_platform_def area_region_def Region_new_def)
qed

lemma example_boot:
  "\<exists>t. hvmain example_platform 0 BOOT_PCORE_ID [] (hv_start (\<lambda>_. blank_core) (\<lambda>_. 0)) = Some (Ok (), t)"
  by (rule hvmain_boot_result[OF example_machine, of 0 "[]" "\<lambda>_. blank_core" "\<lambda>_. 0"])
    (use example_boot_possible in auto)

theorem hvmain_boot_correct_witness:
  "\<exists>t d. hvmain example_platform 0 BOOT_PCORE_ID [] (hv_start (\<lambda>_. blank_core) (\<lambda>_. 0)) = Some (Ok (), t)
     \<and> booted example_platform d t \<and> hvmain example_platform 1 1 [] t \<noteq> None"
proof -
  obtain t where "hvmain example_platform 0 BOOT_PCORE_ID [] (hv_start (\<lambda>_. blank_core) (\<lambda>_. 0)) = Some (Ok (), t)"
    using example_boot by blast
  then show ?thesis
    using hvmain_boot_correct[OF example_machine, of 0 "[]" "\<lambda>_. blank_core" "\<lambda>_. 0"]
    by (auto simp: BOOT_PCORE_ID_def)
qed

theorem first_tick_runs_boot_capsule_witness:
  "\<exists>t u cid entry. hvmain example_platform 0 BOOT_PCORE_ID [] (hv_start (\<lambda>_. blank_core) (\<lambda>_. 0)) = Some (Ok (), t)
     \<and> run_next example_platform 0 False t = Some (Done u)
     \<and> running u 0 = Some (boot_vcore example_platform cid entry)"
proof -
  obtain t where t: "hvmain example_platform 0 BOOT_PCORE_ID [] (hv_start (\<lambda>_. blank_core) (\<lambda>_. 0)) = Some (Ok (), t)"
    using example_boot by blast
  show ?thesis
    using t first_tick_runs_boot_capsule[OF example_machine t] by (auto simp: example_platform_def)
qed

end
