(* ===== verification/Hv_Irq.thy ===== *)
theory Hv_Irq
  imports Hv_Boot
begin

text \<open>
  Interrupts and exceptions, \<^verbatim>\<open>src/hypervisor/irq.rs\<close>. A handler that never returns is \<open>None\<close>.
\<close>

primrec privilege_text :: "PrivilegeMode \<Rightarrow> string" where
  "privilege_text Machine = ''Machine''"
| "privilege_text Supervisor = ''Supervisor''"
| "privilege_text User = ''User''"

definition bool_text :: "bool \<Rightarrow> string" where
  "bool_text b = (if b then ''true'' else ''false'')"

text \<open>The capsule that runs on this core is torn down.\<close>

definition kill_running_capsule :: "('s, 'c) Platform \<Rightarrow> usize \<Rightarrow> ('s, 'c) hv \<Rightarrow> ('s, 'c) hv" where
  "kill_running_capsule pf me s =
     (case PhysicalCore_get_capsule_id s me of
        Some c \<Rightarrow>
          (case destroy pf me c s of
             (r, s') \<Rightarrow> if is_ok r \<noteq> True then hvalert me ''BUG: Could not kill capsule ID {}'' [dec c] s' else s')
      | None \<Rightarrow> hvalert me ''BUG: Exception in supervisor mode but no capsule found'' [] s)"

definition handle_exception ::
  "('s, 'c) Platform \<Rightarrow> usize \<Rightarrow> IRQ \<Rightarrow> ('s, 'c) hv \<Rightarrow> ('s, 'c) hv outcome option" where
  "handle_exception pf me irq s =
     (if \<not> fatal irq \<and> privilege_mode irq = Supervisor \<and> cause irq = SupervisorEnvironmentCall
      then Some (Done (case PhysicalCore_get_capsule_id s me of
             Some c \<Rightarrow> hvdebug pf me ''Environment call from supervisor-mode capsule ID {}'' [dec c] s
           | None \<Rightarrow> hvalert me ''BUG: Environment call from supervisor mode but no capsule found'' [] s))
      else if fatal irq \<and> privilege_mode irq = Supervisor
      then run_next pf me True
             (kill_running_capsule pf me
               (hvalert me ''Fatal exception in {:?}: {:?} at 0x{:x}, stack 0x{:x}''
                  [privilege_text Supervisor, cause_text pf (cause irq), hex (irq_pc irq), hex (irq_sp irq)] s))
      else
        (let s' = drain_queue me
               (hvalert me ''Unhandled exception in {:?}: {:?} at 0x{:x}, stack 0x{:x}, fatal = {:?}''
                  [privilege_text (privilege_mode irq), cause_text pf (cause irq), hex (irq_pc irq),
                   hex (irq_sp irq), bool_text (fatal irq)] s)
         in if fatal irq = True then None else Some (Done s')))"

definition handle_interrupt ::
  "('s, 'c) Platform \<Rightarrow> usize \<Rightarrow> IRQ \<Rightarrow> ('s, 'c) hv \<Rightarrow> ('s, 'c) hv outcome option" where
  "handle_interrupt pf me irq s =
     map_option (\<lambda>r. bind_outcome r (\<lambda>t. Done (call_platform me Acknowledge t)))
       (case cause irq of
          HypervisorTimer \<Rightarrow> run_next pf me False s
        | _ \<Rightarrow> Some (Done (hvdebug pf me ''Unhandled hardware interrupt: {:?}'' [cause_text pf (cause irq)] s)))"

text \<open>\<open>dispatch\<close> is the platform's decoding of an interrupt context.\<close>

definition hypervisor_irq_handler ::
  "('s, 'c) Platform \<Rightarrow> usize \<Rightarrow> ('x \<Rightarrow> IRQ) \<Rightarrow> 'x \<Rightarrow> ('s, 'c) hv \<Rightarrow> ('s, 'c) hv outcome option" where
  "hypervisor_irq_handler pf me dispatch context_word s =
     (let irq = dispatch context_word
      in case irq_type irq of
           Exception \<Rightarrow> handle_exception pf me irq s
         | Interrupt \<Rightarrow> handle_interrupt pf me irq s)"

section \<open>What teardown does to the rest of the system\<close>

lemma destroy_lock [simp]: "HW_LOCK (snd (destroy pf me cid s)) = HW_LOCK s"
  by (simp add: destroy_def Capsule_drop_def drop_memory_eq drop_services_eq split: option.splits)

lemma destroy_frame:
  assumes "iteration_ok pf"
  shows "VCORES (snd (destroy pf me cid s)) = VCORES s" "cores (snd (destroy pf me cid s)) = cores s"
    "GLOBAL_QUEUES (snd (destroy pf me cid s)) = GLOBAL_QUEUES s"
    "CAPSULES (snd (destroy pf me cid s)) = (CAPSULES s)(cid := None)"
    "MAILBOXES (snd (destroy pf me cid s)) = MAILBOXES s" "HARDWARE (snd (destroy pf me cid s)) = HARDWARE s"
    "INIT_DONE (snd (destroy pf me cid s)) = INIT_DONE s" "ram (snd (destroy pf me cid s)) = ram s"
proof -
  have "CAPSULES s cid = None \<or> (\<exists>c. CAPSULES s cid = Some c)" by auto
  then consider "CAPSULES s cid = None" | c where "CAPSULES s cid = Some c" by blast
  then have "VCORES (snd (destroy pf me cid s)) = VCORES s \<and> cores (snd (destroy pf me cid s)) = cores s
    \<and> GLOBAL_QUEUES (snd (destroy pf me cid s)) = GLOBAL_QUEUES s
    \<and> CAPSULES (snd (destroy pf me cid s)) = (CAPSULES s)(cid := None)
    \<and> MAILBOXES (snd (destroy pf me cid s)) = MAILBOXES s \<and> HARDWARE (snd (destroy pf me cid s)) = HARDWARE s
    \<and> INIT_DONE (snd (destroy pf me cid s)) = INIT_DONE s \<and> ram (snd (destroy pf me cid s)) = ram s"
  proof cases
    case 1
    then show ?thesis by (simp add: destroy_def fun_upd_idem)
  next
    case 2
    then show ?thesis using essence_fields[OF destroy_essence(2)[OF assms 2, of me]] by simp
  qed
  then show "VCORES (snd (destroy pf me cid s)) = VCORES s" "cores (snd (destroy pf me cid s)) = cores s"
    "GLOBAL_QUEUES (snd (destroy pf me cid s)) = GLOBAL_QUEUES s"
    "CAPSULES (snd (destroy pf me cid s)) = (CAPSULES s)(cid := None)"
    "MAILBOXES (snd (destroy pf me cid s)) = MAILBOXES s" "HARDWARE (snd (destroy pf me cid s)) = HARDWARE s"
    "INIT_DONE (snd (destroy pf me cid s)) = INIT_DONE s" "ram (snd (destroy pf me cid s)) = ram s" by simp_all
qed

text \<open>Killing the running capsule amounts to destroying it, apart from the log.\<close>

lemma kill_essence:
  "essence (kill_running_capsule pf me s) = essence
     (case PhysicalCore_get_capsule_id s me of Some c \<Rightarrow> snd (destroy pf me c s) | None \<Rightarrow> s)"
  by (simp add: kill_running_capsule_def split: option.splits prod.splits)

lemma kill_lock [simp]: "HW_LOCK (kill_running_capsule pf me s) = HW_LOCK s"
proof (cases "PhysicalCore_get_capsule_id s me")
  case (Some c)
  obtain r s' where d: "destroy pf me c s = (r, s')" by fastforce
  then have "HW_LOCK s' = HW_LOCK s" using destroy_lock[of pf me c s] by simp
  with Some d show ?thesis by (simp add: kill_running_capsule_def)
qed (simp add: kill_running_capsule_def)

lemma kill_running_fields:
  assumes "iteration_ok pf" and "running s me = Some v"
  shows "CAPSULES (kill_running_capsule pf me s) = (CAPSULES s)(get_capsule_id v := None)"
    "VCORES (kill_running_capsule pf me s) = VCORES s" "cores (kill_running_capsule pf me s) = cores s"
    "GLOBAL_QUEUES (kill_running_capsule pf me s) = GLOBAL_QUEUES s"
    "REGIONS (kill_running_capsule pf me s) = REGIONS (snd (destroy pf me (get_capsule_id v) s))"
    "SERVICES (kill_running_capsule pf me s) = SERVICES (snd (destroy pf me (get_capsule_id v) s))"
proof -
  have "PhysicalCore_get_capsule_id s me = Some (get_capsule_id v)"
    using assms(2) by (simp add: PhysicalCore_get_capsule_id_def running_def)
  then have e: "essence (kill_running_capsule pf me s) = essence (snd (destroy pf me (get_capsule_id v) s))"
    by (simp add: kill_essence)
  show "CAPSULES (kill_running_capsule pf me s) = (CAPSULES s)(get_capsule_id v := None)"
    "VCORES (kill_running_capsule pf me s) = VCORES s" "cores (kill_running_capsule pf me s) = cores s"
    "GLOBAL_QUEUES (kill_running_capsule pf me s) = GLOBAL_QUEUES s"
    "REGIONS (kill_running_capsule pf me s) = REGIONS (snd (destroy pf me (get_capsule_id v) s))"
    "SERVICES (kill_running_capsule pf me s) = SERVICES (snd (destroy pf me (get_capsule_id v) s))"
    using essence_fields[OF e] destroy_frame[OF assms(1), of me "get_capsule_id v" s] by simp_all
qed

section \<open>Properties\<close>

text \<open>C10: a fatal exception of a supervisor ends its capsule. If a virtual core waits, the handler returns: the
  capsule is removed, its RAM is back in the free pool, and the core runs the first virtual core that waited. The
  virtual core that crashed is not removed: it goes back to the core's queue without a capsule. If nothing
  waits, the handler never returns. It panics exactly if the next virtual core belongs to another capsule with
  more than one area of RAM.\<close>

theorem fatal_exception_correct:
  assumes "iteration_ok pf" and "memory_inv s" and "smode_supported s me"
    and "fatal irq" and "privilege_mode irq = Supervisor"
    and "running s me = Some v" and "CAPSULES s (get_capsule_id v) = Some c"
  shows "case candidates me s of
      [] \<Rightarrow> handle_exception pf me irq s = None
    | w # _ \<Rightarrow>
        if get_capsule_id w \<noteq> get_capsule_id v \<and> too_many_regions s (get_capsule_id w)
        then handle_exception pf me irq s = Some Panicked
        else \<exists>t. handle_exception pf me irq s = Some (Done t)
          \<and> CAPSULES t = (CAPSULES s)(get_capsule_id v := None)
          \<and> free_bytes (REGIONS t) = free_bytes (REGIONS s) \<union> capsule_bytes c
          \<and> running t me = Some w \<and> vc_key v \<in># waiting_on t me"
proof -
  define s1 where "s1 = hvalert me ''Fatal exception in {:?}: {:?} at 0x{:x}, stack 0x{:x}''
    [privilege_text Supervisor, cause_text pf (cause irq), hex (irq_pc irq), hex (irq_sp irq)] s"
  have e1: "essence s1 = essence s" by (simp add: s1_def)
  note f1 = essence_fields[OF e1]
  let ?k = "kill_running_capsule pf me s1"
  have h: "handle_exception pf me irq s = run_next pf me True ?k"
    using assms(4,5) by (simp add: handle_exception_def s1_def)
  have r1: "running s1 me = Some v" and m1: "memory_inv s1"
    using assms(2,6) f1 by (simp_all add: running_def PhysicalCore_get_id_def memory_inv_def)
  note k = kill_running_fields[OF assms(1) r1]
  have free: "free_bytes (REGIONS ?k) = free_bytes (REGIONS s) \<union> capsule_bytes c"
    using destroy_memory_inv(2)[OF m1 assms(1), of "get_capsule_id v" c me] assms(7) f1 k(5) by simp
  have sm: "smode_supported ?k me" using assms(3) k(3) f1 by (simp add: smode_supported_def)
  have cand: "candidates me ?k = candidates me s" using k(3,4) f1 by (simp add: candidates_def)
  have rk: "running ?k me = Some v" using r1 k(2,3) by (simp add: running_def PhysicalCore_get_id_def)
  show ?thesis
  proof (cases "candidates me s")
    case Nil
    then show ?thesis using run_loop_diverges[of me ?k pf] sm cand h by (simp add: run_next_def)
  next
    case (Cons w ws)
    then obtain s' where w: "picked pf me ?k = Some (w, s')"
      using picked_candidates[of pf me ?k] cand by (cases "picked pf me ?k") auto
    note p = picked_fields[OF w]
    have rs: "running s' me = Some v" using rk p by (simp add: running_def)
    have bad: "\<not> same_capsule s' me w \<and> too_many_regions s' (get_capsule_id w) \<longleftrightarrow>
        get_capsule_id w \<noteq> get_capsule_id v \<and> too_many_regions s (get_capsule_id w)"
      using rs p k(1) f1 by (auto simp: same_capsule_def too_many_regions_def split: option.splits)
    show ?thesis
    proof (cases "context_switch pf me w s'")
      case Panicked
      then show ?thesis using context_switch_total[of pf me w s'] bad run_next_found[OF sm w, of True] h Cons by auto
    next
      case (Done u)
      let ?t = "scheduler_timer_next me TIMESLICE_LENGTH u"
      note f = context_switch_Done[OF Done]
      have "vc_key v \<in># waiting_on ?t me"
        using f(4)[of me] rs by (simp add: waiting_on_def queues_after_def sched_queue.enq_bag)
      moreover have "running ?t me = Some w"
        using f(2) f(4)[of me] by (simp add: running_def PhysicalCore_get_id_def)
      moreover have "handle_exception pf me irq s = Some (Done ?t)" using run_next_found[OF sm w, of True] h Done by simp
      moreover have "\<not> (get_capsule_id w \<noteq> get_capsule_id v \<and> too_many_regions s (get_capsule_id w))"
        using context_switch_total[of pf me w s'] bad Done by auto
      moreover have "CAPSULES ?t = (CAPSULES s)(get_capsule_id v := None)"
        "free_bytes (REGIONS ?t) = free_bytes (REGIONS s) \<union> capsule_bytes c"
        using f(1) p k(1) f1 free by (simp_all add: switch_frame_def)
      ultimately show ?thesis unfolding Cons list.case by (simp only: if_False) blast
    qed
  qed
qed

definition fatal_irq :: IRQ where
  "fatal_irq = \<lparr>fatal = True, privilege_mode = Supervisor, irq_type = Exception, cause = OtherCause 5,
     irq_pc = 0x80000010, irq_sp = 0x80001000\<rparr>"

lemma busy_hv_memory: "memory_inv busy_hv"
proof -
  have "memory_inv busy_hv \<longleftrightarrow> memory_inv example_hv"
    by (rule memory_inv_cong) (simp_all add: busy_hv_def running_hv_def)
  then show ?thesis using example_hv_memory by simp
qed

text \<open>The capsule crashes on core 0, where another of its virtual cores waits: that one runs next, without a capsule.\<close>

theorem fatal_exception_correct_witness:
  "\<exists>t. handle_exception example_platform 0 fatal_irq busy_hv = Some (Done t) \<and> CAPSULES t 1 = None
     \<and> running t 0 = Some (vcore_of 1 1 High 0x80000020)"
proof -
  have "candidates 0 busy_hv = [vcore_of 1 1 High 0x80000020, vcore_of 1 2 Normal 0x80000030]"
    by (rule busy_hv_candidates)
  moreover have "smode_supported busy_hv 0" using busy_hv_own by (simp add: on_its_own_def)
  moreover have "CAPSULES busy_hv 1 = Some example_capsule" by (simp add: busy_hv_def)
  ultimately show ?thesis
    using fatal_exception_correct[OF example_platform_iteration busy_hv_memory, of 0 fatal_irq
        "vcore_of 1 0 High 0x80000004" example_capsule]
    by (auto simp: fatal_irq_def)
qed

end
