(* ===== verification/Hv_Abort.thy ===== *)
theory Hv_Abort
  imports Hv_Irq
begin

text \<open>
  The ends of the road: the handlers of \<^verbatim>\<open>src/hypervisor/abort.rs\<close>, the allocation error handler and the test
  runner of \<^verbatim>\<open>main.rs\<close>. None of the handlers returns: what they return here is the state in which their
  core then loops for ever. A panic's \<open>location\<close> is a file and a line, if the compiler recorded one.
\<close>

section \<open>Panic, abort, out of memory\<close>

definition panic_handler :: "bool \<Rightarrow> usize \<Rightarrow> (string \<times> usize) option \<Rightarrow> ('s, 'c) hv \<Rightarrow> ('s, 'c) hv" where
  "panic_handler testing me location s =
     (if testing then call_platform me (TestEnd (Inr 1)) s
      else (let s' = hvalert me ''Rust runtime panicked unexpectedly'' [] s
            in case location of
                 Some (file, line) \<Rightarrow> hvalert me ''... crashed in {}: {}'' [file, dec line] s'
               | None \<Rightarrow> hvalert me ''... crash location unknown'' [] s'))"

definition abort_handler :: "usize \<Rightarrow> ('s, 'c) hv \<Rightarrow> ('s, 'c) hv" where
  "abort_handler me s = hvalert me ''Rust runtime hit the abort button'' [] s"

definition kalloc_error :: "usize \<Rightarrow> usize \<Rightarrow> ('s, 'c) hv \<Rightarrow> ('s, 'c) hv" where
  "kalloc_error me attempt_size s =
     hvalert me ''alloc_error_handler: Failed to allocate/free {} bytes. Halting...'' [dec attempt_size] s"

section \<open>The test runner\<close>

text \<open>A test is code that may panic; the first that does ends the run, through the panic handler.\<close>

definition test_assertion :: "('s, 'c) hv \<Rightarrow> ('s, 'c) hv outcome" where
  "test_assertion s = (if (42 :: nat) = 42 then Done s else Panicked)"

fun run_each :: "(('s, 'c) hv \<Rightarrow> ('s, 'c) hv outcome) list \<Rightarrow> ('s, 'c) hv \<Rightarrow> ('s, 'c) hv outcome" where
  "run_each [] s = Done s"
| "run_each (unit_test # ts) s = bind_outcome (unit_test s) (run_each ts)"

definition run_tests ::
  "usize \<Rightarrow> (('s, 'c) hv \<Rightarrow> ('s, 'c) hv outcome) list \<Rightarrow> ('s, 'c) hv \<Rightarrow> ('s, 'c) hv outcome" where
  "run_tests me unit_tests s = bind_outcome (run_each unit_tests s) (\<lambda>t. Done (call_platform me (TestEnd (Inl 0)) t))"

section \<open>What they leave behind\<close>

definition alert_line :: "('s, 'c) hv \<Rightarrow> usize \<Rightarrow> string \<Rightarrow> string" where
  "alert_line s me msg = ''[!] CPU '' @ dec (PhysicalCore_get_id s me) @ '': '' @ msg @ [CHR 0x0A]"

definition crash_site :: "(string \<times> usize) option \<Rightarrow> string" where
  "crash_site location =
     (case location of
        Some (file, line) \<Rightarrow> ''... crashed in '' @ file @ '': '' @ dec line
      | None \<Rightarrow> ''... crash location unknown'')"

lemma get_id_write_str [simp]: "PhysicalCore_get_id (write_str t s) = PhysicalCore_get_id s"
  by (simp add: write_str_def PhysicalCore_get_id_def fun_eq_iff)

lemma write_str_twice: "write_str t (write_str u s) = write_str (u @ t) s"
  by (simp add: write_str_def)

lemma panic_text:
  "panic_handler False me location s =
     write_str (alert_line s me ''Rust runtime panicked unexpectedly'' @ alert_line s me (crash_site location)) s"
  by (auto simp: panic_handler_def hvalert_def hvprintln_def alert_line_def crash_site_def write_str_twice Let_def
      split: option.splits)

lemma abort_text: "abort_handler me s = write_str (alert_line s me ''Rust runtime hit the abort button'') s"
  by (simp add: abort_handler_def hvalert_def hvprintln_def alert_line_def)

lemma kalloc_text:
  "kalloc_error me n s = write_str (alert_line s me
     (''alloc_error_handler: Failed to allocate/free '' @ dec n @ '' bytes. Halting...'')) s"
  by (simp add: kalloc_error_def hvalert_def hvprintln_def alert_line_def)

lemma halt_essence [simp]:
  "essence (panic_handler False me location s) = essence s"
  "essence (abort_handler me s) = essence s"
  "essence (kalloc_error me n s) = essence s"
  by (simp_all add: panic_text abort_text kalloc_text essence_def write_str_def)

lemma halt_lock [simp]:
  "HW_LOCK (panic_handler False me location s) = HW_LOCK s"
  "HW_LOCK (abort_handler me s) = HW_LOCK s"
  "HW_LOCK (kalloc_error me n s) = HW_LOCK s"
  by (simp_all add: panic_text abort_text kalloc_text write_str_def)

end
