(* ===== verification/Hv_System.thy ===== *)
theory Hv_System
  imports Hv_Abort
begin

text \<open>
  The system as a whole: after the boot core has started it, cores come up, interrupts and exceptions
  are handled on any of them, capsules are given services and virtual cores, and messages are sent,
  in any order. The invariant of the tables holds in every state that can be reached.
\<close>

section \<open>Reachable states\<close>

text \<open>A state of the system: the cores that are up, and the hypervisor's state.\<close>

type_synonym ('s, 'c) system = "usize set \<times> ('s, 'c) hv"

text \<open>The system starts when the boot core has come through \<open>hvmain\<close> successfully. After a boot that failed the core reports the
  error and nothing is ever run; such states are not among those considered here.\<close>

inductive hv_begin :: "('s, 'c) Platform \<Rightarrow> 8 word list \<Rightarrow> ('s, 'c) system \<Rightarrow> bool" for pf dtb where
  boot: "hvmain pf BOOT_PCORE_ID BOOT_PCORE_ID dtb (hv_start ks m) = Some (Ok (), s) \<Longrightarrow>
    hv_begin pf dtb ({BOOT_PCORE_ID}, s)"

text \<open>
  What can happen. \<open>killed\<close>, \<open>rescheduled\<close> and \<open>tidied\<close> are the parts of a fatal exception, which can take
  long enough for other cores to act in between. A new capsule is set up by \<open>create_boot_capsule\<close>, in
  the program at boot only; its id is not that of a capsule that is gone and whose virtual core still
  runs, which holds until the counter of ids has wrapped around. A core that panics or runs out of
  heap between two operations stops; what it has running stays recorded. Each operation is one step; for
  registration, which gives up its lock half-way, \<open>Hv_Interleave\<close> has the two halves as steps of their own.
\<close>

definition not_reused :: "usize set \<Rightarrow> ('s, 'c) hv \<Rightarrow> ('s, 'c) hv \<Rightarrow> bool" where
  "not_reused A s t \<longleftrightarrow> (\<forall>p\<in>A. \<forall>v. running s p = Some v \<and> CAPSULES s (get_capsule_id v) = None \<longrightarrow>
     CAPSULES t (get_capsule_id v) = None)"

inductive hv_step :: "('s, 'c) Platform \<Rightarrow> 8 word list \<Rightarrow> ('s, 'c) system \<Rightarrow> ('s, 'c) system \<Rightarrow> bool" for pf dtb where
  interrupted: "me \<in> A \<Longrightarrow> hypervisor_irq_handler pf me (\<lambda>_ :: unit. irq) () s = Some (Done t) \<Longrightarrow>
    hv_step pf dtb (A, s) (A, t)"
| killed: "me \<in> A \<Longrightarrow> hv_step pf dtb (A, s) (A, kill_running_capsule pf me s)"
| rescheduled: "me \<in> A \<Longrightarrow> run_next pf me must s = Some (Done t) \<Longrightarrow> hv_step pf dtb (A, s) (A, t)"
| panicked: "me \<in> A \<Longrightarrow> hv_step pf dtb (A, s) (A, panic_handler False me l s)"
| aborted: "me \<in> A \<Longrightarrow> hv_step pf dtb (A, s) (A, abort_handler me s)"
| exhausted: "me \<in> A \<Longrightarrow> hv_step pf dtb (A, s) (A, kalloc_error me n s)"
| tidied: "me \<in> A \<Longrightarrow> hv_step pf dtb (A, s) (A, housekeeping pf me s)"
| core_up: "p \<notin> A \<Longrightarrow> p \<noteq> BOOT_PCORE_ID \<Longrightarrow> hvmain pf p p dtb s = Some (r, t) \<Longrightarrow>
    hv_step pf dtb (A, s) (insert p A, t)"
| allowed: "hv_step pf dtb (A, s) (A, snd (allow_service cid sid s))"
| registered: "hv_step pf dtb (A, s) (A, snd (register sid cid s))"
| deregistered: "hv_step pf dtb (A, s) (A, snd (deregister sid s))"
| sent: "hv_step pf dtb (A, s) (A, snd (message_send msg s))"
| vcore_added: "hv_step pf dtb (A, s) (A, snd (create_and_add_vcore pf cid vid entry prio s))"
| provided: "me \<in> A \<Longrightarrow> not_reused A s (snd (create_boot_capsule pf me s)) \<Longrightarrow>
    hv_step pf dtb (A, s) (A, snd (create_boot_capsule pf me s))"
| destroyed: "me \<in> A \<Longrightarrow> hv_step pf dtb (A, s) (A, snd (destroy pf me cid s))"

section \<open>The invariant\<close>

definition cores_inv :: "usize set \<Rightarrow> ('s, 'c) hv \<Rightarrow> bool" where
  "cores_inv A s \<longleftrightarrow> (\<forall>p\<in>A. PhysicalCore_get_id s p = p) \<and> dom (VCORES s) \<subseteq> A"

definition one_area :: "('s, 'c) hv \<Rightarrow> bool" where
  "one_area s \<longleftrightarrow> (\<forall>cid c. CAPSULES s cid = Some c \<longrightarrow> length (regions_of (memory c)) \<le> 1)"

definition system_inv_but :: "usize set \<Rightarrow> ('s, 'c) system \<Rightarrow> bool" where
  "system_inv_but L x = (case x of (A, s) \<Rightarrow>
     memory_inv s \<and> services_but L s \<and> isolation_inv A s \<and> cores_inv A s \<and> \<not> held (HW_LOCK s)
     \<and> one_area s)"

abbreviation system_inv :: "('s, 'c) system \<Rightarrow> bool" where
  "system_inv \<equiv> system_inv_but {}"

lemma system_invI:
  "memory_inv s \<Longrightarrow> services_but L s \<Longrightarrow> isolation_inv A s \<Longrightarrow> cores_inv A s \<Longrightarrow> \<not> held (HW_LOCK s) \<Longrightarrow>
   one_area s \<Longrightarrow> system_inv_but L (A, s)"
  by (simp add: system_inv_but_def)

lemma system_invD:
  assumes "system_inv_but L (A, s)"
  shows "memory_inv s" "services_but L s" "isolation_inv A s" "cores_inv A s" "\<not> held (HW_LOCK s)"
    "one_area s"
  using assms by (simp_all add: system_inv_but_def)

text \<open>The invariant only depends on a few tables.\<close>

lemma system_inv_cong:
  assumes "system_inv_but L (A, s)" and "REGIONS t = REGIONS s" "CAPSULES t = CAPSULES s" "SERVICES t = SERVICES s"
    "VCORES t = VCORES s" "\<And>p. PhysicalCore_get_id t p = PhysicalCore_get_id s p" "granted t = granted s"
    "\<not> held (HW_LOCK t)"
  shows "system_inv_but L (A, t)"
proof (rule system_invI)
  note i = system_invD[OF assms(1)]
  show "memory_inv t" using i(1) assms(2,3) by (simp add: memory_inv_def)
  show "services_but L t" using i(2) assms(3,4) by (simp add: services_but_def)
  show "isolation_inv A t" using i(3) isolation_inv_cong[of t s A] assms(3,5-7) by simp
  show "cores_inv A t" using i(4) assms(5,6) by (simp add: cores_inv_def)
  show "one_area t" using i(6) assms(3) by (simp add: one_area_def)
qed (fact assms(8))

lemma system_inv_essence:
  assumes "system_inv_but L (A, s)" and "essence t = essence s" and "\<not> held (HW_LOCK t)"
  shows "system_inv_but L (A, t)"
  by (rule system_inv_cong[OF assms(1)])
    (use assms(3) essence_fields[OF assms(2)] in \<open>simp_all add: PhysicalCore_get_id_def granted_def fun_eq_iff\<close>)

lemma memory_inv_tidied:
  assumes "memory_inv s" and "CAPSULES t = CAPSULES s" and "REGIONS t = coalesce_regions (REGIONS s)"
  shows "memory_inv t"
  using assms regions_pool.tidy_ok[OF memory_invD(1)[OF assms(1)]] by (simp add: memory_inv_def)

lemma housekeeping_lock: "\<not> held (HW_LOCK s) \<Longrightarrow> \<not> held (HW_LOCK (housekeeping pf me s))"
  using lock_stays_free(1)[of s me] by (simp add: housekeeping_def Let_def split: prod.splits option.splits)

lemma system_inv_housekeeping:
  assumes "system_inv_but L (A, s)"
  shows "system_inv_but L (A, housekeeping pf me s)"
proof -
  note i = system_invD[OF assms]
  have "memory_inv (housekeeping pf me s)" by (rule memory_inv_tidied[OF i(1)]) simp_all
  moreover have "services_but L (housekeeping pf me s)" using i(2) by (simp add: services_but_def)
  moreover have "cores_inv A (housekeeping pf me s)" using i(4) by (simp add: cores_inv_def PhysicalCore_get_id_def)
  moreover have "one_area (housekeeping pf me s)" using i(6) by (simp add: one_area_def)
  ultimately show ?thesis using i(3,5) housekeeping_lock by (simp add: system_inv_but_def)
qed

lemma system_inv_timer:
  assumes "system_inv_but L (A, s)"
  shows "system_inv_but L (A, scheduler_timer_next me u s)" "system_inv_but L (A, scheduler_timer_start me s)"
  by (rule system_inv_cong[OF assms]; use lock_stays_free[OF system_invD(5)[OF assms]] in
      \<open>simp add: PhysicalCore_get_id_def\<close>)+

lemma system_inv_switch:
  assumes inv: "system_inv_but L (A, s)" and me: "me \<in> A" and p: "picked pf me s = Some (v, s')"
    and cs: "context_switch pf me v s' = Done u"
  shows "system_inv_but L (A, u)"
proof -
  note i = system_invD[OF inv] and f = context_switch_Done[OF cs] and q = picked_fields[OF p]
  have id: "PhysicalCore_get_id u x = PhysicalCore_get_id s x" for x
    using context_switch_ids[OF cs] q by simp
  have "isolation_inv A s'" using i(3) isolation_inv_cong[of s' s A] q by simp
  then have "isolation_inv A u" by (rule isolation_inv_switch(1)[OF _ me cs])
  moreover have "memory_inv u" using i(1) f(1) q by (simp add: switch_frame_def memory_inv_def)
  moreover have "services_but L u" using i(2) f(1) q by (simp add: switch_frame_def services_but_def)
  moreover have "cores_inv A u"
    using i(4) f(2) q me id by (auto simp: cores_inv_def)
  moreover have "\<not> held (HW_LOCK u)" using i(5) f(1) q by (simp add: switch_frame_def)
  moreover have "one_area u" using i(6) f(1) q by (simp add: switch_frame_def one_area_def)
  ultimately show ?thesis by (simp add: system_inv_but_def)
qed

lemma system_inv_run_next:
  assumes "system_inv_but L (A, s)" and "me \<in> A" and "run_next pf me must s = Some (Done t)"
  shows "system_inv_but L (A, t)"
  using assms(3)
proof (cases rule: run_next_cases)
  case (switched v s' u)
  then show ?thesis using system_inv_timer(1)[OF system_inv_switch[OF assms(1,2) switched(2,3)]] by simp
next
  case idle
  then show ?thesis using system_inv_timer(1)[OF assms(1)] by simp
next
  case managed
  then show ?thesis using system_inv_timer(1)[OF system_inv_housekeeping[OF assms(1)]] by simp
qed

lemma system_inv_destroy:
  assumes "system_inv_but L (A, s)" and "iteration_ok pf"
  shows "system_inv_but L (A, snd (destroy pf me cid s))"
proof (rule system_invI)
  note i = system_invD[OF assms(1)] and f = destroy_frame[OF assms(2), of me cid s]
  show "memory_inv (snd (destroy pf me cid s))"
    using i(1) destroy_memory_inv(1)[OF i(1) assms(2)] by (cases "CAPSULES s cid") (simp_all add: destroy_def)
  show "services_but L (snd (destroy pf me cid s))" by (rule destroy_services_inv[OF i(2) assms(2)])
  have "granted (snd (destroy pf me cid s)) = granted s"
    "PhysicalCore_get_id (snd (destroy pf me cid s)) = PhysicalCore_get_id s"
    using f(2) by (simp_all add: granted_def PhysicalCore_get_id_def fun_eq_iff)
  then show "isolation_inv A (snd (destroy pf me cid s))" "cores_inv A (snd (destroy pf me cid s))"
    using i(3,4) f by (auto simp: isolation_inv_def cores_inv_def running_def)
  show "\<not> held (HW_LOCK (snd (destroy pf me cid s)))" using i(5) by simp
  show "one_area (snd (destroy pf me cid s))" using i(6) f by (simp add: one_area_def)
qed

lemma system_inv_kill:
  assumes "system_inv_but L (A, s)" and "iteration_ok pf"
  shows "system_inv_but L (A, kill_running_capsule pf me s)"
  by (rule system_inv_essence[OF _ kill_essence])
    (use assms system_inv_destroy[OF assms] system_invD(5)[OF assms(1)] in \<open>auto split: option.splits\<close>)

lemma system_inv_irq:
  fixes dispatch :: "'x \<Rightarrow> IRQ"
  assumes inv: "system_inv_but L (A, s)" and "iteration_ok pf" and me: "me \<in> A"
    and "hypervisor_irq_handler pf me dispatch w s = Some (Done t)"
  shows "system_inv_but L (A, t)"
proof -
  note log = system_inv_essence[OF inv]
  have l: "\<not> held (HW_LOCK s)" by (rule system_invD(5)[OF inv])
  show ?thesis
  proof (cases "irq_type (dispatch w)")
    case Exception
    with assms(4) have h: "handle_exception pf me (dispatch w) s = Some (Done t)"
      by (simp add: hypervisor_irq_handler_def)
    show ?thesis
    proof (cases "fatal (dispatch w) \<and> privilege_mode (dispatch w) = Supervisor")
      case True
      with h obtain f as where "run_next pf me True (kill_running_capsule pf me (hvalert me f as s)) = Some (Done t)"
        by (auto simp: handle_exception_def)
      moreover have "system_inv_but L (A, hvalert me f as s)" by (rule log) (use l in simp_all)
      ultimately show ?thesis using system_inv_run_next[OF system_inv_kill[OF _ assms(2)] me] by blast
    next
      case False
      moreover have free: "\<not> held (HW_LOCK (drain_queue me (hvalert me f as s)))" for f as
        by (rule lock_stays_free) (simp add: l)
      ultimately have "essence t = essence s" "\<not> held (HW_LOCK t)"
        using h l by (auto simp: handle_exception_def Let_def free split: if_splits option.splits)
      then show ?thesis by (rule log)
    qed
  next
    case Interrupt
    with assms(4) have h: "handle_interrupt pf me (dispatch w) s = Some (Done t)"
      by (simp add: hypervisor_irq_handler_def)
    then obtain u where u: "t = call_platform me Acknowledge u" "system_inv_but L (A, u)"
    proof (cases "cause (dispatch w) = HypervisorTimer")
      case True
      with h obtain u where "run_next pf me False s = Some (Done u)" "t = call_platform me Acknowledge u"
        by (auto simp: handle_interrupt_def bind_outcome_Done)
      then show ?thesis using that system_inv_run_next[OF inv me] by blast
    next
      case False
      then obtain f as where "t = call_platform me Acknowledge (hvdebug pf me f as s)"
        using h by (auto simp: handle_interrupt_def split: IRQCause.splits)
      then show ?thesis using that log l by simp
    qed
    show ?thesis unfolding u(1)
      by (rule system_inv_cong[OF u(2)]) (use system_invD(5)[OF u(2)] in \<open>simp_all add: PhysicalCore_get_id_def\<close>)
  qed
qed

lemma system_inv_core_up:
  assumes inv: "system_inv_but L (A, s)" and p: "p \<notin> A" "p \<noteq> BOOT_PCORE_ID" and h: "hvmain pf p p dtb s = Some (r, t)"
  shows "system_inv_but L (insert p A, t)"
proof -
  note i = system_invD[OF inv]
  let ?s = "PhysicalCore_init pf p p s"
  have id: "PhysicalCore_get_id ?s q = (if q = p then p else PhysicalCore_get_id s q)"
    and gr: "granted ?s = granted s" for q
    by (simp_all add: PhysicalCore_get_id_def PhysicalCore_init_def create_mailbox_def with_pvars_def granted_def
        fun_eq_iff split: prod.splits)
  have none: "VCORES s p = None" using i(4) p(1) by (auto simp: cores_inv_def)
  have "system_inv_but L (insert p A, ?s)"
  proof (rule system_invI)
    show "memory_inv ?s" "services_but L ?s" "\<not> held (HW_LOCK ?s)" "one_area ?s"
      using i(1,2,5,6) by (simp_all add: memory_inv_def services_but_def one_area_def)
    show "cores_inv (insert p A) ?s" using i(4) id by (auto simp: cores_inv_def)
    have "inj_on (PhysicalCore_get_id ?s) (insert p A)"
      using i(4) p(1) id by (auto simp: inj_on_def cores_inv_def)
    moreover have "running ?s q = (if q = p then None else running s q)" for q
      using id none by (simp add: running_def)
    ultimately show "isolation_inv (insert p A) ?s"
      using i(3) gr p(1) by (auto simp: isolation_inv_def)
  qed
  then have "system_inv_but L (insert p A, hvdebug pf p f as ?s)" for f as
    by (rule system_inv_essence) (use i(5) in simp_all)
  moreover obtain f as where "t = scheduler_timer_start p (hvdebug pf p f as ?s)"
    using h p(2) by (auto simp: hvmain_def Let_def scheduler_start_def split: if_splits)
  ultimately show ?thesis using system_inv_timer(2) by metis
qed

lemma system_inv_capsule_update:
  assumes "system_inv_but L (A, s)" and "CAPSULES s cid = Some c"
    and "memory c' = memory c" and "allowed_services c \<subseteq> allowed_services c'"
  shows "system_inv_but L (A, s\<lparr>CAPSULES := (CAPSULES s)(cid \<mapsto> c')\<rparr>)"
proof (rule system_invI)
  note i = system_invD[OF assms(1)]
  let ?s = "s\<lparr>CAPSULES := (CAPSULES s)(cid \<mapsto> c')\<rparr>"
  show "memory_inv ?s" by (rule memory_inv_update[OF i(1) assms(2,3)])
  show "services_but L ?s" using i(2) assms(2,4) by (fastforce simp: services_but_def)
  show "isolation_inv A ?s" using i(3) assms(2,3)
    by (auto simp: isolation_inv_def running_def PhysicalCore_get_id_def granted_def inj_on_def split: if_splits)
  show "cores_inv A ?s" "\<not> held (HW_LOCK ?s)" using i(4,5) by (simp_all add: cores_inv_def PhysicalCore_get_id_def)
  show "one_area ?s" using i(6) assms(2,3) by (simp add: one_area_def)
qed

lemma system_inv_services:
  assumes "system_inv_but L (A, s)" and "services_but L t" and "REGIONS t = REGIONS s" "CAPSULES t = CAPSULES s"
    "VCORES t = VCORES s" "cores t = cores s" "HW_LOCK t = HW_LOCK s"
  shows "system_inv_but L (A, t)"
proof (rule system_invI)
  note i = system_invD[OF assms(1)]
  show "memory_inv t" using i(1) memory_inv_cong[OF assms(3,4)] by simp
  show "isolation_inv A t"
    using i(3) isolation_inv_cong[of t s A] granted_cong[OF assms(6)] assms(4-6) by (simp add: PhysicalCore_get_id_def)
  show "cores_inv A t" using i(4) assms(5,6) by (simp add: cores_inv_def PhysicalCore_get_id_def)
  show "\<not> held (HW_LOCK t)" using i(5) assms(7) by simp
  show "one_area t" using i(6) assms(4) by (simp add: one_area_def)
qed (fact assms(2))

lemma services_inv_send: "services_but L s \<Longrightarrow> services_but L (snd (message_send m s))"
  by (auto simp: services_but_def message_send_def service_send_def Service_queue_def
      split: Recipient.splits option.splits)

lemma services_inv_deregister: "services_but L s \<Longrightarrow> services_but L (snd (deregister sid s))"
  by (simp add: services_but_def)

lemma create_boot_capsule_table:
  assumes "iteration_ok pf"
  obtains "CAPSULES (snd (create_boot_capsule pf me s)) = CAPSULES s"
  | cid c where "CAPSULES s cid = None" "length (regions_of (memory c)) \<le> 1"
      "CAPSULES (snd (create_boot_capsule pf me s)) = (CAPSULES s)(cid \<mapsto> c)"
using assms
proof (cases rule: create_boot_capsule_cases[where pf = pf and me = me and s = s])
  case (no_memory cid c)
  then show ?thesis using that(2)[of cid c] by simp
next
  case (not_loaded cid r R e t)
  have "CAPSULES t = CAPSULES (with_boot_ram cid r R s)"
    using no_ram_fields(3)[OF load_no_ram[of pf me r _ "with_boot_ram cid r R s"]] not_loaded(3) by (metis snd_conv)
  then show ?thesis
    using that(2)[of cid "(boot_capsule r)\<lparr>vcores := {}\<rparr>"] not_loaded
    by (simp add: with_boot_ram_def boot_capsule_def get_physical_def)
next
  case (loaded cid r R entry u)
  then show ?thesis
    using that(2)[of cid "boot_capsule r"] by (simp add: boot_capsule_def get_physical_def)
qed (use that(1) in simp)

lemma system_inv_provided:
  assumes "system_inv_but L (A, s)" and it: "iteration_ok pf" and fresh: "not_reused A s (snd (create_boot_capsule pf me s))"
  shows "system_inv_but L (A, snd (create_boot_capsule pf me s))"
proof (rule system_invI)
  note i = system_invD[OF assms(1)] and f = create_boot_capsule_frame[OF it, of me s]
  let ?t = "snd (create_boot_capsule pf me s)"
  show "memory_inv ?t" by (rule create_boot_capsule_inv[OF i(1) it])
  show "cores_inv A ?t" "\<not> held (HW_LOCK ?t)"
    using i(4,5) f by (simp_all add: cores_inv_def PhysicalCore_get_id_def)
  have run: "running ?t p = running s p" and gr: "granted ?t p = granted s p"
    and id: "PhysicalCore_get_id ?t p = PhysicalCore_get_id s p" for p
    using f by (simp_all add: running_def PhysicalCore_get_id_def granted_def)
  have old: "CAPSULES ?t j = Some d" if "CAPSULES s j = Some d" for j d
    using that by (cases rule: create_boot_capsule_table[OF it, of me s]) auto
  have "CAPSULES ?t (get_capsule_id v) = CAPSULES s (get_capsule_id v)" if "p \<in> A" "running s p = Some v" for p v
    using fresh that old by (cases "CAPSULES s (get_capsule_id v)") (auto simp: not_reused_def)
  then show "isolation_inv A ?t" using i(3) run gr id by (auto simp: isolation_inv_def inj_on_def)
  show "services_but L ?t" using i(2) f old by (fastforce simp: services_but_def)
  show "one_area ?t" using i(6) by (cases rule: create_boot_capsule_table[OF it, of me s]) (auto simp: one_area_def)
qed

lemma system_inv_add_vcore:
  assumes "system_inv_but L (A, s)"
  shows "system_inv_but L (A, snd (create_and_add_vcore pf cid vid entry prio s))"
proof -
  have q: "system_inv_but L (A, scheduler_queue v s)" for v
    by (rule system_inv_services[OF assms])
      (use system_invD(2)[OF assms] in \<open>simp_all add: scheduler_queue_def services_but_def\<close>)
  show ?thesis
    using q system_inv_capsule_update[OF q]
    by (simp add: create_and_add_vcore_def VirtualCore_create_def add_vcore_def split: option.splits)
qed

section \<open>Every reachable state\<close>

lemma hvmain_boot_inv:
  assumes "machine_ok pf dtb" and "hvmain pf BOOT_PCORE_ID BOOT_PCORE_ID dtb (hv_start ks m) = Some (Ok (), t)"
  shows "system_inv ({BOOT_PCORE_ID}, t)"
proof -
  let ?s = "PhysicalCore_init pf BOOT_PCORE_ID BOOT_PCORE_ID (hv_start ks m)"
  obtain d where b: "booted pf d t" "memory_inv t" "VCORES t = Map.empty" "SERVICES t = Map.empty"
    by (rule hvmain_boot_result[OF assms(1), of BOOT_PCORE_ID ks m]) (use assms(2) in auto)
  obtain r u where u: "boot_setup pf BOOT_PCORE_ID dtb ?s = (r, u)" by fastforce
  then have "cores u = cores ?s" using boot_setup_result[OF assms(1) refl u] by simp
  then have "PhysicalCore_get_id t BOOT_PCORE_ID = PhysicalCore_get_id ?s BOOT_PCORE_ID"
    using assms(2) u by (auto simp: hvmain_def Let_def scheduler_start_def and_then_Ok PhysicalCore_get_id_def)
  then have id: "PhysicalCore_get_id t BOOT_PCORE_ID = BOOT_PCORE_ID"
    by (simp add: PhysicalCore_get_id_def PhysicalCore_init_def create_mailbox_def with_pvars_def split: prod.splits)
  then have "isolation_inv {BOOT_PCORE_ID} t" "cores_inv {BOOT_PCORE_ID} t"
    using b(3) by (simp_all add: isolation_inv_def cores_inv_def running_def)
  moreover have "services_inv t" using b(4) by (simp add: services_but_def)
  moreover have "\<not> held (HW_LOCK t)" "one_area t"
    using b(1) by (auto simp: booted_def one_area_def boot_capsule_def get_physical_def split: if_splits)
  ultimately show ?thesis using b(2) by (simp add: system_inv_but_def)
qed

lemma hv_step_inv:
  assumes "hv_step pf dtb x y" and "iteration_ok pf" and "system_inv_but L x"
  shows "system_inv_but L y"
  using assms(1,3)
proof (induction rule: hv_step.induct)
  case (allowed A s cid sid)
  show ?case
  proof (cases "CAPSULES s cid")
    case (Some c)
    have "system_inv_but L (A, s\<lparr>CAPSULES := (CAPSULES s)(cid \<mapsto> c\<lparr>allowed_services := insert sid (allowed_services c)\<rparr>)\<rparr>)"
      by (rule system_inv_capsule_update[OF allowed Some]) auto
    then show ?thesis using Some by (simp add: allow_service_def)
  qed (use allowed in \<open>simp add: allow_service_def\<close>)
next
  case (registered A s sid cid)
  have "services_but L (snd (register sid cid s))"
    by (rule register_services_inv[OF system_invD(2)[OF registered]])
  then show ?case
    by (rule system_inv_services[OF registered]) (cases rule: register_cases[of s cid sid]; simp)+
next
  case (panicked me A s l)
  then show ?case using system_inv_essence system_invD(5) by (metis halt_essence(1) halt_lock(1))
next
  case (aborted me A s)
  then show ?case using system_inv_essence system_invD(5) by (metis halt_essence(2) halt_lock(2))
next
  case (exhausted me A s n)
  then show ?case using system_inv_essence system_invD(5) by (metis halt_essence(3) halt_lock(3))
next
  case (deregistered A s sid)
  show ?case
    by (rule system_inv_services[OF deregistered services_inv_deregister[OF system_invD(2)[OF deregistered]]]) simp_all
next
  case (sent A s msg)
  show ?case
    by (rule system_inv_services[OF sent services_inv_send[OF system_invD(2)[OF sent]]]) simp_all
qed (auto intro: system_inv_irq[OF _ assms(2)] system_inv_kill[OF _ assms(2)] system_inv_run_next
    system_inv_housekeeping system_inv_core_up system_inv_add_vcore system_inv_provided[OF _ assms(2)]
    system_inv_destroy[OF _ assms(2)])

interpretation hypervisor: invariant_system "\<lambda>x. machine_ok pf dtb \<and> hv_begin pf dtb x" "hv_step pf dtb"
  "\<lambda>x. machine_ok pf dtb \<and> system_inv x"
proof unfold_locales
  fix x y
  show "machine_ok pf dtb \<and> system_inv x" if "machine_ok pf dtb \<and> hv_begin pf dtb x"
    using that by (auto elim!: hv_begin.cases intro: hvmain_boot_inv)
  show "machine_ok pf dtb \<and> system_inv y" if "machine_ok pf dtb \<and> system_inv x" "hv_step pf dtb x y"
    using that hv_step_inv[of pf dtb x y] by (simp add: machine_ok_def)
qed

abbreviation hv_reachable :: "('s, 'c) Platform \<Rightarrow> 8 word list \<Rightarrow> ('s, 'c) system \<Rightarrow> bool" where
  "hv_reachable pf dtb \<equiv> reachable (hv_begin pf dtb) (hv_step pf dtb)"

lemma reachable_system_inv: "machine_ok pf dtb \<Longrightarrow> hv_reachable pf dtb (A, s) \<Longrightarrow> system_inv (A, s)"
  using hypervisor.reachable_inv[of pf dtb "(A, s)"] by simp

text \<open>The bytes of RAM that the code on a core can reach.\<close>

definition reach :: "('s, 'c) hv \<Rightarrow> usize \<Rightarrow> nat set" where
  "reach s p = (case granted s p of None \<Rightarrow> {} | Some (b, e) \<Rightarrow> bytes b (e - b))"

lemma isolated_reach:
  assumes inv: "system_inv (A, s)" and p: "p \<in> A" "running s p = Some v" "CAPSULES s (get_capsule_id v) = Some c"
    and "capsule_bytes c \<noteq> {}"
  shows "reach s p = capsule_bytes c"
proof -
  note i = system_invD[OF inv]
  have "regions_of (memory c) \<noteq> []" using assms(5) by (auto simp: capsule_bytes_def held_bytes_def)
  moreover have "length (regions_of (memory c)) \<le> 1" using i(6) p(3) by (simp add: one_area_def)
  ultimately obtain r where r: "regions_of (memory c) = [r]"
    by (cases "regions_of (memory c)") auto
  then have "granted s p = Some (area_of r)" using i(3) p unfolding isolation_inv_def by blast
  then show ?thesis
    using r by (simp add: reach_def area_of_def Region_end_def capsule_bytes_def held_bytes_def region_bytes_def)
qed

lemma capsule_not_free:
  assumes "memory_inv s" and "CAPSULES s cid = Some c"
  shows "capsule_bytes c \<inter> free_bytes (REGIONS s) = {}"
  using memory_invD(2)[OF assms] by (fastforce simp: capsule_bytes_def held_bytes_def holds_def)

lemma bind_outcome_Panicked: "bind_outcome r f = Panicked \<longleftrightarrow> r = Panicked \<or> (\<exists>a. r = Done a \<and> f a = Panicked)"
  by (cases r) auto

lemma run_next_no_panic:
  assumes "one_area s"
  shows "run_next pf me must s \<noteq> Some Panicked"
proof (cases "picked pf me s")
  case None
  then have c: "candidates me s = []" by (simp add: picked_None_iff)
  then show ?thesis
    using run_loop_diverges[OF c, of pf] run_loop_idle[OF None, of False] by (cases must) (auto simp: run_next_def)
next
  case (Some vs)
  then obtain v s' where p: "picked pf me s = Some (v, s')" by (cases vs) auto
  have "\<not> too_many_regions s' (get_capsule_id v)"
    using assms picked_fields[OF p] by (fastforce simp: too_many_regions_def one_area_def split: option.splits)
  then obtain u where "context_switch pf me v s' = Done u" using context_switch_total by blast
  then show ?thesis
    using run_next_found[OF _ p, of must] by (cases "smode_supported s me") (simp, simp add: run_next_def)
qed

section \<open>Properties\<close>

text \<open>C1: capsules are isolated from each other. In every reachable state, code that runs on a core for an
  existing capsule that has RAM reaches exactly the capsule's RAM: nothing of the free pool, nothing
  of another capsule, and nothing that a core running another capsule reaches.\<close>

theorem capsule_isolation:
  assumes "machine_ok pf dtb" and "hv_reachable pf dtb (A, s)"
    and "p \<in> A" and "running s p = Some v" and "CAPSULES s (get_capsule_id v) = Some c" and "capsule_bytes c \<noteq> {}"
  shows "reach s p = capsule_bytes c \<and> reach s p \<inter> free_bytes (REGIONS s) = {}
    \<and> (\<forall>j d. j \<noteq> get_capsule_id v \<and> CAPSULES s j = Some d \<longrightarrow> reach s p \<inter> capsule_bytes d = {})
    \<and> (\<forall>q w d. q \<in> A \<and> running s q = Some w \<and> CAPSULES s (get_capsule_id w) = Some d \<and> capsule_bytes d \<noteq> {}
         \<and> get_capsule_id w \<noteq> get_capsule_id v \<longrightarrow> reach s p \<inter> reach s q = {})"
proof -
  have inv: "system_inv (A, s)" by (rule reachable_system_inv[OF assms(1,2)])
  note m = system_invD(1)[OF inv] and own = isolated_reach[OF inv]
  have p: "reach s p = capsule_bytes c" by (rule own[OF assms(3-6)])
  have apart: "capsule_bytes c \<inter> capsule_bytes d = {}" if "j \<noteq> get_capsule_id v" "CAPSULES s j = Some d" for j d
    using memory_invD(3)[OF m assms(5) that(2)] that(1) by blast
  have "reach s p \<inter> reach s q = {}"
    if "q \<in> A" "running s q = Some w" "CAPSULES s (get_capsule_id w) = Some d" "capsule_bytes d \<noteq> {}"
      "get_capsule_id w \<noteq> get_capsule_id v" for q w d
    using own[OF that(1-4)] p apart[OF that(5,3)] by simp
  then show ?thesis using p apart capsule_not_free[OF m assms(5)] by blast
qed

text \<open>C11: no interrupt and no exception makes the hypervisor panic: in a reachable state no capsule has more
  than one area of RAM, the one case in which giving access to a capsule's RAM panics.\<close>

theorem irq_never_panics:
  assumes "machine_ok pf dtb" and "hv_reachable pf dtb (A, s)"
  shows "hypervisor_irq_handler pf me dispatch w s \<noteq> Some Panicked"
proof -
  have inv: "system_inv (A, s)" by (rule reachable_system_inv[OF assms])
  have "iteration_ok pf" using assms(1) by (simp add: machine_ok_def)
  moreover have "system_inv (A, hvalert me f as s)" for f as
    by (rule system_inv_essence[OF inv]) (use system_invD(5)[OF inv] in simp_all)
  ultimately have "one_area (kill_running_capsule pf me (hvalert me f as s))" for f as
    using system_invD(6)[OF system_inv_kill] by blast
  then have k: "run_next pf me True (kill_running_capsule pf me (hvalert me f as s)) \<noteq> Some Panicked" for f as
    by (rule run_next_no_panic)
  have r: "run_next pf me False s \<noteq> Some Panicked" by (rule run_next_no_panic[OF system_invD(6)[OF inv]])
  have "handle_exception pf me irq s \<noteq> Some Panicked" for irq
    using k by (simp add: handle_exception_def Let_def)
  moreover have "handle_interrupt pf me irq s \<noteq> Some Panicked" for irq
  proof (cases "cause irq = HypervisorTimer")
    case True
    then show ?thesis using r by (auto simp: handle_interrupt_def bind_outcome_Panicked)
  qed (auto simp: handle_interrupt_def split: IRQCause.splits)
  ultimately show ?thesis by (simp add: hypervisor_irq_handler_def Let_def split: IRQType.splits)
qed

section \<open>An example run\<close>

text \<open>Power-on, and the first tick of the timer: the boot capsule runs on core 0.\<close>

lemma example_run:
  obtains u v r where "hv_reachable example_platform [] ({0}, u)" "running u 0 = Some v"
    "CAPSULES u (get_capsule_id v) = Some (boot_capsule r)" "rgn_size r = 0x8000000"
proof -
  obtain t where t: "hvmain example_platform 0 BOOT_PCORE_ID [] (hv_start (\<lambda>_. blank_core) (\<lambda>_. 0)) = Some (Ok (), t)"
    using example_boot by blast
  have sup: "cpu_supervisor example_platform 0" by (simp add: example_platform_def)
  have b: "hv_begin example_platform [] ({0}, t)"
    using hv_begin.boot[where pf = example_platform and dtb = "[]" and s = t] t by (simp add: BOOT_PCORE_ID_def)
  obtain u cid r entry where u: "run_next example_platform 0 False t = Some (Done u)"
    "CAPSULES u = [cid \<mapsto> boot_capsule r]" "running u 0 = Some (boot_vcore example_platform cid entry)"
    "rgn_size r = 0x8000000"
    using first_tick[OF example_machine t sup] by blast
  have "hv_step example_platform [] ({0}, t) ({0}, u)"
    by (rule hv_step.rescheduled[OF _ u(1)]) simp
  then have "hv_reachable example_platform [] ({0}, u)"
    by (rule reachable.follow[of "hv_begin example_platform []", rotated]) (rule reachable.first, rule b)
  then show ?thesis
    using that[of u "boot_vcore example_platform cid entry" r] u by (simp add: boot_vcore_def get_capsule_id_def)
qed

text \<open>Two capsules on two cores: the second core comes up, a second capsule is set up, and the timer ticks
  once on each core.\<close>

lemma tick_global:
  assumes "smode_supported s me" and "ScheduleQueues_dequeue (GLOBAL_QUEUES s) = (Some v, q)"
    and "one_area s"
  obtains t where "run_next pf me False s = Some (Done t)" "VCORES t = (VCORES s)(PhysicalCore_get_id s me \<mapsto> v)"
    "CAPSULES t = CAPSULES s" "GLOBAL_QUEUES t = q" "\<And>p. smode_supported t p = smode_supported s p" "REGIONS t = REGIONS s"
proof -
  let ?s = "count_workload me (s\<lparr>GLOBAL_QUEUES := q\<rparr>)"
  have p: "picked pf me s = Some (v, ?s)" using assms(2) by (simp add: picked_def)
  have "\<not> too_many_regions ?s (get_capsule_id v)"
    using assms(3) by (fastforce simp: too_many_regions_def one_area_def split: option.splits)
  then obtain u where u: "context_switch pf me v ?s = Done u" using context_switch_total by blast
  note f = context_switch_Done[OF u]
  have "smode_supported u p = smode_supported s p" for p using f(4)[of p] by (simp add: smode_supported_def)
  then show ?thesis
    using that[of "scheduler_timer_next me TIMESLICE_LENGTH u"] run_next_found[OF assms(1) p] u f(1,2)
    by (simp add: switch_frame_def smode_supported_def PhysicalCore_get_id_def)
qed

lemma example_upper_half:
  "fst (alloc_region \<lparr>regions = [\<lparr>rgn_base = 0x88000000, rgn_size = 0x8000000\<rparr>]\<rparr> 0x8000000) =
     Ok \<lparr>rgn_base = 0x88000000, rgn_size = 0x8000000\<rparr>"
  by code_simp

lemma example_lower_half:
  assumes "parse_devices example_platform [] = Some d"
  shows "alloc_region (host_pool example_platform d) 0x8000000 =
      (Ok \<lparr>rgn_base = 0x80000000, rgn_size = 0x8000000\<rparr>, \<lparr>regions = [\<lparr>rgn_base = 0x88000000, rgn_size = 0x8000000\<rparr>]\<rparr>)"
proof -
  have "host_areas example_platform d = [\<lparr>rgn_base = 0x80000000, rgn_size = 0x10000000\<rparr>]"
    using assms by (auto simp: host_areas_def example_platform_def area_region_def Region_new_def)
  moreover have "alloc_region (give_back dealloc_region SortedRegions_new [\<lparr>rgn_base = 0x80000000, rgn_size = 0x10000000\<rparr>])
      0x8000000 = (Ok \<lparr>rgn_base = 0x80000000, rgn_size = 0x8000000\<rparr>,
        \<lparr>regions = [\<lparr>rgn_base = 0x88000000, rgn_size = 0x8000000\<rparr>]\<rparr>)"
    by code_simp
  ultimately show ?thesis by (simp only: host_pool_def)
qed

lemma example_second_capsule:
  fixes t :: "(usize, usize) hv"
  assumes "REGIONS t = \<lparr>regions = [\<lparr>rgn_base = 0x88000000, rgn_size = 0x8000000\<rparr>]\<rparr>" and "CAPSULES t = [cid \<mapsto> c]"
  obtains cid' entry where "cid' \<noteq> cid"
    "CAPSULES (snd (create_boot_capsule example_platform 0 t)) = [cid \<mapsto> c,
       cid' \<mapsto> boot_capsule \<lparr>rgn_base = 0x88000000, rgn_size = 0x8000000\<rparr>]"
    "GLOBAL_QUEUES (snd (create_boot_capsule example_platform 0 t)) =
       ScheduleQueues_queue (GLOBAL_QUEUES t) (boot_vcore example_platform cid' entry)"
  using example_platform_iteration
proof (cases rule: create_boot_capsule_cases[where pf = example_platform and me = 0 and s = t])
  case exhausted
  moreover have "CAPSULES t (cid + 1) = None" using assms(2) by simp
  ultimately show ?thesis by blast
next
  case (no_memory cid' c')
  then show ?thesis using example_upper_half assms(1) by simp
next
  case (not_loaded cid' r R e u)
  then have "r = \<lparr>rgn_base = 0x88000000, rgn_size = 0x8000000\<rparr>" using example_upper_half assms(1) by simp
  then have "is_ok (fst (load example_platform 0 r (boot_supervisor (boot_supervisor_area example_platform))
      (with_boot_ram cid' r R t)))"
    by (intro example_load) (auto simp: region_bytes_def bytes_def)
  then show ?thesis using not_loaded(3) by simp
next
  case (loaded cid' r R entry u)
  then have "r = \<lparr>rgn_base = 0x88000000, rgn_size = 0x8000000\<rparr>" using example_upper_half assms(1) by simp
  then show ?thesis using that[of cid' entry] loaded(1,4) assms(2) by (auto split: if_splits)
qed

lemma two_queued:
  assumes "GLOBAL_QUEUES s = ScheduleQueues_queue (ScheduleQueues_queue ScheduleQueues_new v) w"
    and "get_priority v = High" and "get_priority w = High"
  shows "ScheduleQueues_dequeue (GLOBAL_QUEUES s) = (Some v, ScheduleQueues_queue ScheduleQueues_new w)"
    and "ScheduleQueues_dequeue (ScheduleQueues_queue ScheduleQueues_new w) = (Some w, ScheduleQueues_new)"
  using assms by (simp_all add: ScheduleQueues_queue_def ScheduleQueues_new_def
        ScheduleQueues_dequeue_def dequeue_by_priority_def HIGH_PRIO_TIMESLICES_MAX_def)

lemma reachable_step: "hv_reachable pf dtb x \<Longrightarrow> hv_step pf dtb x y \<Longrightarrow> hv_reachable pf dtb y"
  by (rule reachable.follow[of "hv_begin pf dtb"])

text \<open>The boot capsule is waiting, and two cores are up.\<close>

lemma example_two_up:
  obtains t cid entry where "hv_reachable example_platform [] ({0, 1}, t)"
    "smode_supported t 0" "smode_supported t 1" "VCORES t = Map.empty"
    "CAPSULES t = [cid \<mapsto> boot_capsule \<lparr>rgn_base = 0x80000000, rgn_size = 0x8000000\<rparr>]"
    "REGIONS t = \<lparr>regions = [\<lparr>rgn_base = 0x88000000, rgn_size = 0x8000000\<rparr>]\<rparr>"
    "GLOBAL_QUEUES t = ScheduleQueues_queue ScheduleQueues_new (boot_vcore example_platform cid entry)"
proof -
  let ?pf = example_platform
  have sup: "cpu_supervisor ?pf p" for p by (simp add: example_platform_def)
  obtain t0 where h0: "hvmain ?pf 0 BOOT_PCORE_ID [] (hv_start (\<lambda>_. blank_core) (\<lambda>_. 0)) = Some (Ok (), t0)"
    using example_boot by blast
  obtain d where d: "booted ?pf d t0" "VCORES t0 = Map.empty" "smode_supported t0 0" "parse_devices ?pf [] = Some d"
    by (rule hvmain_boot_result[OF example_machine, of 0 "[]" "\<lambda>_. blank_core" "\<lambda>_. 0"]) (use h0 sup in auto)
  then obtain cid entry where c0: "CAPSULES t0 = [cid \<mapsto> boot_capsule \<lparr>rgn_base = 0x80000000, rgn_size = 0x8000000\<rparr>]"
    "REGIONS t0 = \<lparr>regions = [\<lparr>rgn_base = 0x88000000, rgn_size = 0x8000000\<rparr>]\<rparr>" "INIT_DONE t0"
    "GLOBAL_QUEUES t0 = ScheduleQueues_queue ScheduleQueues_new (boot_vcore ?pf cid entry)"
    using example_lower_half[OF d(4)] by (auto simp: booted_def)
  have "hv_begin ?pf [] ({0}, t0)"
    using hv_begin.boot[where pf = ?pf and dtb = "[]" and s = t0] h0 by (simp add: BOOT_PCORE_ID_def)
  then have r0: "hv_reachable ?pf [] ({0}, t0)" by (rule reachable.first[of "hv_begin ?pf []"])
  obtain r1 t1 where h1: "hvmain ?pf 1 1 [] t0 = Some (r1, t1)"
    using c0(3) by (auto simp: hvmain_def Let_def BOOT_PCORE_ID_def scheduler_start_def)
  have f1: "CAPSULES t1 = CAPSULES t0" "REGIONS t1 = REGIONS t0" "GLOBAL_QUEUES t1 = GLOBAL_QUEUES t0"
    "VCORES t1 = Map.empty" "smode_supported t1 0" "smode_supported t1 1"
    using h1 d(2,3) sup c0(3) by (auto simp: hvmain_def Let_def BOOT_PCORE_ID_def scheduler_start_def smode_supported_def
        PhysicalCore_init_def create_mailbox_def with_pvars_def split: prod.splits)
  have r1: "hv_reachable ?pf [] ({0, 1}, t1)"
    using reachable_step[OF r0 hv_step.core_up[OF _ _ h1]] by (simp add: BOOT_PCORE_ID_def insert_commute)
  show ?thesis by (rule that[OF r1 f1(5,6,4)]) (use f1 c0 in simp_all)
qed

lemma example_two_ready:
  obtains t cid cid' entry entry' where "hv_reachable example_platform [] ({0, 1}, t)" "cid' \<noteq> cid"
    "smode_supported t 0" "smode_supported t 1"
    "CAPSULES t = [cid \<mapsto> boot_capsule \<lparr>rgn_base = 0x80000000, rgn_size = 0x8000000\<rparr>,
       cid' \<mapsto> boot_capsule \<lparr>rgn_base = 0x88000000, rgn_size = 0x8000000\<rparr>]"
    "GLOBAL_QUEUES t = ScheduleQueues_queue (ScheduleQueues_queue ScheduleQueues_new
       (boot_vcore example_platform cid entry)) (boot_vcore example_platform cid' entry')"
proof -
  let ?pf = example_platform
  obtain t1 cid entry where r1: "hv_reachable ?pf [] ({0, 1}, t1)" and s1: "smode_supported t1 0" "smode_supported t1 1"
    and f1: "VCORES t1 = Map.empty" "CAPSULES t1 = [cid \<mapsto> boot_capsule \<lparr>rgn_base = 0x80000000, rgn_size = 0x8000000\<rparr>]"
    "REGIONS t1 = \<lparr>regions = [\<lparr>rgn_base = 0x88000000, rgn_size = 0x8000000\<rparr>]\<rparr>"
    "GLOBAL_QUEUES t1 = ScheduleQueues_queue ScheduleQueues_new (boot_vcore ?pf cid entry)"
    by (rule example_two_up)
  define t2 where "t2 = snd (create_boot_capsule ?pf 0 t1)"
  obtain cid' entry' where c2: "cid' \<noteq> cid" "CAPSULES t2 = [cid \<mapsto> boot_capsule \<lparr>rgn_base = 0x80000000, rgn_size = 0x8000000\<rparr>,
       cid' \<mapsto> boot_capsule \<lparr>rgn_base = 0x88000000, rgn_size = 0x8000000\<rparr>]"
    "GLOBAL_QUEUES t2 = ScheduleQueues_queue (ScheduleQueues_queue ScheduleQueues_new (boot_vcore ?pf cid entry))
       (boot_vcore ?pf cid' entry')"
    unfolding t2_def by (rule example_second_capsule[of t1 cid]) (use f1 in auto)
  note f2 = create_boot_capsule_frame[OF example_platform_iteration, of 0 t1, folded t2_def]
  have s2: "smode_supported t2 0" "smode_supported t2 1" using s1 f2(8) by (simp_all add: smode_supported_def)
  have r2: "hv_reachable ?pf [] ({0, 1}, t2)" unfolding t2_def
    by (rule reachable_step[OF r1 hv_step.provided]) (simp_all add: not_reused_def running_def f1(1))
  show ?thesis by (rule that[OF r2 c2(1) s2 c2(2,3)])
qed

lemma example_two_capsules:
  obtains u v w where "hv_reachable example_platform [] ({0, 1}, u)"
    "running u 0 = Some v" "running u 1 = Some w" "get_capsule_id v \<noteq> get_capsule_id w"
    "CAPSULES u (get_capsule_id v) = Some (boot_capsule \<lparr>rgn_base = 0x80000000, rgn_size = 0x8000000\<rparr>)"
    "CAPSULES u (get_capsule_id w) = Some (boot_capsule \<lparr>rgn_base = 0x88000000, rgn_size = 0x8000000\<rparr>)"
proof -
  let ?pf = example_platform
  obtain t2 cid cid' entry entry' where r2: "hv_reachable ?pf [] ({0, 1}, t2)" and c2: "cid' \<noteq> cid"
    "CAPSULES t2 = [cid \<mapsto> boot_capsule \<lparr>rgn_base = 0x80000000, rgn_size = 0x8000000\<rparr>,
       cid' \<mapsto> boot_capsule \<lparr>rgn_base = 0x88000000, rgn_size = 0x8000000\<rparr>]"
    "GLOBAL_QUEUES t2 = ScheduleQueues_queue (ScheduleQueues_queue ScheduleQueues_new (boot_vcore ?pf cid entry))
       (boot_vcore ?pf cid' entry')" and s2: "smode_supported t2 0" "smode_supported t2 1"
    by (rule example_two_ready)
  have one: "one_area t" "PhysicalCore_get_id t 0 = 0" "PhysicalCore_get_id t 1 = 1" if "hv_reachable ?pf [] ({0, 1}, t)" for t
    using system_invD(4,6)[OF reachable_system_inv[OF example_machine that]] by (auto simp: cores_inv_def)
  have high: "get_priority (boot_vcore ?pf i e) = High" for i e by (simp add: get_priority_def boot_vcore_def)
  note q = two_queued[OF c2(3) high high]
  obtain t3 where t3: "run_next ?pf 0 False t2 = Some (Done t3)" "VCORES t3 = (VCORES t2)(0 \<mapsto> boot_vcore ?pf cid entry)"
    "CAPSULES t3 = CAPSULES t2" "GLOBAL_QUEUES t3 = ScheduleQueues_queue ScheduleQueues_new (boot_vcore ?pf cid' entry')"
    "smode_supported t3 1"
    by (rule tick_global[OF s2(1) q(1) one(1)[OF r2], of ?pf]) (use one(2)[OF r2] s2(2) in simp)
  have r3: "hv_reachable ?pf [] ({0, 1}, t3)" by (rule reachable_step[OF r2 hv_step.rescheduled[OF _ t3(1)]]) simp
  obtain t4 where t4: "run_next ?pf 1 False t3 = Some (Done t4)" "VCORES t4 = (VCORES t3)(1 \<mapsto> boot_vcore ?pf cid' entry')"
    "CAPSULES t4 = CAPSULES t3"
    by (rule tick_global[OF t3(5) _ one(1)[OF r3], of _ _ ?pf]) (use one(3)[OF r3] q(2) t3(4) in auto)
  have r4: "hv_reachable ?pf [] ({0, 1}, t4)" by (rule reachable_step[OF r3 hv_step.rescheduled[OF _ t4(1)]]) simp
  show ?thesis
    by (rule that[OF r4, of "boot_vcore ?pf cid entry" "boot_vcore ?pf cid' entry'"])
      (use one(2,3)[OF r4] t3(2,3) t4(2,3) c2(1,2) in \<open>simp_all add: running_def boot_vcore_def get_capsule_id_def\<close>)
qed

theorem capsule_isolation_witness:
  "\<exists>u. hv_reachable example_platform [] ({0, 1}, u) \<and> reach u 0 = {0x80000000 ..< 0x88000000}
     \<and> reach u 1 = {0x88000000 ..< 0x90000000} \<and> reach u 0 \<inter> free_bytes (REGIONS u) = {}"
proof -
  obtain u v w where u: "hv_reachable example_platform [] ({0, 1}, u)"
    "running u 0 = Some v" "running u 1 = Some w" "get_capsule_id v \<noteq> get_capsule_id w"
    "CAPSULES u (get_capsule_id v) = Some (boot_capsule \<lparr>rgn_base = 0x80000000, rgn_size = 0x8000000\<rparr>)"
    "CAPSULES u (get_capsule_id w) = Some (boot_capsule \<lparr>rgn_base = 0x88000000, rgn_size = 0x8000000\<rparr>)"
    by (rule example_two_capsules) blast
  have b: "capsule_bytes (boot_capsule \<lparr>rgn_base = 0x80000000, rgn_size = 0x8000000\<rparr>) = {0x80000000 ..< 0x88000000}"
    "capsule_bytes (boot_capsule \<lparr>rgn_base = 0x88000000, rgn_size = 0x8000000\<rparr>) = {0x88000000 ..< 0x90000000}"
    by (simp_all add: boot_capsule_def capsule_bytes_def held_bytes_def get_physical_def region_bytes_def bytes_def)
  then have ne: "capsule_bytes (boot_capsule \<lparr>rgn_base = 0x80000000, rgn_size = 0x8000000\<rparr>) \<noteq> {}"
    "capsule_bytes (boot_capsule \<lparr>rgn_base = 0x88000000, rgn_size = 0x8000000\<rparr>) \<noteq> {}" by simp_all
  have m: "0 \<in> {0, 1 :: usize}" "1 \<in> {0, 1 :: usize}" by simp_all
  note i = capsule_isolation[OF example_machine u(1) m(1) u(2,5) ne(1)]
    and j = capsule_isolation[OF example_machine u(1) m(2) u(3,6) ne(2)]
  show ?thesis
    using u(1) conjunct1[OF i] conjunct1[OF j] conjunct1[OF conjunct2[OF i]] unfolding b by blast
qed

theorem irq_never_panics_witness:
  "\<exists>u v. hv_reachable example_platform [] ({0}, u) \<and> running u 0 = Some v
     \<and> hypervisor_irq_handler example_platform 0 (\<lambda>_. fatal_irq) () u \<noteq> Some Panicked"
proof -
  obtain u v r where u: "hv_reachable example_platform [] ({0}, u)" "running u 0 = Some v" by (rule example_run) blast
  moreover have "hypervisor_irq_handler example_platform 0 (\<lambda>_. fatal_irq) () u \<noteq> Some Panicked"
    by (rule irq_never_panics[OF example_machine u(1)])
  ultimately show ?thesis by blast
qed

end
