(* ===== verification/Hv_Locks.thy ===== *)
theory Hv_Locks
  imports Hv_System
begin

text \<open>
  The locks of the crate. The other theories treat an operation as one step; here an operation is
  the sequence in which it takes and releases the locks of the statics it uses, and the operations
  of different cores interleave at every lock. A guard that is a temporary of the scrutinee of a
  \<open>match\<close>, \<open>if let\<close> or \<open>for\<close> lives until the end of that expression, one bound by \<open>let\<close> until the end of its block.

  Interrupts are steps too: a handler's operations come before what the core still has to do. If a core is interrupted while it
  holds a lock that the handler takes, it hangs; if all it holds ranks below what the handler takes, no deadlock
  arises. The console's queue is taken to have room here; what happens when it has to grow and the heap is full is the
  subject of \<open>Hv_Alloc\<close>.
\<close>

section \<open>Cores that take locks in order\<close>

datatype 'l act = Acq 'l | Rel 'l

text \<open>A core: the locks it holds and what it still has to do.\<close>

type_synonym ('p, 'l) lock_state = "'p \<Rightarrow> 'l set \<times> 'l act list"

inductive lock_step :: "('p, 'l) lock_state \<Rightarrow> ('p, 'l) lock_state \<Rightarrow> bool" where
  acquire: "s p = (H, Acq l # as) \<Longrightarrow> \<forall>q. l \<notin> fst (s q) \<Longrightarrow> lock_step s (s(p := (insert l H, as)))"
| release: "s p = (H, Rel l # as) \<Longrightarrow> lock_step s (s(p := (H - {l}, as)))"

fun orderly :: "('l \<Rightarrow> nat) \<Rightarrow> 'l set \<Rightarrow> 'l act list \<Rightarrow> bool" where
  "orderly rk H [] \<longleftrightarrow> H = {}"
| "orderly rk H (Acq l # as) \<longleftrightarrow> (\<forall>k\<in>H. rk k < rk l) \<and> orderly rk (insert l H) as"
| "orderly rk H (Rel l # as) \<longleftrightarrow> l \<in> H \<and> orderly rk (H - {l}) as"

definition lock_inv :: "('l \<Rightarrow> nat) \<Rightarrow> ('p, 'l) lock_state \<Rightarrow> bool" where
  "lock_inv rk s \<longleftrightarrow> (\<forall>p. orderly rk (fst (s p)) (snd (s p)))
     \<and> (\<forall>p q. p \<noteq> q \<longrightarrow> fst (s p) \<inter> fst (s q) = {})"

definition lock_start :: "('l act list \<Rightarrow> bool) \<Rightarrow> ('p, 'l) lock_state \<Rightarrow> bool" where
  "lock_start prog s \<longleftrightarrow> (\<forall>p. fst (s p) = {} \<and> prog (snd (s p)))"

text \<open>
  A core can be interrupted: a handler's actions come before what it still has to do. The relation is restricted
  to interrupts that arrive while every lock the core holds ranks below every lock the handler takes,
  in particular to those that arrive while it holds none.
\<close>

definition above :: "('l \<Rightarrow> nat) \<Rightarrow> 'l set \<Rightarrow> 'l act list \<Rightarrow> bool" where
  "above rk H bs \<longleftrightarrow> (\<forall>l. Acq l \<in> set bs \<longrightarrow> (\<forall>k\<in>H. rk k < rk l))"

inductive irq_step :: "('l \<Rightarrow> nat) \<Rightarrow> ('l act list \<Rightarrow> bool) \<Rightarrow> ('p, 'l) lock_state \<Rightarrow> ('p, 'l) lock_state \<Rightarrow> bool"
  for rk prog where
  went_on: "lock_step s t \<Longrightarrow> irq_step rk prog s t"
| interrupted: "s p = (H, as) \<Longrightarrow> prog bs \<Longrightarrow> above rk H bs \<Longrightarrow> irq_step rk prog s (s(p := (H, bs @ as)))"

lemma orderly_handler:
  "orderly rk J bs \<Longrightarrow> above rk H bs \<Longrightarrow> J \<inter> H = {} \<Longrightarrow> (\<forall>k\<in>H. \<forall>l\<in>J. rk k < rk l) \<Longrightarrow> orderly rk H as \<Longrightarrow>
   orderly rk (J \<union> H) (bs @ as)"
proof (induction rk J bs rule: orderly.induct)
  case (2 rk J l bs)
  have l: "\<forall>k\<in>H. rk k < rk l" using "2.prems"(2) by (simp add: above_def)
  then have "l \<notin> H" by auto
  then have "orderly rk (insert l J \<union> H) (bs @ as)"
    using "2.prems" l by (intro "2.IH") (auto simp: above_def)
  then show ?case using "2.prems"(1) l by auto
next
  case (3 rk J l bs)
  then have "orderly rk ((J - {l}) \<union> H) (bs @ as)" by (intro "3.IH") (auto simp: above_def)
  moreover have "J \<union> H - {l} = (J - {l}) \<union> H" using "3.prems"(1,3) by auto
  ultimately show ?case using "3.prems"(1) by simp
qed simp

text \<open>The interface: programs that take their locks in the order of a bounded rank.\<close>

locale ordered_locks =
  fixes rank :: "'l \<Rightarrow> nat" and bound :: nat and prog :: "'l act list \<Rightarrow> bool"
  assumes rank_bound: "rank l < bound"
    and prog_orderly: "prog as \<Longrightarrow> orderly rank {} as"
begin

lemma start_lock_inv: "lock_start prog s \<Longrightarrow> lock_inv rank s"
  by (simp add: lock_start_def lock_inv_def prog_orderly)

lemma step_lock_inv: "lock_inv rank s \<Longrightarrow> lock_step s t \<Longrightarrow> lock_inv rank t"
proof (erule lock_step.cases, goal_cases)
  case (1 s' p H l as)
  then have p: "fst (s' p) = H" "snd (s' p) = Acq l # as" by simp_all
  have o: "orderly rank (insert l H) as"
    using 1(1,2) p unfolding lock_inv_def by (metis orderly.simps(2))
  have "fst (t q) \<inter> fst (t r) = {}" if "q \<noteq> r" for q r
  proof -
    have "fst (s' q) \<inter> fst (s' r) = {}" "l \<notin> fst (s' q)" "l \<notin> fst (s' r)"
      using 1 that unfolding lock_inv_def by blast+
    then show ?thesis using that 1(3) p by auto
  qed
  moreover have "orderly rank (fst (t q)) (snd (t q))" for q
    using 1(1-3) o by (cases "q = p") (simp_all add: lock_inv_def)
  ultimately show ?case by (simp add: lock_inv_def)
next
  case (2 s' p H l as)
  then have p: "fst (s' p) = H" "snd (s' p) = Rel l # as" by simp_all
  have o: "orderly rank (H - {l}) as"
    using 2(1,2) p unfolding lock_inv_def by (metis orderly.simps(3))
  have "fst (t q) \<inter> fst (t r) = {}" if "q \<noteq> r" for q r
  proof -
    have "fst (s' q) \<inter> fst (s' r) = {}" using 2 that unfolding lock_inv_def by blast
    then show ?thesis using that 2(3) p by auto
  qed
  moreover have "orderly rank (fst (t q)) (snd (t q))" for q
    using 2(1-3) o by (cases "q = p") (simp_all add: lock_inv_def)
  ultimately show ?case by (simp add: lock_inv_def)
qed

lemma interrupt_lock_inv:
  assumes "lock_inv rank s" and "s p = (H, as)" and "prog bs" and "above rank H bs"
  shows "lock_inv rank (s(p := (H, bs @ as)))"
proof -
  have o: "orderly rank (fst (s q)) (snd (s q))" for q using assms(1) by (simp add: lock_inv_def)
  then have "orderly rank H (bs @ as)"
    using orderly_handler[OF prog_orderly[OF assms(3)] assms(4), of as] o[of p] assms(2) by simp
  then show ?thesis using assms(1,2) o by (force simp: lock_inv_def)
qed

lemma irq_step_lock_inv: "lock_inv rank s \<Longrightarrow> irq_step rank prog s t \<Longrightarrow> lock_inv rank t"
  by (erule irq_step.cases) (auto intro: step_lock_inv interrupt_lock_inv)

text \<open>A core that waits for a lock finds some core that need not wait: follow the holders, each of whom
  waits, if at all, for a lock of higher rank.\<close>

lemma waiting_progress:
  "lock_inv rank s \<Longrightarrow> snd (s p) = Acq l # as \<Longrightarrow> \<exists>t. lock_step s t"
proof (induction "bound - rank l" arbitrary: p l as rule: less_induct)
  case less
  show ?case
  proof (cases "\<exists>q. l \<in> fst (s q)")
    case False
    then show ?thesis using less.prems(2) by (metis lock_step.acquire prod.collapse)
  next
    case True
    then obtain q where q: "l \<in> fst (s q)" by blast
    have o: "orderly rank (fst (s q)) (snd (s q))" using less.prems(1) by (simp add: lock_inv_def)
    show ?thesis
    proof (cases "snd (s q)" rule: list.exhaust)
      case Nil
      then show ?thesis using o q by simp
    next
      case (Cons a bs)
      show ?thesis
      proof (cases a)
        case (Acq k)
        then have "rank l < rank k" using o q Cons by simp
        then show ?thesis using less.hyps[of k q bs] less.prems(1) Cons Acq rank_bound[of k] by force
      next
        case (Rel k)
        then show ?thesis using Cons by (metis lock_step.release prod.collapse)
      qed
    qed
  qed
qed

lemma no_deadlock:
  assumes "lock_inv rank s" and "snd (s p) \<noteq> []"
  shows "\<exists>t. lock_step s t"
proof (cases "hd (snd (s p))")
  case (Acq l)
  then show ?thesis
    using waiting_progress[OF assms(1), of p l] assms(2) by (metis list.collapse)
next
  case (Rel l)
  then show ?thesis using assms(2) by (metis list.collapse lock_step.release prod.collapse)
qed

lemma step_shorter:
  assumes "lock_step s t" and "finite (UNIV :: 'p set)"
  shows "(\<Sum>p\<in>UNIV. length (snd (t p))) < (\<Sum>p\<in>(UNIV :: 'p set). length (snd (s p)))"
  using assms(1)
proof (cases rule: lock_step.cases)
  case (acquire p H l as)
  then show ?thesis by (intro sum_strict_mono_ex1[OF assms(2)]) auto
next
  case (release p H l as)
  then show ?thesis by (intro sum_strict_mono_ex1[OF assms(2)]) auto
qed

text \<open>However the cores have interleaved so far, they can all finish.\<close>

lemma all_finish:
  fixes s :: "('p, 'l) lock_state"
  assumes "finite (UNIV :: 'p set)"
  shows "lock_inv rank s \<Longrightarrow>
    \<exists>t. lock_step\<^sup>*\<^sup>* s t \<and> (\<forall>p. t p = ({}, []))"
proof (induction "\<Sum>p\<in>UNIV. length (snd (s p))" arbitrary: s rule: less_induct)
  case less
  show ?case
  proof (cases "\<forall>p. snd (s p) = []")
    case True
    have "orderly rank (fst (s p)) (snd (s p))" for p
      using less.prems by (simp add: lock_inv_def)
    then have "s p = ({}, [])" for p using True by (metis orderly.simps(1) prod.collapse)
    then show ?thesis by blast
  next
    case False
    then obtain u where u: "lock_step s u" using no_deadlock[OF less.prems] by blast
    from less.hyps[OF step_shorter[OF u assms] step_lock_inv[OF less.prems u]]
    obtain t where "lock_step\<^sup>*\<^sup>* u t" "\<forall>p. t p = ({}, [])" by blast
    then show ?thesis using u by (meson converse_rtranclp_into_rtranclp)
  qed
qed

end

sublocale ordered_locks \<subseteq> lock_safety: invariant_system "lock_start prog" "irq_step rank prog" "lock_inv rank"
  by unfold_locales (fact start_lock_inv, fact irq_step_lock_inv)

section \<open>The locks of the crate and their order\<close>

datatype Lock = GLOBAL_QUEUES_lock | WORKLOAD_lock | VCORES_lock | PCORES_lock | CAPSULE_ID_NEXT_lock
  | CAPSULES_lock | SERVICES_lock | MAILBOXES_lock | REGIONS_lock | INIT_DONE_lock
  | DEBUG_LOCK_lock | DEBUG_QUEUE_lock | OWNER_lock | HARDWARE_lock

primrec lock_rank :: "Lock \<Rightarrow> nat" where
  "lock_rank GLOBAL_QUEUES_lock = 0"
| "lock_rank WORKLOAD_lock = 1"
| "lock_rank VCORES_lock = 2"
| "lock_rank PCORES_lock = 2"
| "lock_rank CAPSULE_ID_NEXT_lock = 2"
| "lock_rank CAPSULES_lock = 3"
| "lock_rank SERVICES_lock = 4"
| "lock_rank MAILBOXES_lock = 4"
| "lock_rank REGIONS_lock = 4"
| "lock_rank INIT_DONE_lock = 4"
| "lock_rank DEBUG_LOCK_lock = 5"
| "lock_rank DEBUG_QUEUE_lock = 6"
| "lock_rank OWNER_lock = 7"
| "lock_rank HARDWARE_lock = 8"

section \<open>What each operation locks\<close>

text \<open>Work done while a lock is held, and work repeated.\<close>

definition scoped :: "'l \<Rightarrow> 'l act list \<Rightarrow> 'l act list" where
  "scoped l as = Acq l # as @ [Rel l]"

definition repeated :: "nat \<Rightarrow> 'l act list \<Rightarrow> 'l act list" where
  "repeated n as = concat (replicate n as)"

text \<open>The console: \<open>write_fmt\<close> calls \<open>write_str\<close> for each of its \<open>n\<close> pieces. A list of numbers is a sequence of
  messages, empty where none is printed.\<close>

definition hvprint_locks :: "nat \<Rightarrow> Lock act list" where
  "hvprint_locks n = scoped DEBUG_LOCK_lock (repeated n (scoped DEBUG_QUEUE_lock []))"

definition prints_locks :: "nat list \<Rightarrow> Lock act list" where
  "prints_locks ns = concat (map hvprint_locks ns)"

text \<open>The hardware, after \<open>k\<close> rounds in which the lock was not free; \<open>got\<close> tells whether it was taken in the end. The code
  tries the lock and never waits for it with \<open>OWNER\<close> held; taking it in a way that can wait, as here, only adds ways to
  get stuck.\<close>

definition hardware_locks :: "nat \<Rightarrow> bool \<Rightarrow> Lock act list" where
  "hardware_locks k got = repeated k (scoped OWNER_lock []) @
     (if got then [Acq OWNER_lock, Acq HARDWARE_lock, Rel OWNER_lock, Rel HARDWARE_lock] else [])"

definition drain_locks :: "nat \<Rightarrow> bool \<Rightarrow> Lock act list" where
  "drain_locks k got = scoped DEBUG_QUEUE_lock (hardware_locks k got)"

text \<open>Capsules. Dropping a capsule happens while the table of capsules is locked.\<close>

definition drop_locks :: "nat list \<Rightarrow> nat \<Rightarrow> nat \<Rightarrow> Lock act list" where
  "drop_locks ns r v = prints_locks ns @ repeated r (scoped REGIONS_lock []) @ repeated v (scoped SERVICES_lock [])"

definition destroy_locks :: "nat list \<Rightarrow> nat \<Rightarrow> nat \<Rightarrow> Lock act list" where
  "destroy_locks ns r v = scoped CAPSULES_lock (drop_locks ns r v)"

definition enforce_locks :: "nat list \<Rightarrow> Lock act list" where
  "enforce_locks ns = scoped CAPSULES_lock (prints_locks ns)"

definition create_locks :: "nat \<Rightarrow> nat list \<Rightarrow> Lock act list" where
  "create_locks n ns = repeated n (scoped CAPSULE_ID_NEXT_lock (scoped CAPSULES_lock [])) @ drop_locks ns 0 0"

definition create_and_add_vcore_locks :: "Lock act list" where
  "create_and_add_vcore_locks = scoped GLOBAL_QUEUES_lock [] @ scoped CAPSULES_lock []"

definition create_boot_capsule_locks :: "nat \<Rightarrow> nat list \<Rightarrow> nat list \<Rightarrow> Lock act list" where
  "create_boot_capsule_locks n ns ms =
     create_locks n ns @ scoped REGIONS_lock [] @ scoped CAPSULES_lock [] @ prints_locks ms
       @ create_and_add_vcore_locks"

text \<open>The scheduler. The guard of the global queues is a temporary of the \<open>match\<close> in whose arms the context
  switch happens; the flag \<open>change\<close> tells whether the capsule changes.\<close>

definition context_switch_locks :: "nat list \<Rightarrow> bool \<Rightarrow> nat list \<Rightarrow> Lock act list" where
  "context_switch_locks ns change ms =
     scoped VCORES_lock (prints_locks ns @ (if change then enforce_locks ms else []))
       @ scoped PCORES_lock [] @ scoped VCORES_lock []"

definition orphan_round_locks :: "nat list \<Rightarrow> bool \<Rightarrow> nat list \<Rightarrow> Lock act list" where
  "orphan_round_locks ns change ms =
     scoped GLOBAL_QUEUES_lock (scoped WORKLOAD_lock (context_switch_locks ns change ms))"

definition own_round_locks :: "nat list \<Rightarrow> bool \<Rightarrow> nat list \<Rightarrow> Lock act list" where
  "own_round_locks ns change ms = scoped GLOBAL_QUEUES_lock (context_switch_locks ns change ms)"

definition housekeeping_locks :: "nat \<Rightarrow> bool \<Rightarrow> bool \<Rightarrow> bool \<Rightarrow> Lock act list" where
  "housekeeping_locks k got busy ask = drain_locks k got @ scoped REGIONS_lock []
     @ scoped GLOBAL_QUEUES_lock ((if busy then scoped WORKLOAD_lock [] else [])
         @ (if busy \<and> ask then scoped MAILBOXES_lock [] else []))"

text \<open>Everything a core can execute, one operation after the other.\<close>

inductive hv_locks :: "Lock act list \<Rightarrow> bool" where
  idle: "hv_locks []"
| and_then: "hv_locks as \<Longrightarrow> hv_locks bs \<Longrightarrow> hv_locks (as @ bs)"
| init_core: "hv_locks (scoped MAILBOXES_lock [])"
| parse_devices: "hv_locks (scoped HARDWARE_lock [])"
| init_ram: "hv_locks (hardware_locks k True @ hardware_locks j True @ scoped REGIONS_lock (prints_locks ns))"
| announce: "hv_locks (scoped DEBUG_LOCK_lock (hardware_locks k True @ repeated n (scoped DEBUG_QUEUE_lock [])))"
| boot_capsule: "hv_locks (create_boot_capsule_locks n ns ms)"
| init_done: "hv_locks (scoped INIT_DONE_lock [])"
| log: "hv_locks (prints_locks ns)"
| drain: "hv_locks (drain_locks k got)"
| use_timer: "hv_locks (hardware_locks k True)"
| which_capsule: "hv_locks (scoped VCORES_lock [])"
| kill: "hv_locks (destroy_locks ns r v)"
| run_orphan: "hv_locks (orphan_round_locks ns change ms)"
| run_own: "hv_locks (own_round_locks ns change ms)"
| run_none: "hv_locks (scoped GLOBAL_QUEUES_lock [])"
| housekeeping: "hv_locks (housekeeping_locks k got busy ask)"
| add_vcore: "hv_locks create_and_add_vcore_locks"
| use_capsules: "hv_locks (scoped CAPSULES_lock [])"
| use_services: "hv_locks (scoped SERVICES_lock [])"
| use_mailboxes: "hv_locks (scoped MAILBOXES_lock [])"
| use_regions: "hv_locks (scoped REGIONS_lock [])"

section \<open>The order is kept\<close>

text \<open>A part of an operation that starts and ends with the same locks.\<close>

definition balanced :: "Lock set \<Rightarrow> Lock act list \<Rightarrow> bool" where
  "balanced H as \<longleftrightarrow> (\<forall>bs. orderly lock_rank H bs \<longrightarrow> orderly lock_rank H (as @ bs))"

definition below_rank :: "nat \<Rightarrow> Lock set \<Rightarrow> bool" where
  "below_rank r H \<longleftrightarrow> (\<forall>k\<in>H. lock_rank k < r)"

lemma below_rank_simps [simp]:
  "below_rank r {}" "below_rank r (insert l H) \<longleftrightarrow> lock_rank l < r \<and> below_rank r H"
  by (simp_all add: below_rank_def)

lemma below_rank_mono: "below_rank q H \<Longrightarrow> q \<le> r \<Longrightarrow> below_rank r H"
  by (auto simp: below_rank_def)

lemma below_rank_notin: "below_rank (lock_rank l) H \<Longrightarrow> l \<notin> H"
  by (auto simp: below_rank_def)

lemma balanced_Nil [simp]: "balanced H []"
  by (simp add: balanced_def)

lemma balanced_append [intro!]: "balanced H as \<Longrightarrow> balanced H bs \<Longrightarrow> balanced H (as @ bs)"
  by (simp add: balanced_def)

lemma balanced_if [intro!]:
  "(c \<Longrightarrow> balanced H as) \<Longrightarrow> (\<not> c \<Longrightarrow> balanced H bs) \<Longrightarrow> balanced H (if c then as else bs)"
  by simp

lemma balanced_concat: "(\<And>as. as \<in> set ass \<Longrightarrow> balanced H as) \<Longrightarrow> balanced H (concat ass)"
  by (induction ass) auto

lemma balanced_repeated [intro!]: "balanced H as \<Longrightarrow> balanced H (repeated n as)"
  unfolding repeated_def by (rule balanced_concat) simp

lemma balanced_scoped [intro!]:
  assumes "below_rank (lock_rank l) H" and "balanced (insert l H) as"
  shows "balanced H (scoped l as)"
proof -
  have "insert l H - {l} = H" using below_rank_notin[OF assms(1)] by simp
  then show ?thesis using assms by (simp add: balanced_def scoped_def below_rank_def)
qed

lemma balanced_prints [intro!]: "below_rank 5 H \<Longrightarrow> balanced H (prints_locks ns)"
  unfolding prints_locks_def hvprint_locks_def by (intro balanced_concat) (auto simp: below_rank_mono[of 5 _ 6])

lemma balanced_hardware [intro!]:
  assumes "below_rank 7 H"
  shows "balanced H (hardware_locks k got)"
proof -
  have n: "OWNER_lock \<notin> H" "HARDWARE_lock \<notin> H" using assms by (auto simp: below_rank_def)
  then have "insert HARDWARE_lock (insert OWNER_lock H) - {OWNER_lock} - {HARDWARE_lock} = H" by auto
  then have "balanced H [Acq OWNER_lock, Acq HARDWARE_lock, Rel OWNER_lock, Rel HARDWARE_lock]"
    using assms by (auto simp: balanced_def below_rank_def)
  then show ?thesis using assms by (auto simp: hardware_locks_def)
qed

lemmas lock_programs = drain_locks_def drop_locks_def destroy_locks_def enforce_locks_def create_locks_def
  create_and_add_vcore_locks_def create_boot_capsule_locks_def context_switch_locks_def orphan_round_locks_def
  own_round_locks_def housekeeping_locks_def

lemma hv_locks_balanced: "hv_locks as \<Longrightarrow> balanced {} as"
  by (induction rule: hv_locks.induct) (auto simp: lock_programs)

interpretation hv_lock_order: ordered_locks lock_rank 9 hv_locks
proof unfold_locales
  show "lock_rank l < 9" for l by (cases l) simp_all
  show "orderly lock_rank {} as" if "hv_locks as" for as
    using hv_locks_balanced[OF that] by (auto simp: balanced_def dest!: spec[of _ "[]"])
qed

section \<open>Waiting for a lock that one holds\<close>

text \<open>A core that has still to take a lock it holds, and will not release before, never gets there.\<close>

definition stuck_on :: "'l \<Rightarrow> 'p \<Rightarrow> 'l act list \<Rightarrow> ('p, 'l) lock_state \<Rightarrow> bool" where
  "stuck_on l p rest s \<longleftrightarrow> l \<in> fst (s p) \<and> (\<forall>q. q \<noteq> p \<longrightarrow> l \<notin> fst (s q))
     \<and> (\<exists>pre. snd (s p) = pre @ Acq l # rest \<and> Rel l \<notin> set pre)"

lemma stuck_on_step:
  assumes "stuck_on l p rest s" and "lock_step s t"
  shows "stuck_on l p rest t"
  using assms(2)
proof (cases rule: lock_step.cases)
  case (acquire q H k as)
  have k: "k \<noteq> l" using assms(1) acquire(3) unfolding stuck_on_def by blast
  show ?thesis
  proof (cases "q = p")
    case True
    then obtain pre where "Acq k # as = pre @ Acq l # rest" "Rel l \<notin> set pre"
      using assms(1) acquire(2) by (auto simp: stuck_on_def)
    then obtain pre' where "as = pre' @ Acq l # rest" "Rel l \<notin> set pre'" using k by (cases pre) auto
    then show ?thesis using assms(1) acquire(1,2) True by (auto simp: stuck_on_def)
  next
    case False
    moreover have "l \<notin> H" using False assms(1) acquire(2) unfolding stuck_on_def by (metis fst_conv)
    ultimately show ?thesis using assms(1) acquire(1) k by (simp add: stuck_on_def)
  qed
next
  case (release q H k as)
  show ?thesis
  proof (cases "q = p")
    case True
    then obtain pre where e: "Rel k # as = pre @ Acq l # rest" "Rel l \<notin> set pre"
      using assms(1) release(2) by (auto simp: stuck_on_def)
    then obtain pre' where "pre = Rel k # pre'" "as = pre' @ Acq l # rest" by (cases pre) auto
    then show ?thesis using e(2) assms(1) release(1,2) True by (auto simp: stuck_on_def)
  next
    case False
    then show ?thesis using assms(1) release(1,2) by (force simp: stuck_on_def)
  qed
qed

lemma stuck_on_steps: "lock_step\<^sup>*\<^sup>* s t \<Longrightarrow> stuck_on l p rest s \<Longrightarrow> stuck_on l p rest t"
  by (induction rule: rtranclp_induct) (auto intro: stuck_on_step)

text \<open>A program that takes a lock twice without releasing it never gets past the second time, whatever the other
  cores do: it has not begun, or it is stuck.\<close>

lemma taken_twice_step:
  assumes "s p = ({}, Acq l # mid @ Acq l # rest) \<or> stuck_on l p rest s" and "Rel l \<notin> set mid" and "lock_step s t"
  shows "t p = ({}, Acq l # mid @ Acq l # rest) \<or> stuck_on l p rest t"
proof (cases "stuck_on l p rest s")
  case True
  then show ?thesis using stuck_on_step[OF True assms(3)] by simp
next
  case False
  then have p: "s p = ({}, Acq l # mid @ Acq l # rest)" using assms(1) by blast
  from assms(3) show ?thesis
  proof (cases rule: lock_step.cases)
    case (acquire q H k as)
    show ?thesis
    proof (cases "q = p")
      case True
      then show ?thesis using acquire p assms(2) by (auto simp: stuck_on_def)
    qed (use acquire(1) p in simp)
  next
    case (release q H k as)
    then show ?thesis using p by (cases "q = p") simp_all
  qed
qed

lemma taken_twice_hangs:
  assumes "lock_step\<^sup>*\<^sup>* s u" and "s p = ({}, Acq l # mid @ Acq l # rest)" and "Rel l \<notin> set mid"
  shows "\<exists>todo. snd (u p) = todo @ Acq l # rest"
proof -
  have "u p = ({}, Acq l # mid @ Acq l # rest) \<or> stuck_on l p rest u"
    using assms(1)
  proof (induction rule: rtranclp_induct)
    case (step y z)
    from taken_twice_step[OF step.IH assms(3) step.hyps(2)] show ?case .
  qed (simp add: assms(2))
  then show ?thesis
  proof
    assume "u p = ({}, Acq l # mid @ Acq l # rest)"
    then show ?thesis by (intro exI[of _ "Acq l # mid"]) simp
  qed (auto simp: stuck_on_def)
qed

text \<open>A program releases only what it has taken.\<close>

lemma orderly_first_take:
  "orderly rk J bs \<Longrightarrow> Acq l \<in> set bs \<Longrightarrow> l \<notin> J \<Longrightarrow> \<exists>pre post. bs = pre @ Acq l # post \<and> Rel l \<notin> set pre"
proof (induction rk J bs rule: orderly.induct)
  case (2 rk J k bs)
  show ?case
  proof (cases "k = l")
    case True
    then show ?thesis by (intro exI[of _ "[]"] exI[of _ bs]) simp
  next
    case False
    then obtain pre post where "bs = pre @ Acq l # post" "Rel l \<notin> set pre" using 2 by auto
    then show ?thesis by (intro exI[of _ "Acq k # pre"] exI[of _ post]) simp
  qed
next
  case (3 rk J k bs)
  then have k: "k \<noteq> l" by auto
  then obtain pre post where "bs = pre @ Acq l # post" "Rel l \<notin> set pre" using 3 by auto
  then show ?case using k by (intro exI[of _ "Rel k # pre"] exI[of _ post]) simp
qed simp

section \<open>Registration between its two locks\<close>

text \<open>
  \<open>register\<close> looks the capsule up under one lock and enters the service under another, with nothing held in
  between. The second half on its own:
\<close>

definition register_entry :: "usize \<Rightarrow> usize \<Rightarrow> ('s, 'c) hv \<Rightarrow> unit result \<times> ('s, 'c) hv" where
  "register_entry sid cid s =
     (case SERVICES s sid of
        None \<Rightarrow> (Ok (), s\<lparr>SERVICES := (SERVICES s)(sid \<mapsto> \<lparr>svc_capsuleid = cid, msgs = []\<rparr>)\<rparr>)
      | Some _ \<Rightarrow> (Err ServiceAlreadyRegistered, s))"

lemma register_halves:
  "register sid cid s =
     (case is_service_allowed cid sid s of
        None \<Rightarrow> (Err CapsuleBadID, s)
      | Some flag \<Rightarrow> if flag = False then (Err ServiceNotAllowed, s) else register_entry sid cid s)"
  by (simp add: register_def register_entry_def split: option.splits)

section \<open>Properties\<close>

text \<open>C17: the hypervisor cannot deadlock on its locks. Whatever operations the cores execute, however they
  interleave, and whichever of them interrupt others while the core holds no lock that ranks as high as one the handler
  takes, no two cores hold the same lock, some core can go on as long as any has something left
  to do, and every core can come to the end of its work with all locks free.\<close>

theorem locks_never_deadlock:
  fixes s :: "(usize, Lock) lock_state"
  assumes "reachable (lock_start hv_locks) (irq_step lock_rank hv_locks) s"
  shows "(\<forall>p q. p \<noteq> q \<longrightarrow> fst (s p) \<inter> fst (s q) = {})
    \<and> ((\<exists>p. snd (s p) \<noteq> []) \<longrightarrow> (\<exists>t. lock_step s t))
    \<and> (\<exists>t. lock_step\<^sup>*\<^sup>* s t \<and> (\<forall>p. t p = ({}, [])))"
proof -
  have inv: "lock_inv lock_rank s" by (rule hv_lock_order.lock_safety.reachable_inv[OF assms])
  then have "\<forall>p q. p \<noteq> q \<longrightarrow> fst (s p) \<inter> fst (s q) = {}" by (simp add: lock_inv_def)
  then show ?thesis using hv_lock_order.no_deadlock[OF inv] hv_lock_order.all_finish[OF finite_class.finite_UNIV inv] by blast
qed

text \<open>C38: registration is not atomic. If a capsule that may offer a service is destroyed between the two halves
  of its registration, the registration still succeeds, and the service belongs to a capsule that does
  not exist.\<close>

theorem register_races_with_destroy:
  assumes "iteration_ok pf" and "CAPSULES s cid = Some c" and "sid \<in> allowed_services c" and "SERVICES s sid = None"
  shows "is_service_allowed cid sid s = Some True
    \<and> (\<exists>t. register_entry sid cid (snd (destroy pf me cid s)) = (Ok (), t)
        \<and> service_owner t sid = Some cid \<and> CAPSULES t cid = None \<and> \<not> services_inv t)"
proof -
  note f = essence_fields(3,4)[OF destroy_essence(2)[OF assms(1,2), of me]]
  have "SERVICES (snd (destroy pf me cid s)) sid = None" using f assms(3,4) by (simp add: restrict_map_def)
  then show ?thesis
    using f assms(2,3)
    by (auto simp: register_entry_def service_owner_def is_service_allowed_def check_service_def services_but_def)
qed

text \<open>But a core hangs for good if it has to take a lock again that it holds. This happens whenever the
  operations \<open>bs\<close> of a handler, for an interrupt or exception that arrived while the locks \<open>H\<close> were held, take one of these
  (other than that of the devices, which is then forced open). However the cores go on, the core never comes to the end
  of its work, and no other core ever gets the lock.\<close>

lemma relocking_hangs:
  fixes s :: "(usize, Lock) lock_state"
  assumes "hv_locks bs" and "Acq l \<in> set bs" and "l \<in> H" and "l \<noteq> HARDWARE_lock"
    and "s p = (H, as)" and "\<And>q. q \<noteq> p \<Longrightarrow> l \<notin> fst (s q)"
    and "lock_step\<^sup>*\<^sup>* (s(p := (H, bs @ as))) u"
  shows "snd (u p) \<noteq> [] \<and> l \<in> fst (u p) \<and> (\<forall>q. q \<noteq> p \<longrightarrow> l \<notin> fst (u q))"
proof -
  obtain pre post where "bs = pre @ Acq l # post" "Rel l \<notin> set pre"
    using orderly_first_take[OF hv_lock_order.prog_orderly[OF assms(1)] assms(2)] by auto
  then have "stuck_on l p (post @ as) (s(p := (H, bs @ as)))"
    using assms(3,6) by (auto simp: stuck_on_def)
  from stuck_on_steps[OF assms(7) this] show ?thesis by (auto simp: stuck_on_def)
qed

text \<open>Core 0 destroys a capsule while core 1, about to switch, is interrupted by a handler that prints.\<close>

theorem locks_never_deadlock_witness:
  "\<exists>t :: (usize, Lock) lock_state. lock_step\<^sup>*\<^sup>*
     ((\<lambda>p. ({}, if p = 0 then destroy_locks [2] 1 1 else []))(1 := ({}, prints_locks [3] @ orphan_round_locks [1] True [1]))) t
   \<and> (\<forall>p. t p = ({}, []))"
proof -
  define s :: "(usize, Lock) lock_state" where
    "s = (\<lambda>p. ({}, if p = 0 then destroy_locks [2] 1 1 else []))(1 := ({}, orphan_round_locks [1] True [1]))"
  have "lock_start hv_locks s" by (simp add: s_def lock_start_def hv_locks.intros)
  then have "reachable (lock_start hv_locks) (irq_step lock_rank hv_locks) s" by (rule reachable.first[of "lock_start hv_locks"])
  moreover have "irq_step lock_rank hv_locks s (s(1 := ({}, prints_locks [3] @ orphan_round_locks [1] True [1])))"
    by (rule irq_step.interrupted) (simp_all add: s_def hv_locks.log above_def)
  ultimately have "reachable (lock_start hv_locks) (irq_step lock_rank hv_locks)
      (s(1 := ({}, prints_locks [3] @ orphan_round_locks [1] True [1])))"
    by (rule reachable.follow[of "lock_start hv_locks" "irq_step lock_rank hv_locks"])
  from conjunct2[OF conjunct2[OF locks_never_deadlock[OF this]]] show ?thesis unfolding s_def by simp
qed

theorem register_races_with_destroy_witness:
  "\<exists>t. register_entry 7 1 (snd (destroy example_platform 0 1 (snd (deregister 7 example_hv)))) = (Ok (), t)
     \<and> service_owner t 7 = Some 1 \<and> CAPSULES t 1 = None"
proof -
  let ?s = "snd (deregister 7 example_hv)"
  have "CAPSULES ?s 1 = Some example_capsule" "SERVICES ?s 7 = None" "7 \<in> allowed_services example_capsule"
    by (simp_all add: example_capsule_def)
  from register_races_with_destroy[OF example_platform_iteration this(1,3,2), of 0] show ?thesis by blast
qed

end
