(* ===== verification/Hv_Interleave.thy ===== *)
theory Hv_Interleave
  imports Hv_Locks
begin

text \<open>
  The system with registration as the code has it, \<^verbatim>\<open>src/hypervisor/service.rs\<close>: \<open>register\<close> asks whether the capsule may
  offer the service under the lock of the capsules, lets go of that lock, and enters the service under the
  lock of the services. Everything else may happen in between. The invariant of the tables holds in every state
  that can be reached, apart from the services whose registration was overtaken by the end of their capsule.
\<close>

section \<open>Registration in two steps\<close>

text \<open>
  A state: the system, the registrations that have been let through and are not entered yet (service and
  capsule; a bag, because several cores may register the same), and the services that are registered although
  their capsule was gone, or another one had its id, when they were entered.
\<close>

type_synonym ('s, 'c) fine_state = "('s, 'c) system \<times> (usize \<times> usize) multiset \<times> usize set"

text \<open>The services on record as overtaken after \<open>sid\<close> was entered for \<open>cid\<close> in state \<open>s\<close>.\<close>

definition overtaken :: "usize \<Rightarrow> usize \<Rightarrow> ('s, 'c) hv \<Rightarrow> usize set \<Rightarrow> usize set" where
  "overtaken sid cid s L =
     (if SERVICES s sid = None \<and> is_service_allowed cid sid s \<noteq> Some True then insert sid L else L)"

text \<open>A service that is deregistered is not on record any more.\<close>

inductive fine_step :: "('s, 'c) Platform \<Rightarrow> 8 word list \<Rightarrow> ('s, 'c) fine_state \<Rightarrow> ('s, 'c) fine_state \<Rightarrow> bool" for pf dtb where
  whole: "hv_step pf dtb (A, s) (B, t) \<Longrightarrow> fine_step pf dtb ((A, s), P, L) ((B, t), P, L \<inter> dom (SERVICES t))"
| checked: "is_service_allowed cid sid s = Some True \<Longrightarrow>
    fine_step pf dtb ((A, s), P, L) ((A, s), add_mset (sid, cid) P, L)"
| entered: "(sid, cid) \<in># P \<Longrightarrow>
    fine_step pf dtb ((A, s), P, L) ((A, snd (register_entry sid cid s)), P - {#(sid, cid)#}, overtaken sid cid s L)"

inductive fine_begin :: "('s, 'c) Platform \<Rightarrow> 8 word list \<Rightarrow> ('s, 'c) fine_state \<Rightarrow> bool" for pf dtb where
  boot: "hv_begin pf dtb x \<Longrightarrow> fine_begin pf dtb (x, {#}, {})"

abbreviation fine_reachable :: "('s, 'c) Platform \<Rightarrow> 8 word list \<Rightarrow> ('s, 'c) fine_state \<Rightarrow> bool" where
  "fine_reachable pf dtb \<equiv> reachable (fine_begin pf dtb) (fine_step pf dtb)"

section \<open>The invariant\<close>

lemma services_but_registered: "services_but (L \<inter> dom (SERVICES s)) s = services_but L s"
  by (auto simp: services_but_def)

lemma system_inv_registered: "system_inv_but (L \<inter> dom (SERVICES s)) (A, s) = system_inv_but L (A, s)"
  by (simp add: system_inv_but_def services_but_registered)

lemma services_but_entered:
  assumes "services_but L s"
  shows "services_but (overtaken sid cid s L) (snd (register_entry sid cid s))"
  using assms by (auto simp: services_but_def overtaken_def register_entry_def is_service_allowed_def check_service_def
      split: option.splits)

lemma services_but_mono: "services_but L s \<Longrightarrow> L \<subseteq> M \<Longrightarrow> services_but M s"
  by (auto simp: services_but_def)

lemma system_inv_entered:
  assumes "system_inv_but L (A, s)"
  shows "system_inv_but (overtaken sid cid s L) (A, snd (register_entry sid cid s))"
proof -
  have "system_inv_but (overtaken sid cid s L) (A, s)"
    using assms services_but_mono[of L s] by (simp add: system_inv_but_def overtaken_def subset_insertI)
  then show ?thesis
    by (rule system_inv_services[OF _ services_but_entered[OF system_invD(2)[OF assms]]])
      (simp_all add: register_entry_def split: option.splits)
qed

definition fine_inv :: "('s, 'c) fine_state \<Rightarrow> bool" where
  "fine_inv x = (case x of ((A, s), P, L) \<Rightarrow> system_inv_but L (A, s) \<and> L \<subseteq> dom (SERVICES s))"

lemma fine_step_inv:
  assumes "fine_step pf dtb x y" and "iteration_ok pf" and "fine_inv x"
  shows "fine_inv y"
  using assms(1,3)
proof (induction rule: fine_step.induct)
  case (whole A s B t P L)
  then show ?case
    using hv_step_inv[OF whole(1) assms(2), of L] by (simp add: fine_inv_def system_inv_registered)
next
  case (entered sid cid P A s L)
  then show ?case using system_inv_entered[of L A s sid cid]
    by (auto simp: fine_inv_def overtaken_def register_entry_def split: option.splits)
qed (simp add: fine_inv_def)

interpretation fine_hypervisor: invariant_system "\<lambda>x. machine_ok pf dtb \<and> fine_begin pf dtb x" "fine_step pf dtb"
  "\<lambda>x. machine_ok pf dtb \<and> fine_inv x"
proof unfold_locales
  fix x y
  show "machine_ok pf dtb \<and> fine_inv x" if "machine_ok pf dtb \<and> fine_begin pf dtb x"
    using that by (auto elim!: fine_begin.cases hv_begin.cases simp: fine_inv_def intro: hvmain_boot_inv)
  show "machine_ok pf dtb \<and> fine_inv y" if "machine_ok pf dtb \<and> fine_inv x" "fine_step pf dtb x y"
    using that fine_step_inv[of pf dtb x y] by (simp add: machine_ok_def)
qed

text \<open>Every run of whole operations is a run with registration in two steps.\<close>

lemma fine_step_whole: "fine_reachable pf dtb ((A, s), P, L) \<Longrightarrow> hv_step pf dtb (A, s) (B, t) \<Longrightarrow>
    fine_reachable pf dtb ((B, t), P, L \<inter> dom (SERVICES t))"
  by (rule reachable.follow[of "fine_begin pf dtb" "fine_step pf dtb" "((A, s), P, L)"]) (assumption, rule fine_step.whole)

lemma whole_fine:
  assumes "hv_reachable pf dtb x"
  shows "fine_reachable pf dtb (x, {#}, {})"
  using assms
proof (induction rule: reachable.induct)
  case (first x)
  then show ?case by (intro reachable.first[of "fine_begin pf dtb"] fine_begin.boot)
next
  case (follow x y)
  then show ?case using fine_step_whole[of pf dtb "fst x" "snd x" "{#}" "{}" "fst y" "snd y"] by simp
qed

section \<open>Properties\<close>

text \<open>C2: after a successful boot, the operations of the cores (interrupts, exceptions, the parts of a fatal exception,
  cores coming up, service calls, messages, teardowns) happen in any order, each as a whole, with the
  exception of registration, whose two halves may have any of the others in between. In every state that is
  reached: no byte of RAM has two owners; every registered service has an existing owner that may offer it, unless
  its owner was gone when the second half of its registration took place; every core that runs a virtual core of
  an existing capsule with one area of RAM has been given exactly this area; the cores know their own ids; and
  the lock of the hardware is free.\<close>

theorem system_invariant:
  assumes "machine_ok pf dtb" and "fine_reachable pf dtb ((A, s), P, L)"
  shows "memory_inv s \<and> services_but L s \<and> isolation_inv A s
    \<and> (\<forall>p\<in>A. PhysicalCore_get_id s p = p) \<and> (\<forall>p v. running s p = Some v \<longrightarrow> PhysicalCore_get_id s p \<in> A)
    \<and> \<not> held (HW_LOCK s)"
proof -
  have "system_inv_but L (A, s)"
    using fine_hypervisor.reachable_inv[of pf dtb "((A, s), P, L)"] assms by (simp add: fine_inv_def)
  from system_invD[OF this] show ?thesis by (auto simp: cores_inv_def running_def)
qed

text \<open>The boot capsule may offer service 8. It is destroyed while its registration of the service is under way.\<close>

theorem system_invariant_witness:
  "\<exists>(u :: (usize, usize) hv) L. fine_reachable example_platform [] (({0}, u), {#}, L) \<and> L = {8}
     \<and> service_owner u 8 \<noteq> None \<and> memory_inv u \<and> services_but {8} u \<and> isolation_inv {0} u"
proof -
  let ?pf = example_platform
  obtain u v r where u: "hv_reachable ?pf [] ({0}, u :: (usize, usize) hv)"
    "CAPSULES u (get_capsule_id v) = Some (boot_capsule r)" "running u 0 = Some v" "rgn_size r = 0x8000000"
    by (rule example_run)
  define cid where "cid = get_capsule_id v"
  define u1 where "u1 = snd (allow_service cid 8 u)"
  define u2 where "u2 = snd (destroy ?pf 0 cid u1)"
  define u3 where "u3 = snd (register_entry 8 cid u2)"
  have c: "CAPSULES u1 cid = Some ((boot_capsule r)\<lparr>allowed_services := insert 8 (allowed_services (boot_capsule r))\<rparr>)"
    using u(2) by (simp add: u1_def cid_def allow_service_def)
  note f = essence_fields(3,4)[OF destroy_essence(2)[OF example_platform_iteration c, of 0]]
  have gone: "CAPSULES u2 cid = None" "SERVICES u2 8 = None" using f by (simp_all add: u2_def restrict_map_def)
  note follow = reachable.follow[of "fine_begin ?pf []" "fine_step ?pf []"]
  have "fine_reachable ?pf [] (({0}, u1), {#}, {})"
    using fine_step_whole[OF whole_fine[OF u(1)] hv_step.allowed[of ?pf "[]" "{0}" u cid 8]] by (simp add: u1_def)
  moreover have "fine_step ?pf [] (({0}, u1), {#}, {}) (({0}, u1), {#(8, cid)#}, {})"
    by (rule fine_step.checked) (simp add: c is_service_allowed_def check_service_def)
  ultimately have "fine_reachable ?pf [] (({0}, u1), {#(8, cid)#}, {})" by (rule follow)
  moreover have "hv_step ?pf [] ({0}, u1) ({0}, u2)" unfolding u2_def by (rule hv_step.destroyed) simp
  ultimately have "fine_reachable ?pf [] (({0}, u2), {#(8, cid)#}, {} \<inter> dom (SERVICES u2))" by (rule fine_step_whole)
  then have "fine_reachable ?pf [] (({0}, u2), {#(8, cid)#}, {})" by simp
  moreover have "fine_step ?pf [] (({0}, u2), {#(8, cid)#}, {})
      (({0}, u3), {#(8, cid)#} - {#(8, cid)#}, overtaken 8 cid u2 {})"
    unfolding u3_def by (rule fine_step.entered) simp
  ultimately have "fine_reachable ?pf [] (({0}, u3), {#(8, cid)#} - {#(8, cid)#}, overtaken 8 cid u2 {})" by (rule follow)
  moreover have "overtaken 8 cid u2 {} = {8}" using gone by (simp add: overtaken_def is_service_allowed_def)
  ultimately have r: "fine_reachable ?pf [] (({0}, u3), {#}, {8})" by simp
  have "service_owner u3 8 \<noteq> None" using gone(2) by (simp add: u3_def register_entry_def service_owner_def)
  then show ?thesis using system_invariant[OF example_machine r] r by blast
qed

end
