(* ===== verification/Hv_HeapSafety.thy ===== *)
theory Hv_HeapSafety
  imports Hv_Heap
begin

text \<open>
  What the heap of a core guarantees over its whole life: the states reachable by any sequence
  of allocations and frees (in whatever order the cores free), and the properties of the
  allocator stated on the concrete heap.
\<close>

section \<open>Reachable heaps\<close>

text \<open>
  \<open>booted\<close> is the call of \<open>Heap::init\<close> when the core comes up, on whatever the private memory of
  the core held; a freed pointer belongs to a block that is in use.
\<close>

inductive heap_reach :: "usize \<Rightarrow> usize \<Rightarrow> Heap \<Rightarrow> bool" for start sz where
  booted: "heap_reach start sz (heap_init h start sz)"
| allocated: "heap_reach start sz h \<Longrightarrow> unat size_of_T * unat num + 96 < 2 ^ 64 \<Longrightarrow>
    heap_alloc size_of_T h num = Some (r, h') \<Longrightarrow> heap_reach start sz h'"
| freed: "heap_reach start sz h \<Longrightarrow> (a, t, InUse) \<in># heap_live h \<Longrightarrow>
    heap_free h (a + size_of_HeapBlock) = Some (r, h') \<Longrightarrow> heap_reach start sz h'"

lemma heap_alloc_zero: "heap_alloc T h 0 = Some (Err HeapBadSize, h)"
  by (simp add: heap_alloc_def)

lemma heap_alloc_ok:
  assumes "heap_ok start sz h" and "unat T * unat num + 96 < 2 ^ 64"
  shows "\<exists>r h'. heap_alloc T h num = Some (r, h') \<and> heap_ok start sz h'"
proof (cases "num = 0")
  case True
  with assms show ?thesis by (simp add: heap_alloc_zero)
next
  case False
  obtain xs where "heap_view h xs" "tiled start sz xs" using assms(1) by (auto simp: heap_ok_def)
  from this False assms(2) show ?thesis
    by (cases rule: heap_alloc_law) (auto simp: heap_ok_def)
qed

lemma heap_reach_ok:
  assumes "heap_reach start sz h" and "32 \<le> unat sz" and "unat start + unat sz < 2 ^ 64"
  shows "heap_ok start sz h"
  using assms(1)
proof (induction rule: heap_reach.induct)
  case (booted h)
  then show ?case using heap_init_view(1)[OF assms(2,3), of h] heap_init_view(2)[OF assms(2,3)] by (auto simp: heap_ok_def)
next
  case (allocated h T num r h')
  then show ?case using heap_alloc_ok[of start sz h T num] by auto
next
  case (freed h a t r h')
  then show ?case using core_heap.free_law[of start sz h a t] by auto
qed

lemma heap_ok_view:
  assumes "heap_ok start sz h"
  obtains xs where "heap_view h xs" "tiled start sz xs" "heap_blocks h = Some xs" "heap_live h = in_use xs"
  using assms by (auto simp: heap_ok_def heap_view_blocks heap_view_live)

section \<open>An example heap\<close>

definition blank_heap :: Heap where
  "blank_heap = \<lparr>block_list_head = 0, block_header_size = 0, heap_mem = Map.empty\<rparr>"

definition heap_1k :: Heap where
  "heap_1k = heap_init blank_heap 0x1000 0x400"

lemma heap_1k_ok: "heap_ok 0x1000 0x400 heap_1k"
  by (rule heap_reach_ok) (simp_all add: heap_1k_def heap_reach.booted)

lemma heap_1k_blocks: "heap_blocks heap_1k = Some [(0x1000, 0x400, Free)]"
  by (simp add: heap_1k_def heap_view_blocks heap_init_view)

lemma payload_area:
  assumes "tiled start sz ys" and "in_use ys = add_mset (a, t, InUse) L" and "n + 32 < unat t"
  shows "{unat (a + size_of_HeapBlock) ..< unat (a + size_of_HeapBlock) + n} \<subseteq> bytes a t"
    and "bytes a t \<subseteq> bytes start sz"
    and "x \<in># L \<Longrightarrow> bytes a t \<inter> abytes x = {}"
proof -
  have "(a, t, InUse) \<in># in_use ys" using assms(2) by simp
  then have mem: "(a, t, InUse) \<in> set ys" by (simp add: in_use_def)
  have "unat (a + size_of_HeapBlock) = unat a + 32"
    using tiled_area(3,4)[OF assms(1) mem] by (subst unat_add_nowrap) (simp_all add: size_of_HeapBlock_def)
  then show "{unat (a + size_of_HeapBlock) ..< unat (a + size_of_HeapBlock) + n} \<subseteq> bytes a t"
    using assms(3) by (auto simp: bytes_def)
  show "bytes a t \<subseteq> bytes start sz"
    using assms(1) mem by (auto simp: tiled_def abytes_def)
  show "bytes a t \<inter> abytes x = {}" if "x \<in># L"
    using tiled_live_pair[OF assms(1,2) that] by (simp add: adisjoint_def abytes_def)
qed

section \<open>Properties\<close>

text \<open>C15: on a well-formed heap an allocation always returns. A pointer it returns has room for the
  request behind the header, inside the heap area and outside every block that was in use, and at
  most 160 bytes are spent beyond the request; on failure no block changed hands and no free block
  of the needed size is left.\<close>

theorem heap_alloc_correct:
  assumes "heap_ok start sz h" and "num \<noteq> 0" and "unat size_of_T * unat num + 96 < 2 ^ 64"
  shows "\<exists>res h'. heap_alloc size_of_T h num = Some (res, h') \<and> heap_ok start sz h' \<and>
    (case res of
       Ok p \<Rightarrow> \<exists>a t. p = a + size_of_HeapBlock \<and> heap_live h' = add_mset (a, t, InUse) (heap_live h)
         \<and> {unat p ..< unat p + unat size_of_T * unat num} \<subseteq> bytes a t
         \<and> bytes a t \<subseteq> bytes start sz \<and> (\<forall>x\<in>#heap_live h. bytes a t \<inter> abytes x = {})
         \<and> unat t < unat size_of_T * unat num + 160
     | Err e \<Rightarrow> e = HeapNoFreeMem \<and> heap_live h' = heap_live h
         \<and> (\<exists>xs. heap_blocks h' = Some xs \<and> filter (fits (size_required size_of_T num)) xs = []))"
proof -
  obtain xs where xs: "heap_view h xs" "tiled start sz xs" "heap_live h = in_use xs"
    using heap_ok_view[OF assms(1)] by blast
  from xs(1,2) assms(2,3) show ?thesis
  proof (cases rule: heap_alloc_law)
    case (ok a t h' ys)
    have "unat size_of_T * unat num + 32 < unat t" "unat t < unat size_of_T * unat num + 160"
      using size_required_bounds(2,3)[OF assms(3)] ok(4,5) by (simp_all add: word_nat)
    moreover have "heap_ok start sz h'" "heap_live h' = add_mset (a, t, InUse) (heap_live h)"
      using ok(2,3,6) xs(3) by (auto simp: heap_ok_def heap_view_live)
    ultimately show ?thesis
      using payload_area[OF ok(3,6)] ok(1) xs(3) by fastforce
  next
    case (err h' ys)
    then show ?thesis
      using xs(3) by (auto simp: heap_ok_def heap_view_live heap_view_blocks)
  qed
qed

theorem heap_alloc_correct_witness:
  "\<exists>h'. heap_alloc 1 heap_1k 100 = Some (Ok 0x1360, h') \<and> heap_ok 0x1000 0x400 h'
     \<and> heap_live h' \<noteq> {#}"
proof -
  have "map_option fst (heap_alloc 1 heap_1k 100) = Some (Ok 0x1360)" by code_simp
  then show ?thesis using heap_alloc_correct[OF heap_1k_ok, of 100 1] by auto
qed

text \<open>Freeing the pointer of a block in use marks exactly that block free; freeing it again is
  refused with \<open>HeapNotInUse\<close> and changes nothing.\<close>

theorem heap_free_correct:
  assumes "heap_ok start sz h" and "heap_blocks h = Some (as @ (a, s, g) # bs)"
  shows "\<exists>h'. heap_free h (a + size_of_HeapBlock) =
      Some (if g = InUse then Ok () else Err HeapNotInUse, h')
    \<and> heap_ok start sz h' \<and> heap_blocks h' = Some (as @ (a, s, Free) # bs)"
proof -
  obtain xs where "heap_view h xs" "tiled start sz xs" "heap_blocks h = Some xs"
    using heap_ok_view[OF assms(1)] by blast
  with assms(2) heap_free_law[of h as a s g bs start sz] show ?thesis
    by (auto simp: heap_ok_def heap_view_blocks)
qed

theorem heap_free_correct_witness:
  "\<exists>h1 h2. heap_alloc 1 heap_1k 100 = Some (Ok 0x1360, h1) \<and> heap_free h1 0x1360 = Some (Ok (), h2)
     \<and> heap_blocks h2 = Some [(0x1340, 0xC0, Free), (0x1000, 0x340, Free)]"
proof -
  have "map_option (\<lambda>(r, h). (r, heap_blocks h)) (heap_alloc 1 heap_1k 100) =
      Some (Ok 0x1360, Some [(0x1340, 0xC0, InUse), (0x1000, 0x340, Free)])" by code_simp
  then obtain h1 where h1: "heap_alloc 1 heap_1k 100 = Some (Ok 0x1360, h1)"
    "heap_blocks h1 = Some ([] @ (0x1340, 0xC0, InUse) # [(0x1000, 0x340, Free)])" by auto
  have "heap_ok 0x1000 0x400 h1" using heap_alloc_ok[OF heap_1k_ok, of 1 100] h1(1) by simp
  from heap_free_correct[OF this h1(2)] h1(1) show ?thesis by (auto simp: size_of_HeapBlock_def)
qed

text \<open>C16: whatever sequence of allocations and frees a heap has been through, its list still tiles the
  heap area: no block overlaps another, none leaves the area, no byte is lost.\<close>

theorem heap_always_tiled:
  assumes "heap_reach start sz h" and "32 \<le> unat sz" and "unat start + unat sz < 2 ^ 64"
  shows "\<exists>xs. heap_blocks h = Some xs \<and> tiled start sz xs"
  using heap_ok_view[OF heap_reach_ok[OF assms]] by blast

theorem heap_always_tiled_witness:
  "\<exists>xs. heap_blocks (snd (the (heap_alloc 8 heap_1k 16))) = Some xs \<and> tiled 0x1000 0x400 xs"
proof -
  obtain r h' where al: "heap_alloc 8 heap_1k 16 = Some (r, h')"
    using heap_alloc_ok[OF heap_1k_ok, of 8 16] by auto
  have "heap_reach 0x1000 0x400 heap_1k" unfolding heap_1k_def by (rule heap_reach.booted)
  from heap_reach.allocated[OF this _ al] have "heap_reach 0x1000 0x400 h'" by simp
  from heap_always_tiled[OF this] al show ?thesis by simp
qed

text \<open>Consolidation always returns, keeps the tiling and every block in use, and reports zero
  exactly when it merged nothing; so the search loop of \<open>alloc\<close> restarts only on a shorter list.\<close>

theorem heap_consolidate_correct:
  assumes "heap_ok start sz h" and "heap_blocks h = Some xs"
  shows "\<exists>l h' ys. heap_consolidate h = Some (l, h') \<and> heap_ok start sz h' \<and> heap_live h' = heap_live h
    \<and> heap_blocks h' = Some ys
    \<and> (l = 0 \<and> ys = xs \<or> HEAP_BLOCK_SIZE \<le> l \<and> length ys < length xs)"
proof -
  have xs: "heap_view h xs" "tiled start sz xs"
    using heap_ok_view[OF assms(1)] assms(2) by (metis option.inject)+
  obtain ys l where ys: "aconsolidate xs = (ys, l)" by fastforce
  obtain h' where h': "heap_consolidate h = Some (l, h')" "heap_view h' ys"
    using heap_consolidate_refines[OF xs(1) ys] by blast
  have "l = 0 \<and> ys = xs \<or> HEAP_BLOCK_SIZE \<le> l \<and> length ys < length xs"
    using aconsolidate_largest[OF xs(2) ys] aconsolidate_length[OF ys]
    by (auto simp: HEAP_BLOCK_SIZE_def word_nat)
  moreover have "heap_ok start sz h'" "heap_live h' = heap_live h"
    using aconsolidate_tiled[OF xs(2) ys] h'(2) xs(1) by (auto simp: heap_ok_def heap_view_live)
  ultimately show ?thesis using h' heap_view_blocks by blast
qed

theorem heap_consolidate_correct_witness:
  "\<exists>l h'. heap_consolidate heap_1k = Some (l, h') \<and> heap_live h' = heap_live heap_1k"
  using heap_consolidate_correct[OF heap_1k_ok heap_1k_blocks] by blast

text \<open>C33: a byte request just short of \<open>2 ^ 64\<close> makes the rounded-up block size wrap to zero; on a fresh
  heap the allocation then succeeds with a pointer behind the end of the heap area.\<close>

theorem heap_alloc_wraps:
  assumes "2 ^ 64 - 96 \<le> unat num" and "unat num < 2 ^ 64 - 32" and "64 \<le> unat sz"
  shows "\<exists>h'. heap_alloc 1 (heap_init h start sz) num = Some (Ok (start + sz + size_of_HeapBlock), h')"
proof -
  let ?w = "num + size_of_HeapBlock"
  have w: "unat ?w = unat num + 32"
    using assms(2) by (subst unat_add_nowrap) (simp_all add: size_of_HeapBlock_def)
  have "(unat num + 32) div 64 = 288230376151711743"
    using assms by (intro div_nat_eqI) simp_all
  then have "unat (?w div HEAP_BLOCK_SIZE) = 288230376151711743"
    by (simp add: unat_div w HEAP_BLOCK_SIZE_def)
  then have "?w div HEAP_BLOCK_SIZE = 288230376151711743" by (simp add: unat_eq_iff)
  then have "size_required 1 num = 0" by (simp add: size_required_def Let_def HEAP_BLOCK_SIZE_def)
  moreover have "num \<noteq> 0" using assms(1) by auto
  moreover have "\<not> sz < HEAP_BLOCK_SIZE" using assms(3) by (simp add: word_nat HEAP_BLOCK_SIZE_def)
  ultimately show ?thesis
    by (simp add: heap_alloc_def heap_init_def carve_end_def Let_def)
      (simp add: alloc_search.simps carve_end_def Let_def)
qed

theorem heap_alloc_wraps_witness:
  "\<exists>h'. heap_alloc 1 heap_1k 0xFFFFFFFFFFFFFFC0 = Some (Ok 0x1420, h')"
  using heap_alloc_wraps[of "0xFFFFFFFFFFFFFFC0" "0x400" blank_heap "0x1000"]
  by (simp add: heap_1k_def size_of_HeapBlock_def)

end
