(* ===== verification/Hv_Alloc.thy ===== *)
theory Hv_Alloc
  imports Hv_Interleave Hv_HeapSafety
begin

text \<open>
  Rust's global allocator on top of the heaps, \<open>HVallocator\<close> of \<^verbatim>\<open>src/hypervisor/heap.rs\<close>, with the messages it prints when
  the heap refuses; and what these messages lead to when the text that grows is the queue of the console, \<^verbatim>\<open>debug.rs\<close>,
  which is a \<open>String\<close> of this allocator behind a lock.
\<close>

section \<open>The global allocator\<close>

abbreviation core_heap_of :: "('s, 'c) hv \<Rightarrow> usize \<Rightarrow> Heap" where
  "core_heap_of s p \<equiv> pc_heap (pvars (cores s p))"

text \<open>The heap is that of the core that executes the call; a null pointer is address 0.\<close>

definition HVallocator_alloc :: "usize \<Rightarrow> usize \<Rightarrow> ('s, 'c) hv \<Rightarrow> (usize \<times> ('s, 'c) hv) option" where
  "HVallocator_alloc me layout_size s =
     do {
       (res, h) \<leftarrow> heap_alloc 1 (core_heap_of s me) layout_size;
       (let s' = with_pvars me (\<lambda>cpu. cpu\<lparr>pc_heap := h\<rparr>) s
        in case res of
             Ok p \<Rightarrow> Some (p, s')
           | Err e \<Rightarrow> Some (0, hvalert me ''HVallocator: request for {} bytes failed ({:?})''
               [dec layout_size, cause_debug e] s'))
     }"

text \<open>\<open>Heap::free\<close> only touches the header in front of the pointer, whichever core's heap that is part of: \<open>owner\<close> is
  the core in whose heap area the block lies, \<open>me\<close> the core that frees it.\<close>

definition HVallocator_dealloc :: "usize \<Rightarrow> usize \<Rightarrow> usize \<Rightarrow> ('s, 'c) hv \<Rightarrow> ('s, 'c) hv option" where
  "HVallocator_dealloc owner me ptr s =
     do {
       (res, h) \<leftarrow> heap_free (core_heap_of s owner) ptr;
       (let s' = with_pvars owner (\<lambda>cpu. cpu\<lparr>pc_heap := h\<rparr>) s
        in case res of
             Ok _ \<Rightarrow> Some s'
           | Err e \<Rightarrow> Some (hvalert me ''HVallocator: request to free {:p} failed ({:?})''
               [''0x'' @ hex ptr, cause_debug e] s'))
     }"

lemma with_pvars_heap [simp]:
  "core_heap_of (with_pvars me (\<lambda>cpu. cpu\<lparr>pc_heap := h\<rparr>) s) p = (if p = me then h else core_heap_of s p)"
  "DEBUG_QUEUE (with_pvars me f s) = DEBUG_QUEUE s"
  by (simp_all add: with_pvars_def)

lemma alloc_alert_text:
  "DEBUG_QUEUE (hvalert me ''HVallocator: request for {} bytes failed ({:?})'' [dec n, cause_debug e]
     (with_pvars me (\<lambda>cpu. cpu\<lparr>pc_heap := h\<rparr>) s)) = DEBUG_QUEUE s @ alert_line s me
       (''HVallocator: request for '' @ dec n @ '' bytes failed ('' @ cause_debug e @ '')'')"
  by (simp add: hvalert_def hvprintln_def write_str_def alert_line_def PhysicalCore_get_id_def with_pvars_def)

section \<open>The queue of the console grows\<close>

text \<open>
  The locks that the allocator's messages take, with the pointer and the heap of the core: no lock if the heap does as it
  is told; otherwise those of a message of seven pieces, or eight (a pointer is printed in two).
\<close>

definition HVallocator_alloc_locks :: "Heap \<Rightarrow> usize \<Rightarrow> (usize \<times> Heap \<times> Lock act list) option" where
  "HVallocator_alloc_locks h layout_size =
     do {
       (res, h') \<leftarrow> heap_alloc 1 h layout_size;
       (case res of Ok p \<Rightarrow> Some (p, h', []) | Err e \<Rightarrow> Some (0, h', hvprint_locks 7))
     }"

definition HVallocator_dealloc_locks :: "Heap \<Rightarrow> usize \<Rightarrow> (Heap \<times> Lock act list) option" where
  "HVallocator_dealloc_locks h ptr =
     do {
       (res, h') \<leftarrow> heap_free h ptr;
       (case res of Ok _ \<Rightarrow> Some (h', []) | Err e \<Rightarrow> Some (h', hvprint_locks 8))
     }"

text \<open>A lock is taken exactly if the state-level operation prints.\<close>

lemma alloc_locks_print:
  assumes "HVallocator_alloc me n s = Some (p, t)"
  shows "\<exists>as. HVallocator_alloc_locks (core_heap_of s me) n = Some (p, core_heap_of t me, as)
    \<and> (as = [] \<longleftrightarrow> DEBUG_QUEUE t = DEBUG_QUEUE s)"
proof -
  obtain res h where h: "heap_alloc 1 (core_heap_of s me) n = Some (res, h)"
    using assms by (cases "heap_alloc 1 (core_heap_of s me) n") (auto simp: HVallocator_alloc_def)
  show ?thesis
  proof (cases res)
    case (Ok a)
    then show ?thesis using assms h by (auto simp: HVallocator_alloc_def HVallocator_alloc_locks_def Let_def)
  next
    case (Err e)
    then have t: "p = 0" "t = hvalert me ''HVallocator: request for {} bytes failed ({:?})'' [dec n, cause_debug e]
        (with_pvars me (\<lambda>cpu. cpu\<lparr>pc_heap := h\<rparr>) s)"
      using assms h by (simp_all add: HVallocator_alloc_def Let_def)
    moreover have "DEBUG_QUEUE t \<noteq> DEBUG_QUEUE s" unfolding t(2) alloc_alert_text by (simp add: alert_line_def)
    ultimately show ?thesis using Err h by (simp add: HVallocator_alloc_locks_def hvprint_locks_def scoped_def)
  qed
qed

text \<open>The allocation error handler of \<^verbatim>\<open>main.rs\<close> prints five pieces and halts; a panic prints two messages and halts.\<close>

definition kalloc_error_locks :: "Lock act list" where
  "kalloc_error_locks = hvprint_locks 5"

definition panic_locks :: "Lock act list" where
  "panic_locks = prints_locks [5, 7]"

text \<open>The buffer of the queue: the bytes used and allocated, where they are, and whether that is in the heap of the core
  that prints.\<close>

record StringBuf =
  str_len :: nat
  str_cap :: nat
  str_ptr :: usize
  str_own :: bool

text \<open>
  \<open>push_str\<close> of \<open>n\<close> bytes. When they do not fit, Rust's \<open>String\<close> asks for twice the capacity, or for what is needed if that is more:
  it allocates, copies and frees the old buffer. It panics if this exceeds the largest \<open>isize\<close>, and calls the
  allocation error handler on a null pointer; \<open>None\<close> in the result means that the core then halts.
\<close>

definition push_str_locks :: "nat \<Rightarrow> StringBuf \<Rightarrow> Heap \<Rightarrow> ((StringBuf \<times> Heap) option \<times> Lock act list) option" where
  "push_str_locks n q h =
     (let cap = max (2 * str_cap q) (str_len q + n)
      in if str_len q + n \<le> str_cap q then Some (Some (q\<lparr>str_len := str_len q + n\<rparr>, h), [])
         else if cap \<ge> 2 ^ 63 then Some (None, panic_locks)
         else
           do {
             (p, h1, as) \<leftarrow> HVallocator_alloc_locks h (of_nat cap);
             (let q' = \<lparr>str_len = str_len q + n, str_cap = cap, str_ptr = p, str_own = True\<rparr>
              in if p = 0 then Some (None, as @ kalloc_error_locks)
                 else if str_cap q = 0 \<or> \<not> str_own q then Some (Some (q', h1), as)
                 else
                   do {
                     (h2, bs) \<leftarrow> HVallocator_dealloc_locks h1 (str_ptr q);
                     Some (Some (q', h2), as @ bs)
                   })
           })"

text \<open>A message of the given pieces: each is pushed with the queue locked, all of them with the console locked.\<close>

fun pieces_locks :: "nat list \<Rightarrow> StringBuf \<Rightarrow> Heap \<Rightarrow> ((StringBuf \<times> Heap) option \<times> Lock act list) option" where
  "pieces_locks [] q h = Some (Some (q, h), [])"
| "pieces_locks (n # ns) q h =
     do {
       (r, as) \<leftarrow> push_str_locks n q h;
       (case r of
          None \<Rightarrow> Some (None, Acq DEBUG_QUEUE_lock # as)
        | Some (q', h') \<Rightarrow>
            do {
              (r', bs) \<leftarrow> pieces_locks ns q' h';
              Some (r', scoped DEBUG_QUEUE_lock as @ bs)
            })
     }"

definition message_locks :: "nat list \<Rightarrow> StringBuf \<Rightarrow> Heap \<Rightarrow> ((StringBuf \<times> Heap) option \<times> Lock act list) option" where
  "message_locks ns q h =
     do {
       (r, as) \<leftarrow> pieces_locks ns q h;
       Some (r, Acq DEBUG_LOCK_lock # as @ (if r = None then [] else [Rel DEBUG_LOCK_lock]))
     }"

section \<open>A queue in a well-formed heap\<close>

definition buffer_ok :: "usize \<Rightarrow> usize \<Rightarrow> StringBuf \<Rightarrow> Heap \<Rightarrow> bool" where
  "buffer_ok start sz q h \<longleftrightarrow> heap_ok start sz h \<and> str_len q \<le> str_cap q
     \<and> (str_cap q \<noteq> 0 \<and> str_own q \<longrightarrow> (\<exists>a t. str_ptr q = a + size_of_HeapBlock \<and> (a, t, InUse) \<in># heap_live h))"

lemma alloc_fits:
  assumes "heap_ok start sz h" and "n \<noteq> 0" and "unat n + 96 < 2 ^ 64"
  obtains a t h' where "heap_alloc 1 h n = Some (Ok (a + size_of_HeapBlock), h')" "heap_ok start sz h'"
      "heap_live h' = add_mset (a, t, InUse) (heap_live h)" "unat n \<le> unat sz" "a + size_of_HeapBlock \<noteq> 0"
  | h' where "heap_alloc 1 h n = Some (Err HeapNoFreeMem, h')"
proof -
  from core_heap.alloc_law[OF assms] show thesis
  proof (elim disjE exE conjE)
    fix a t h'
    assume h': "heap_alloc 1 h n = Some (Ok (a + size_of_HeapBlock), h')" "heap_ok start sz h'"
      "heap_live h' = add_mset (a, t, InUse) (heap_live h)" "unat n + 32 < unat t"
    obtain xs where xs: "tiled start sz xs" "heap_live h' = in_use xs" using heap_ok_view[OF h'(2)] by blast
    have "in_use xs = add_mset (a, t, InUse) (heap_live h)" using h'(3) xs(2) by simp
    from payload_area(1,2)[OF xs(1) this h'(4)]
    have "{unat (a + size_of_HeapBlock) ..< unat (a + size_of_HeapBlock) + unat n} \<subseteq> bytes start sz" by blast
    from card_mono[OF _ this] have "unat n \<le> unat sz" by (simp add: bytes_def)
    then show thesis using that(1) h' core_heap.alloc_pointer_not_null[OF assms h'(1)] by blast
  qed (use that(2) in blast)
qed

text \<open>What pushing a piece can come to.\<close>

lemma push_str_cases:
  assumes "buffer_ok start sz q h"
  obtains q' h' where "push_str_locks n q h = Some (Some (q', h'), [])" "buffer_ok start sz q' h'"
      "str_len q' = str_len q + n" "str_cap q' \<le> max (str_cap q) (unat sz)"
  | report where "push_str_locks n q h = Some (None, report)"
      "report \<in> {hvprint_locks 7 @ kalloc_error_locks, panic_locks}"
proof -
  define cap where "cap = max (2 * str_cap q) (str_len q + n)"
  have ok: "heap_ok start sz h" "str_len q \<le> str_cap q" using assms by (simp_all add: buffer_ok_def)
  show thesis
  proof (cases "str_len q + n \<le> str_cap q \<or> cap \<ge> 2 ^ 63")
    case True
    show thesis
    proof (cases "str_len q + n \<le> str_cap q")
      case True
      then show thesis using that(1)[of "q\<lparr>str_len := str_len q + n\<rparr>" h] assms by (simp add: push_str_locks_def buffer_ok_def)
    next
      case False
      then show thesis using that(2)[of panic_locks] True by (simp add: push_str_locks_def cap_def[symmetric])
    qed
  next
    case False
    then have cap: "cap < 2 ^ 63" "cap \<noteq> 0" "str_len q + n \<le> cap" by (auto simp: cap_def)
    then have u: "unat (of_nat cap :: usize) = cap" by (simp add: unsigned_of_nat take_bit_nat_eq_self)
    have grow: "push_str_locks n q h = do {
        (p, h1, as) \<leftarrow> HVallocator_alloc_locks h (of_nat cap);
        (let q' = \<lparr>str_len = str_len q + n, str_cap = cap, str_ptr = p, str_own = True\<rparr>
         in if p = 0 then Some (None, as @ kalloc_error_locks)
            else if str_cap q = 0 \<or> \<not> str_own q then Some (Some (q', h1), as)
            else do { (h2, bs) \<leftarrow> HVallocator_dealloc_locks h1 (str_ptr q); Some (Some (q', h2), as @ bs) }) }"
      using False by (simp add: push_str_locks_def cap_def[symmetric] Let_def)
    have "(of_nat cap :: usize) \<noteq> 0" "unat (of_nat cap :: usize) + 96 < 2 ^ 64" using u cap by auto
    from ok(1) this show thesis
    proof (cases rule: alloc_fits)
      case (1 a t h1)
      define q' where "q' = \<lparr>str_len = str_len q + n, str_cap = cap, str_ptr = a + size_of_HeapBlock, str_own = True\<rparr>"
      have q': "str_len q' = str_len q + n" "str_cap q' \<le> max (str_cap q) (unat sz)" "str_len q' \<le> str_cap q'"
        using 1(4) u cap(3) by (simp_all add: q'_def)
      show thesis
      proof (cases "str_cap q = 0 \<or> \<not> str_own q")
        case True
        then have "push_str_locks n q h = Some (Some (q', h1), [])"
          unfolding grow using 1(1,5) by (auto simp: HVallocator_alloc_locks_def q'_def Let_def)
        moreover have "buffer_ok start sz q' h1" using 1(2,3) q'(3) by (auto simp: buffer_ok_def q'_def)
        ultimately show thesis using that(1) q' by blast
      next
        case False
        then obtain b r where b: "str_ptr q = b + size_of_HeapBlock" "(b, r, InUse) \<in># heap_live h"
          using assms by (auto simp: buffer_ok_def)
        then have "(b, r, InUse) \<in># heap_live h1" using 1(3) by simp
        from core_heap.free_law[OF 1(2) this] obtain h2 where
          h2: "heap_free h1 (b + size_of_HeapBlock) = Some (Ok (), h2)" "heap_ok start sz h2"
            "heap_live h2 = heap_live h1 - {#(b, r, InUse)#}" by blast
        have "(a, t, InUse) \<in># heap_live h2" using b(2) by (simp add: h2(3) 1(3))
        then have "buffer_ok start sz q' h2" using h2(2) q'(3) by (auto simp: buffer_ok_def q'_def)
        moreover have "push_str_locks n q h = Some (Some (q', h2), [])"
          unfolding grow using 1(1,5) h2(1) b(1) False
          by (auto simp: HVallocator_alloc_locks_def HVallocator_dealloc_locks_def q'_def Let_def)
        ultimately show thesis using that(1) q' by blast
      qed
    next
      case (2 h')
      then have "push_str_locks n q h = Some (None, hvprint_locks 7 @ kalloc_error_locks)"
        unfolding grow by (simp add: HVallocator_alloc_locks_def Let_def)
      then show thesis using that(2) by blast
    qed
  qed
qed

lemma pieces_locks_cases:
  assumes "buffer_ok start sz q h"
  obtains q' h' where "pieces_locks ns q h = Some (Some (q', h'), repeated (length ns) (scoped DEBUG_QUEUE_lock []))"
      "buffer_ok start sz q' h'" "str_len q' = str_len q + sum_list ns" "str_cap q' \<le> max (str_cap q) (unat sz)"
  | k report where "pieces_locks ns q h =
        Some (None, repeated k (scoped DEBUG_QUEUE_lock []) @ Acq DEBUG_QUEUE_lock # report)"
      "report \<in> {hvprint_locks 7 @ kalloc_error_locks, panic_locks}"
  using assms
proof (induction ns arbitrary: q h thesis)
  case Nil
  then show ?case by (auto simp: repeated_def)
next
  case (Cons n ns)
  from Cons.prems(3) show ?case
  proof (cases rule: push_str_cases[where n = n])
    case (1 q1 h1)
    have rep: "scoped DEBUG_QUEUE_lock [] @ repeated k (scoped DEBUG_QUEUE_lock []) = repeated (Suc k) (scoped DEBUG_QUEUE_lock [])" for k
      by (simp add: repeated_def)
    show ?thesis
    proof (rule Cons.IH[OF _ _ 1(2)])
      fix q' h'
      assume p: "pieces_locks ns q1 h1 = Some (Some (q', h'), repeated (length ns) (scoped DEBUG_QUEUE_lock []))"
        "buffer_ok start sz q' h'" "str_len q' = str_len q1 + sum_list ns" "str_cap q' \<le> max (str_cap q1) (unat sz)"
      have "pieces_locks (n # ns) q h = Some (Some (q', h'), repeated (length (n # ns)) (scoped DEBUG_QUEUE_lock []))"
        using 1(1) p(1) rep by simp
      then show ?thesis using Cons.prems(1) p(2-4) 1(3,4) by (simp add: max_def split: if_splits)
    next
      fix k report
      assume p: "pieces_locks ns q1 h1 = Some (None, repeated k (scoped DEBUG_QUEUE_lock []) @ Acq DEBUG_QUEUE_lock # report)"
        "report \<in> {hvprint_locks 7 @ kalloc_error_locks, panic_locks}"
      have "pieces_locks (n # ns) q h = Some (None, repeated (Suc k) (scoped DEBUG_QUEUE_lock []) @ Acq DEBUG_QUEUE_lock # report)"
        using 1(1) p(1) by (simp add: rep[symmetric])
      then show ?thesis using Cons.prems(2) p(2) by blast
    qed
  next
    case (2 report)
    then show ?thesis using Cons.prems(2)[of 0 report] by (simp add: repeated_def)
  qed
qed

section \<open>Properties\<close>


definition heap_hv :: "(usize, usize) hv" where
  "heap_hv = with_pvars 0 (\<lambda>cpu. cpu\<lparr>pc_heap := heap_1k\<rparr>) blank_hv"


text \<open>C39: printing when the heap is full. A message is queued piece by piece, and takes no lock but its own two, as long as
  the queue's buffer has room or can grow; after that it holds all the text, which is at most what fits the old
  buffer or the heap. If the buffer cannot grow, the core reports this while it still has the console locked:
  in \<open>HVallocator::alloc\<close>, for which it must lock the console again. However the cores go on, it never gets past the
  beginning of this report, and the handler that should halt the core with a message is not reached.\<close>

theorem full_heap_hangs_console:
  fixes me :: usize
  assumes "buffer_ok start sz q h"
  shows "\<exists>r as. message_locks ns q h = Some (r, as) \<and>
    (case r of
       Some (q', h') \<Rightarrow> as = hvprint_locks (length ns) \<and> buffer_ok start sz q' h'
         \<and> str_len q' = str_len q + sum_list ns \<and> str_len q' \<le> max (str_cap q) (unat sz)
     | None \<Rightarrow> \<exists>before report. as = before @ report \<and> report \<in> {hvprint_locks 7 @ kalloc_error_locks, panic_locks}
         \<and> (\<forall>s u. s me = ({}, as) \<and> lock_step\<^sup>*\<^sup>* s u \<longrightarrow> (\<exists>todo. snd (u me) = todo @ report)))"
  using assms
proof (cases rule: pieces_locks_cases[where ns = ns])
  case (1 q' h')
  then have "message_locks ns q h = Some (Some (q', h'), hvprint_locks (length ns))"
    by (simp add: message_locks_def hvprint_locks_def scoped_def)
  moreover have "str_len q' \<le> max (str_cap q) (unat sz)" using 1(2,4) by (simp add: buffer_ok_def)
  ultimately show ?thesis using 1(2,3) by fastforce
next
  case (2 k report)
  define mid where "mid = repeated k (scoped DEBUG_QUEUE_lock []) @ [Acq DEBUG_QUEUE_lock]"
  obtain rest where rest: "report = Acq DEBUG_LOCK_lock # rest"
    using 2(2) by (auto simp: hvprint_locks_def scoped_def panic_locks_def prints_locks_def)
  have no_rel: "Rel DEBUG_LOCK_lock \<notin> set mid" by (auto simp: mid_def repeated_def scoped_def)
  have "message_locks ns q h = Some (None, (Acq DEBUG_LOCK_lock # mid) @ report)"
    using 2(1) by (simp add: message_locks_def mid_def)
  moreover have "\<exists>todo. snd (u me) = todo @ report"
    if "s me = ({}, (Acq DEBUG_LOCK_lock # mid) @ report)" "lock_step\<^sup>*\<^sup>* s u" for s u :: "(usize, Lock) lock_state"
    using taken_twice_hangs[OF that(2) _ no_rel, of me] that(1) rest by simp
  ultimately show ?thesis using 2(2) unfolding option.case
    by (intro exI[of _ None] exI[of _ "(Acq DEBUG_LOCK_lock # mid) @ report"] conjI) (assumption, simp only: option.case, blast)
qed

text \<open>A core whose heap has 1024 bytes prints 2000 on an empty queue.\<close>

theorem full_heap_hangs_console_witness:
  "\<exists>as. message_locks [2000] \<lparr>str_len = 0, str_cap = 0, str_ptr = 0, str_own = False\<rparr> heap_1k = Some (None, as)
     \<and> (\<exists>s :: (usize, Lock) lock_state. s 0 = ({}, as) \<and> s 1 = ({}, hvprint_locks 2)
          \<and> (\<forall>u. lock_step\<^sup>*\<^sup>* s u \<longrightarrow> snd (u 0) \<noteq> []))"
proof -
  let ?q = "\<lparr>str_len = 0, str_cap = 0, str_ptr = 0, str_own = False\<rparr>"
  have "buffer_ok 0x1000 0x400 ?q heap_1k" using heap_1k_ok by (simp add: buffer_ok_def)
  from full_heap_hangs_console[OF this, of "[2000]" 0]
  obtain as report where as: "message_locks [2000] ?q heap_1k = Some (None, as)"
    "report \<in> {hvprint_locks 7 @ kalloc_error_locks, panic_locks}"
    "\<And>s u :: (usize, Lock) lock_state. s 0 = ({}, as) \<Longrightarrow> lock_step\<^sup>*\<^sup>* s u \<Longrightarrow> \<exists>todo. snd (u 0) = todo @ report"
    by (fastforce split: option.splits)
  have "report \<noteq> []" using as(2) by (auto simp: hvprint_locks_def scoped_def panic_locks_def prints_locks_def)
  define s :: "(usize, Lock) lock_state" where "s = (\<lambda>p. ({}, if p = 0 then as else hvprint_locks 2))"
  have "snd (u 0) \<noteq> []" if "lock_step\<^sup>*\<^sup>* s u" for u
    using as(3)[OF _ that] \<open>report \<noteq> []\<close> by (auto simp: s_def)
  moreover have "s 0 = ({}, as)" "s 1 = ({}, hvprint_locks 2)" by (simp_all add: s_def)
  ultimately show ?thesis using as(1) by blast
qed

end
