(* ===== verification/Hv_Partition.thy ===== *)
theory Hv_Partition
  imports Hv_System
begin

text \<open>
  What the hypervisor promises, without regions, queues, registers and logs: a machine that divides a
  fixed set of bytes among capsules and a pool, knows which capsules live and which services they offer,
  and lets cores run capsules. Every run of the hypervisor is a run of this machine.
\<close>

section \<open>The partition machine\<close>

datatype owner = Pool | Belongs usize

record partition =
  owns :: "owner \<Rightarrow> nat set"
  living :: "usize set"
  offers :: "usize \<rightharpoonup> usize"
  occupant :: "usize \<rightharpoonup> usize"

definition blank_partition :: "nat set \<Rightarrow> partition" where
  "blank_partition H = \<lparr>owns = (\<lambda>o'. case o' of Pool \<Rightarrow> H | Belongs _ \<Rightarrow> {}), living = {},
     offers = Map.empty, occupant = Map.empty\<rparr>"

text \<open>A new capsule gets bytes of the pool, possibly none.\<close>

definition endow :: "usize \<Rightarrow> nat set \<Rightarrow> partition \<Rightarrow> partition" where
  "endow cid B a = a\<lparr>owns := (owns a)(Pool := owns a Pool - B, Belongs cid := B), living := insert cid (living a)\<rparr>"

text \<open>A capsule goes: its bytes return to the pool, and services disappear, all of its own among them.\<close>

definition reclaim :: "usize \<Rightarrow> usize set \<Rightarrow> partition \<Rightarrow> partition" where
  "reclaim cid S a = a\<lparr>owns := (owns a)(Pool := owns a Pool \<union> owns a (Belongs cid), Belongs cid := {}),
     living := living a - {cid}, offers := offers a |` (- S)\<rparr>"

inductive partition_step :: "partition \<Rightarrow> partition \<Rightarrow> bool" where
  endowed: "cid \<notin> living a \<Longrightarrow> B \<subseteq> owns a Pool \<Longrightarrow> partition_step a (endow cid B a)"
| reclaimed: "cid \<in> living a \<Longrightarrow> \<forall>sid. offers a sid = Some cid \<longrightarrow> sid \<in> S \<Longrightarrow> partition_step a (reclaim cid S a)"
| offered: "cid \<in> living a \<Longrightarrow> offers a sid = None \<Longrightarrow> partition_step a (a\<lparr>offers := (offers a)(sid \<mapsto> cid)\<rparr>)"
| withdrawn: "partition_step a (a\<lparr>offers := (offers a)(sid := None)\<rparr>)"
| scheduled: "partition_step a (a\<lparr>occupant := (occupant a)(p \<mapsto> cid)\<rparr>)"

text \<open>Its invariant: the bytes stay the same, each with one owner; the dead own and offer nothing.\<close>

definition partition_inv :: "nat set \<Rightarrow> partition \<Rightarrow> bool" where
  "partition_inv H a \<longleftrightarrow> \<Union> (range (owns a)) = H
     \<and> (\<forall>o1 o2. o1 \<noteq> o2 \<longrightarrow> owns a o1 \<inter> owns a o2 = {})
     \<and> (\<forall>cid. cid \<notin> living a \<longrightarrow> owns a (Belongs cid) = {})
     \<and> ran (offers a) \<subseteq> living a"

lemma partition_inv_endow:
  assumes "partition_inv H a" and "cid \<notin> living a" and "B \<subseteq> owns a Pool"
  shows "partition_inv H (endow cid B a)"
proof -
  have e: "owns (endow cid B a) o' =
      (if o' = Belongs cid then B else if o' = Pool then owns a Pool - B else owns a o')" for o'
    by (simp add: endow_def)
  have old: "owns a (Belongs cid) = {}" using assms(1,2) by (simp add: partition_inv_def)
  have "\<Union> (range (owns (endow cid B a))) = \<Union> (range (owns a))"
  proof (intro equalityI subsetI)
    fix x assume "x \<in> \<Union> (range (owns (endow cid B a)))"
    then show "x \<in> \<Union> (range (owns a))" using assms(3) by (auto simp: e split: if_splits)
  next
    fix x assume "x \<in> \<Union> (range (owns a))"
    then obtain o' where "x \<in> owns a o'" by blast
    then have "x \<in> owns (endow cid B a) (if x \<in> B then Belongs cid else o')"
      using old by (auto simp: e)
    then show "x \<in> \<Union> (range (owns (endow cid B a)))" by blast
  qed
  moreover have "owns (endow cid B a) o1 \<inter> owns (endow cid B a) o2 = {}" if "o1 \<noteq> o2" for o1 o2
  proof -
    have "owns a o1 \<inter> owns a o2 = {}" "o1 \<noteq> Pool \<Longrightarrow> owns a o1 \<inter> owns a Pool = {}"
      "o2 \<noteq> Pool \<Longrightarrow> owns a o2 \<inter> owns a Pool = {}"
      using assms(1) that unfolding partition_inv_def by blast+
    then show ?thesis using that assms(3) by (auto simp: e)
  qed
  moreover have "ran (offers (endow cid B a)) \<subseteq> living (endow cid B a)"
    "\<forall>c. c \<notin> living (endow cid B a) \<longrightarrow> owns (endow cid B a) (Belongs c) = {}"
    using assms(1) by (auto simp: partition_inv_def endow_def)
  ultimately show ?thesis using assms(1) by (simp add: partition_inv_def)
qed

lemma partition_inv_reclaim:
  assumes "partition_inv H a" and "\<forall>sid. offers a sid = Some cid \<longrightarrow> sid \<in> S"
  shows "partition_inv H (reclaim cid S a)"
proof -
  have e: "owns (reclaim cid S a) o' = (if o' = Belongs cid then {}
      else if o' = Pool then owns a Pool \<union> owns a (Belongs cid) else owns a o')" for o'
    by (simp add: reclaim_def)
  have "\<Union> (range (owns (reclaim cid S a))) = \<Union> (range (owns a))"
  proof (intro equalityI subsetI)
    fix x assume "x \<in> \<Union> (range (owns (reclaim cid S a)))"
    then show "x \<in> \<Union> (range (owns a))" by (auto simp: e split: if_splits)
  next
    fix x assume "x \<in> \<Union> (range (owns a))"
    then obtain o' where "x \<in> owns a o'" by blast
    then have "x \<in> owns (reclaim cid S a) (if o' = Belongs cid then Pool else o')" by (auto simp: e)
    then show "x \<in> \<Union> (range (owns (reclaim cid S a)))" by blast
  qed
  moreover have "owns (reclaim cid S a) o1 \<inter> owns (reclaim cid S a) o2 = {}" if "o1 \<noteq> o2" for o1 o2
  proof -
    have "owns a o1 \<inter> owns a o2 = {}" "o1 \<noteq> Belongs cid \<Longrightarrow> owns a o1 \<inter> owns a (Belongs cid) = {}"
      "o2 \<noteq> Belongs cid \<Longrightarrow> owns a o2 \<inter> owns a (Belongs cid) = {}"
      using assms(1) that unfolding partition_inv_def by blast+
    then show ?thesis using that by (auto simp: e)
  qed
  moreover have "ran (offers (reclaim cid S a)) \<subseteq> living (reclaim cid S a)"
  proof
    fix c assume "c \<in> ran (offers (reclaim cid S a))"
    then obtain sid where "offers a sid = Some c" "sid \<notin> S"
      by (auto simp: reclaim_def ran_def restrict_map_def split: if_splits)
    then show "c \<in> living (reclaim cid S a)"
      using assms by (auto simp: reclaim_def partition_inv_def ran_def)
  qed
  moreover have "\<forall>c. c \<notin> living (reclaim cid S a) \<longrightarrow> owns (reclaim cid S a) (Belongs c) = {}"
    using assms(1) by (auto simp: partition_inv_def reclaim_def)
  ultimately show ?thesis using assms(1) by (simp add: partition_inv_def)
qed

interpretation partitioning: invariant_system "\<lambda>a. a = blank_partition H" partition_step "partition_inv H"
proof unfold_locales
  fix a b
  show "partition_inv H a" if "a = blank_partition H"
    using that by (auto simp: partition_inv_def blank_partition_def split: owner.splits)
  show "partition_inv H b" if "partition_inv H a" "partition_step a b"
    using that(2,1)
  proof (induction rule: partition_step.induct)
    case (offered cid a sid)
    then show ?case by (auto simp: partition_inv_def ran_def)
  next
    case (withdrawn a sid)
    then show ?case by (auto simp: partition_inv_def ran_def)
  qed (simp_all add: partition_inv_endow partition_inv_reclaim, simp add: partition_inv_def)
qed

section \<open>Simulation\<close>

text \<open>Concrete states with an invariant, abstract states, and a function between them under which every
  concrete step is a sequence of abstract ones.\<close>

locale simulation = invariant_system start step inv
  for start :: "'x \<Rightarrow> bool" and step :: "'x \<Rightarrow> 'x \<Rightarrow> bool" and inv :: "'x \<Rightarrow> bool" +
  fixes abs_start :: "'a \<Rightarrow> bool" and abs_step :: "'a \<Rightarrow> 'a \<Rightarrow> bool" and view :: "'x \<Rightarrow> 'a"
  assumes start_sim: "start x \<Longrightarrow> reachable abs_start abs_step (view x)"
    and step_sim: "inv x \<Longrightarrow> step x y \<Longrightarrow> abs_step\<^sup>*\<^sup>* (view x) (view y)"
begin

lemma reachable_steps: "abs_step\<^sup>*\<^sup>* a b \<Longrightarrow> reachable abs_start abs_step a \<Longrightarrow> reachable abs_start abs_step b"
  by (induction rule: rtranclp_induct) (auto intro: reachable.follow)

lemma simulated: "reachable start step x \<Longrightarrow> reachable abs_start abs_step (view x)"
proof (induction rule: reachable.induct)
  case (first x)
  then show ?case by (rule start_sim)
next
  case (follow x y)
  have "abs_step\<^sup>*\<^sup>* (view x) (view y)" by (rule step_sim[OF reachable_inv[OF follow(1)] follow(2)])
  then show ?case by (rule reachable_steps[OF _ follow(3)])
qed

end

section \<open>The hypervisor as a partition machine\<close>

definition bytes_of :: "('s, 'c) hv \<Rightarrow> owner \<Rightarrow> nat set" where
  "bytes_of s o' =
     (case o' of
        Pool \<Rightarrow> free_bytes (REGIONS s)
      | Belongs cid \<Rightarrow> (case CAPSULES s cid of None \<Rightarrow> {} | Some c \<Rightarrow> capsule_bytes c))"

definition partition_of :: "('s, 'c) hv \<Rightarrow> partition" where
  "partition_of s = \<lparr>owns = bytes_of s, living = dom (CAPSULES s), offers = service_owner s,
     occupant = map_option get_capsule_id \<circ> VCORES s\<rparr>"

lemma partition_of_fields [simp]:
  "owns (partition_of s) = bytes_of s" "living (partition_of s) = dom (CAPSULES s)"
  "offers (partition_of s) = service_owner s" "occupant (partition_of s) = map_option get_capsule_id \<circ> VCORES s"
  by (simp_all add: partition_of_def)

lemma bytes_of_cong:
  assumes "free_bytes (REGIONS t) = free_bytes (REGIONS s)" "CAPSULES t = CAPSULES s"
  shows "bytes_of t = bytes_of s"
  using assms by (simp add: bytes_of_def[abs_def])

lemma service_owner_cong: "SERVICES t = SERVICES s \<Longrightarrow> service_owner t = service_owner s"
  by (simp add: service_owner_def[abs_def])

lemma partition_of_cong:
  assumes "free_bytes (REGIONS t) = free_bytes (REGIONS s)" "CAPSULES t = CAPSULES s" "SERVICES t = SERVICES s"
    "VCORES t = VCORES s"
  shows "partition_of t = partition_of s"
  using bytes_of_cong[OF assms(1,2)] service_owner_cong[OF assms(3)] assms(2,4) by (simp add: partition_of_def)

lemma partition_of_essence:
  assumes "essence t = essence s"
  shows "partition_of t = partition_of s"
  by (rule partition_of_cong) (use essence_fields[OF assms] in simp_all)

lemma partition_of_timer [simp]:
  "partition_of (scheduler_timer_next me u s) = partition_of s"
  "partition_of (scheduler_timer_start me s) = partition_of s"
  by (rule partition_of_cong; simp)+

lemma partition_of_housekeeping:
  "memory_inv s \<Longrightarrow> partition_of (housekeeping pf me s) = partition_of s"
  by (rule partition_of_cong) (simp_all add: regions_pool.tidy_ok memory_invD(1))

lemma sim_switch:
  assumes "picked pf me s = Some (v, s')" and "context_switch pf me v s' = Done u"
  shows "partition_step (partition_of s) (partition_of u)"
proof -
  note f = context_switch_Done(1,2)[OF assms(2)] and q = picked_fields[OF assms(1)]
  have k: "REGIONS u = REGIONS s" "CAPSULES u = CAPSULES s" "SERVICES u = SERVICES s"
    "map_option get_capsule_id \<circ> VCORES u =
      (map_option get_capsule_id \<circ> VCORES s)(PhysicalCore_get_id s me \<mapsto> get_capsule_id v)"
    using f q by (auto simp: switch_frame_def)
  have "partition_of u = (partition_of s)\<lparr>occupant :=
      (occupant (partition_of s))(PhysicalCore_get_id s me \<mapsto> get_capsule_id v)\<rparr>"
    using k bytes_of_cong[of u s] service_owner_cong[of u s] by (simp add: partition_of_def)
  then show ?thesis by (metis partition_step.scheduled)
qed

lemma sim_run_next:
  assumes "memory_inv s" and "run_next pf me must s = Some (Done t)"
  shows "partition_step\<^sup>*\<^sup>* (partition_of s) (partition_of t)"
  using assms(2)
proof (cases rule: run_next_cases)
  case (switched v s' u)
  then show ?thesis using sim_switch[OF switched(2,3)] by simp
qed (simp_all add: partition_of_housekeeping assms(1))

lemma sim_destroy:
  assumes "memory_inv s" and "services_inv s" and "iteration_ok pf"
  shows "partition_step\<^sup>*\<^sup>* (partition_of s) (partition_of (snd (destroy pf me cid s)))"
proof (cases "CAPSULES s cid")
  case None
  then show ?thesis by (simp add: destroy_def)
next
  case (Some c)
  let ?t = "snd (destroy pf me cid s)"
  note f = destroy_frame[OF assms(3), of me cid s] and e = essence_fields(4)[OF destroy_essence(2)[OF assms(3) Some, of me]]
    and b = destroy_memory_inv(2)[OF assms(1,3) Some, of me]
  have "bytes_of ?t = (bytes_of s)(Pool := bytes_of s Pool \<union> bytes_of s (Belongs cid), Belongs cid := {})"
    using f b Some by (auto simp: bytes_of_def fun_eq_iff split: owner.splits)
  moreover have "service_owner ?t = service_owner s |` (- allowed_services c)"
    using e by (auto simp: service_owner_def[abs_def] restrict_map_def fun_eq_iff)
  ultimately have "partition_of ?t = reclaim cid (allowed_services c) (partition_of s)"
    using f Some by (auto simp: partition_of_def reclaim_def)
  moreover have "sid \<in> allowed_services c" if "service_owner s sid = Some cid" for sid
    using that assms(2) Some by (force simp: service_owner_def services_but_def)
  ultimately show ?thesis
    using Some partition_step.reclaimed[of cid "partition_of s" "allowed_services c"] by auto
qed

lemma sim_kill:
  assumes "memory_inv s" and "services_inv s" and "iteration_ok pf"
  shows "partition_step\<^sup>*\<^sup>* (partition_of s) (partition_of (kill_running_capsule pf me s))"
  using partition_of_essence[OF kill_essence, of pf me s] sim_destroy[OF assms, of me]
  by (auto split: option.splits)

lemma sim_register: "partition_step\<^sup>*\<^sup>* (partition_of s) (partition_of (snd (register sid cid s)))"
proof (cases rule: register_cases[of s cid sid])
  case (ok c)
  then have "partition_of (snd (register sid cid s)) =
      (partition_of s)\<lparr>offers := (offers (partition_of s))(sid \<mapsto> cid)\<rparr>"
    using bytes_of_cong[of "snd (register sid cid s)" s]
    by (auto simp: partition_of_def service_owner_def[abs_def] fun_eq_iff)
  then show ?thesis
    using ok partition_step.offered[of cid "partition_of s" sid] by (auto simp: service_owner_def)
qed simp

lemma sim_deregister: "partition_step\<^sup>*\<^sup>* (partition_of s) (partition_of (snd (deregister sid s)))"
proof -
  have "partition_of (snd (deregister sid s)) = (partition_of s)\<lparr>offers := (offers (partition_of s))(sid := None)\<rparr>"
    using bytes_of_cong[of "snd (deregister sid s)" s]
    by (auto simp: partition_of_def service_owner_def[abs_def] fun_eq_iff)
  then show ?thesis by (metis partition_step.withdrawn r_into_rtranclp)
qed

lemma partition_of_send [simp]: "partition_of (snd (message_send m s)) = partition_of s"
proof -
  have "service_owner (snd (message_send m s)) = service_owner s"
    by (auto simp: service_owner_def[abs_def] message_send_def service_send_def Service_queue_def fun_eq_iff
        split: Recipient.splits option.splits)
  then show ?thesis using bytes_of_cong[of "snd (message_send m s)" s] by (simp add: partition_of_def)
qed

lemma partition_of_capsule_update:
  assumes "CAPSULES s cid = Some c" and "memory c' = memory c"
  shows "partition_of (s\<lparr>CAPSULES := (CAPSULES s)(cid \<mapsto> c')\<rparr>) = partition_of s"
  using assms by (auto simp: partition_of_def bytes_of_def capsule_bytes_def service_owner_def[abs_def]
      fun_eq_iff split: owner.splits)

lemma partition_of_queue [simp]: "partition_of (scheduler_queue v s) = partition_of s"
  by (rule partition_of_cong) (simp_all add: scheduler_queue_def)

lemma partition_of_add_vcore [simp]: "partition_of (snd (create_and_add_vcore pf cid vid entry prio s)) = partition_of s"
  using partition_of_capsule_update[of "scheduler_queue _ s" cid]
  by (auto simp: create_and_add_vcore_def VirtualCore_create_def add_vcore_def Let_def split: option.splits)

lemma partition_of_allow [simp]: "partition_of (snd (allow_service cid sid s)) = partition_of s"
  using partition_of_capsule_update[of s cid] by (auto simp: allow_service_def split: option.splits)

text \<open>Setting up a capsule: what it takes comes from the pool.\<close>

lemma endow_new:
  assumes "CAPSULES s cid = None" and "CAPSULES t = (CAPSULES s)(cid \<mapsto> c)" and "capsule_bytes c \<subseteq> free_bytes (REGIONS s)"
    and "free_bytes (REGIONS t) = free_bytes (REGIONS s) - capsule_bytes c" and "SERVICES t = SERVICES s" and "VCORES t = VCORES s"
  shows "partition_step\<^sup>*\<^sup>* (partition_of s) (partition_of t)"
proof -
  have "bytes_of t o' = ((bytes_of s)(Pool := bytes_of s Pool - capsule_bytes c, Belongs cid := capsule_bytes c)) o'" for o'
    using assms(2,4) by (cases o') (simp_all add: bytes_of_def)
  then have "bytes_of t = (bytes_of s)(Pool := bytes_of s Pool - capsule_bytes c, Belongs cid := capsule_bytes c)" by blast
  then have "partition_of t = endow cid (capsule_bytes c) (partition_of s)"
    using assms(2,5,6) service_owner_cong[of t s] by (simp add: partition_of_def endow_def)
  moreover have "partition_step (partition_of s) (endow cid (capsule_bytes c) (partition_of s))"
    by (rule partition_step.endowed) (use assms(1,3) in \<open>simp_all add: bytes_of_def domIff\<close>)
  ultimately show ?thesis by simp
qed

lemma boot_capsule_bytes [simp]:
  "capsule_bytes (boot_capsule r) = region_bytes r" "capsule_bytes ((boot_capsule r)\<lparr>vcores := {}\<rparr>) = region_bytes r"
  by (simp_all add: boot_capsule_def capsule_bytes_def held_bytes_def get_physical_def)

lemma sim_provided:
  assumes "memory_inv s" and "iteration_ok pf"
  shows "partition_step\<^sup>*\<^sup>* (partition_of s) (partition_of (snd (create_boot_capsule pf me s)))"
  using assms(2)
proof (cases rule: create_boot_capsule_cases[where pf = pf and me = me and s = s])
  case exhausted
  then have "partition_of (snd (create_boot_capsule pf me s)) = partition_of s"
    by (intro partition_of_cong) simp_all
  then show ?thesis by simp
next
  case (no_memory cid c)
  then show ?thesis by (intro endow_new[of s cid _ c]) (simp_all add: capsule_bytes_def held_bytes_def)
next
  case (not_loaded cid r R e t)
  let ?w = "with_boot_ram cid r R s"
  have f: "REGIONS t = R" "CAPSULES t = (CAPSULES s)(cid \<mapsto> (boot_capsule r)\<lparr>vcores := {}\<rparr>)"
    "SERVICES t = SERVICES s" "VCORES t = VCORES s"
    using no_ram_fields[OF load_no_ram[of pf me r "boot_supervisor (boot_supervisor_area pf)" ?w]] not_loaded(3)
    by (simp_all add: with_boot_ram_def)
  show ?thesis
    using alloc_region_law(4,5)[OF memory_invD(1)[OF assms(1)] not_loaded(2)] f not_loaded(1,4)
    by (intro endow_new[of s cid _ "(boot_capsule r)\<lparr>vcores := {}\<rparr>"]) simp_all
next
  case (loaded cid r R entry u)
  let ?w = "with_boot_ram cid r R s"
  have f: "REGIONS u = R" "SERVICES u = SERVICES s" "VCORES u = VCORES s"
    using no_ram_fields[OF load_no_ram[of pf me r "boot_supervisor (boot_supervisor_area pf)" ?w]] loaded(3)
    by (simp_all add: with_boot_ram_def)
  show ?thesis
    using alloc_region_law(4,5)[OF memory_invD(1)[OF assms(1)] loaded(2)] f loaded(1,4)
    by (intro endow_new[of s cid _ "boot_capsule r"]) simp_all
qed

section \<open>Every run is a run of the partition machine\<close>

definition host_bytes :: "('s, 'c) Platform \<Rightarrow> 8 word list \<Rightarrow> nat set" where
  "host_bytes pf dtb = (case parse_devices pf dtb of None \<Rightarrow> {} | Some d \<Rightarrow> held_bytes (host_areas pf d))"

lemma sim_begin:
  assumes "machine_ok pf dtb" and "hv_begin pf dtb (A, s)"
  shows "reachable (\<lambda>a. a = blank_partition (host_bytes pf dtb)) partition_step (partition_of s)"
proof -
  let ?H = "host_bytes pf dtb"
  from assms(2) obtain ks m where
    h: "hvmain pf BOOT_PCORE_ID BOOT_PCORE_ID dtb (hv_start ks m) = Some (Ok (), s)"
    by (auto elim: hv_begin.cases)
  obtain d where b: "booted pf d s" "VCORES s = Map.empty" "SERVICES s = Map.empty" "parse_devices pf dtb = Some d"
    by (rule hvmain_boot_result[OF assms(1), of BOOT_PCORE_ID ks m]) (use h in auto)
  then obtain cid r where c: "CAPSULES s = [cid \<mapsto> boot_capsule r]" "region_bytes r \<subseteq> ?H"
    "free_bytes (REGIONS s) = ?H - region_bytes r"
    by (auto simp: booted_def host_bytes_def)
  have "bytes_of s o' = owns (endow cid (region_bytes r) (blank_partition ?H)) o'" for o'
    using c by (cases o') (simp_all add: bytes_of_def endow_def blank_partition_def)
  then have "bytes_of s = owns (endow cid (region_bytes r) (blank_partition ?H))" by blast
  then have "partition_of s = endow cid (region_bytes r) (blank_partition ?H)"
    using b(2,3) c(1) by (simp add: partition_of_def endow_def blank_partition_def service_owner_def[abs_def] comp_def)
  moreover have "partition_step (blank_partition ?H) (endow cid (region_bytes r) (blank_partition ?H))"
    by (rule partition_step.endowed) (use c(2) in \<open>simp_all add: blank_partition_def\<close>)
  ultimately have st: "partition_step (blank_partition ?H) (partition_of s)" by simp
  have "reachable (\<lambda>a. a = blank_partition ?H) partition_step (blank_partition ?H)" by (simp add: reachable.first)
  then show ?thesis by (rule reachable.follow[where step = partition_step]) (rule st)
qed

lemma sim_exception:
  assumes inv: "system_inv (A, s)" and it: "iteration_ok pf" and h: "handle_exception pf me irq s = Some (Done t)"
  shows "partition_step\<^sup>*\<^sup>* (partition_of s) (partition_of t)"
proof (cases "fatal irq \<and> privilege_mode irq = Supervisor")
  case True
  with h obtain f as where r: "run_next pf me True (kill_running_capsule pf me (hvalert me f as s)) = Some (Done t)"
    by (auto simp: handle_exception_def)
  have l: "system_inv (A, hvalert me f as s)"
    by (rule system_inv_essence[OF inv]) (use system_invD(5)[OF inv] in simp_all)
  have "partition_of (hvalert me f as s) = partition_of s" by (rule partition_of_essence) simp
  then show ?thesis
    using sim_kill[OF system_invD(1,2)[OF l] it, of me] sim_run_next[OF system_invD(1)[OF system_inv_kill[OF l it]] r]
    by (metis rtranclp_trans)
next
  case False
  then have "essence t = essence s"
    using h by (auto simp: handle_exception_def Let_def split: if_splits option.splits)
  then have "partition_of t = partition_of s" by (rule partition_of_essence)
  then show ?thesis by simp
qed

lemma partition_of_ack [simp]: "partition_of (call_platform me Acknowledge s) = partition_of s"
  by (rule partition_of_cong) (simp_all add: call_platform_def)

lemma sim_interrupt:
  assumes inv: "system_inv (A, s)" and h: "handle_interrupt pf me irq s = Some (Done t)"
  shows "partition_step\<^sup>*\<^sup>* (partition_of s) (partition_of t)"
proof (cases "cause irq = HypervisorTimer")
  case True
  with h obtain u where u: "run_next pf me False s = Some (Done u)" "t = call_platform me Acknowledge u"
    by (auto simp: handle_interrupt_def bind_outcome_Done)
  show ?thesis using sim_run_next[OF system_invD(1)[OF inv] u(1)] u(2) by simp
next
  case False
  then obtain f as where "t = call_platform me Acknowledge (hvdebug pf me f as s)"
    using h by (auto simp: handle_interrupt_def split: IRQCause.splits)
  then have "partition_of t = partition_of s" using partition_of_essence[of "hvdebug pf me f as s" s] by simp
  then show ?thesis by simp
qed

lemma partition_of_core_up:
  assumes "p \<noteq> BOOT_PCORE_ID" and "hvmain pf p p dtb s = Some (r, t)"
  shows "partition_of t = partition_of s"
proof -
  obtain f as where t: "t = scheduler_timer_start p (hvdebug pf p f as (PhysicalCore_init pf p p s))"
    using assms by (auto simp: hvmain_def Let_def scheduler_start_def split: if_splits)
  have "partition_of (PhysicalCore_init pf p p s) = partition_of s" by (rule partition_of_cong) simp_all
  then show ?thesis using partition_of_essence[of "hvdebug pf p f as (PhysicalCore_init pf p p s)"] by (simp add: t)
qed

lemma sim_step:
  assumes "hv_step pf dtb x y" and it: "iteration_ok pf" and "system_inv x"
  shows "partition_step\<^sup>*\<^sup>* (partition_of (snd x)) (partition_of (snd y))"
  using assms(1,3)
proof (induction rule: hv_step.induct)
  case (interrupted me A irq s t)
  then show ?case
    using sim_exception[OF _ it] sim_interrupt
    by (cases "irq_type irq") (auto simp: hypervisor_irq_handler_def)
next
  case (killed me A s)
  then show ?case using sim_kill[OF _ _ it] system_invD(1,2) by (metis snd_conv)
next
  case (rescheduled me A must s t)
  then show ?case using sim_run_next system_invD(1) by (metis snd_conv)
next
  case (tidied me A s)
  then show ?case using partition_of_housekeeping system_invD(1) by (metis rtranclp.rtrancl_refl snd_conv)
next
  case (core_up p A s r t)
  then show ?case using partition_of_core_up by (metis rtranclp.rtrancl_refl snd_conv)
next
  case (provided me A s)
  then show ?case using sim_provided[OF _ it] system_invD(1) by (metis snd_conv)
next
  case (destroyed me A s cid)
  then show ?case using sim_destroy[OF _ _ it] system_invD(1,2) by (metis snd_conv)
next
  case (panicked me A s l)
  then show ?case using partition_of_essence[OF halt_essence(1), of me l s] by simp
next
  case (aborted me A s)
  then show ?case using partition_of_essence[OF halt_essence(2), of me s] by simp
next
  case (exhausted me A s n)
  then show ?case using partition_of_essence[OF halt_essence(3), of me n s] by simp
qed (simp_all add: sim_register sim_deregister)

interpretation hypervisor_partition: simulation "\<lambda>x. machine_ok pf dtb \<and> hv_begin pf dtb x" "hv_step pf dtb"
  "\<lambda>x. machine_ok pf dtb \<and> system_inv x" "\<lambda>a. a = blank_partition (host_bytes pf dtb)" partition_step
  "\<lambda>x. partition_of (snd x)"
proof unfold_locales
  fix x y
  show "reachable (\<lambda>a. a = blank_partition (host_bytes pf dtb)) partition_step (partition_of (snd x))"
    if "machine_ok pf dtb \<and> hv_begin pf dtb x"
    using that sim_begin[of pf dtb "fst x" "snd x"] by simp
  show "partition_step\<^sup>*\<^sup>* (partition_of (snd x)) (partition_of (snd y))"
    if "machine_ok pf dtb \<and> system_inv x" "hv_step pf dtb x y"
    using that sim_step[of pf dtb x y] by (simp add: machine_ok_def)
qed

lemma reachable_partition:
  assumes "machine_ok pf dtb" and "hv_reachable pf dtb (A, s)"
  shows "reachable (\<lambda>a. a = blank_partition (host_bytes pf dtb)) partition_step (partition_of s)"
  using hypervisor_partition.simulated[of pf dtb "(A, s)"] assms by simp

section \<open>Properties\<close>

text \<open>C3: the hypervisor implements the partition machine: from power-on, through every interleaving of
  operations, the division of the RAM, the living capsules, the services with their owners and the
  capsules the cores run change only by steps of that machine. RAM moves from the pool to a new
  capsule or from a dead one to the pool, and only living capsules get services.\<close>

theorem hypervisor_refines_partition:
  assumes "machine_ok pf dtb" and "hv_reachable pf dtb (A, s)"
  shows "reachable (\<lambda>a. a = blank_partition (host_bytes pf dtb)) partition_step (partition_of s)
    \<and> (\<forall>B t. hv_step pf dtb (A, s) (B, t) \<longrightarrow> partition_step\<^sup>*\<^sup>* (partition_of s) (partition_of t))"
  using reachable_partition[OF assms] sim_step[of pf dtb "(A, s)"] reachable_system_inv[OF assms] assms(1)
  by (auto simp: machine_ok_def)

text \<open>C4: no byte of RAM is ever lost or made up: in every reachable state the free pool and the capsules
  together hold exactly the RAM the platform reported at boot, each byte once.\<close>

theorem ram_conserved:
  assumes "machine_ok pf dtb" and "hv_reachable pf dtb (A, s)"
  shows "free_bytes (REGIONS s) \<union> (\<Union>cid. case CAPSULES s cid of None \<Rightarrow> {} | Some c \<Rightarrow> capsule_bytes c) = host_bytes pf dtb
    \<and> (\<forall>cid c. CAPSULES s cid = Some c \<longrightarrow> capsule_bytes c \<inter> free_bytes (REGIONS s) = {}
        \<and> (\<forall>cid' c'. CAPSULES s cid' = Some c' \<and> cid' \<noteq> cid \<longrightarrow> capsule_bytes c \<inter> capsule_bytes c' = {}))"
proof -
  have inv: "partition_inv (host_bytes pf dtb) (partition_of s)"
    by (rule partitioning.reachable_inv[OF reachable_partition[OF assms]])
  have "range (bytes_of s) = insert (bytes_of s Pool) (bytes_of s ` range Belongs)"
    by (metis UNIV_eq_I image_insert insertCI owner.exhaust rangeI)
  then have "\<Union> (range (bytes_of s)) = bytes_of s Pool \<union> (\<Union>cid. bytes_of s (Belongs cid))" by auto
  then have "free_bytes (REGIONS s) \<union> (\<Union>cid. case CAPSULES s cid of None \<Rightarrow> {} | Some c \<Rightarrow> capsule_bytes c) = host_bytes pf dtb"
    using inv by (simp add: partition_inv_def bytes_of_def)
  moreover have "capsule_bytes c \<inter> free_bytes (REGIONS s) = {}" if "CAPSULES s cid = Some c" for cid c
  proof -
    have "bytes_of s (Belongs cid) \<inter> bytes_of s Pool = {}" using inv by (simp add: partition_inv_def)
    then show ?thesis using that by (simp add: bytes_of_def)
  qed
  moreover have "capsule_bytes c \<inter> capsule_bytes c' = {}"
    if "CAPSULES s cid = Some c" "CAPSULES s cid' = Some c'" "cid' \<noteq> cid" for cid c cid' c'
  proof -
    have "bytes_of s (Belongs cid) \<inter> bytes_of s (Belongs cid') = {}" using inv that(3) by (simp add: partition_inv_def)
    then show ?thesis using that(1,2) by (simp add: bytes_of_def)
  qed
  ultimately show ?thesis by metis
qed

theorem hypervisor_refines_partition_witness:
  "\<exists>u :: (usize, usize) hv. occupant (partition_of u) 0 \<noteq> occupant (partition_of u) 1
     \<and> reachable (\<lambda>a. a = blank_partition (host_bytes example_platform [])) partition_step (partition_of u)"
proof -
  obtain u v w where u: "hv_reachable example_platform [] ({0, 1}, u)" "running u 0 = Some v" "running u 1 = Some w"
    "get_capsule_id v \<noteq> get_capsule_id w" by (rule example_two_capsules) blast
  have "PhysicalCore_get_id u 0 = 0" "PhysicalCore_get_id u 1 = 1"
    using system_invD(4)[OF reachable_system_inv[OF example_machine u(1)]] by (simp_all add: cores_inv_def)
  then have "occupant (partition_of u) 0 \<noteq> occupant (partition_of u) 1" using u(2-4) by (simp add: running_def)
  moreover note conjunct1[OF hypervisor_refines_partition[OF example_machine u(1)]]
  ultimately show ?thesis by blast
qed

lemma example_host_bytes: "host_bytes example_platform [] = {0x80000000 ..< 0x90000000}"
  by (simp add: host_bytes_def host_areas_def example_platform_def area_region_def Region_new_def held_bytes_def
      region_bytes_def bytes_def)

theorem ram_conserved_witness:
  "\<exists>u. hv_reachable example_platform [] ({0, 1}, u) \<and> free_bytes (REGIONS u) \<union>
     (\<Union>cid. case CAPSULES u cid of None \<Rightarrow> {} | Some c \<Rightarrow> capsule_bytes c) = {0x80000000 ..< 0x90000000}"
proof -
  obtain u v w where u: "hv_reachable example_platform [] ({0, 1}, u)" "running u 0 = Some v" "running u 1 = Some w"
    by (rule example_two_capsules) blast
  show ?thesis using u(1) conjunct1[OF ram_conserved[OF example_machine u(1)]] unfolding example_host_bytes by blast
qed

end
