(* ===== verification/Hv_Teardown.thy ===== *)
theory Hv_Teardown
  imports Hv_System
begin

text \<open>
  What is left of a capsule when it is torn down while several cores run it. \<open>destroy\<close> returns the RAM at once, but
  only the core on which the exception happened is made to switch.
\<close>

text \<open>C34: teardown does not wait for the cores that still run the capsule. If two cores run virtual cores of one capsule
  and it is killed on one of them, then in the reachable state that results the other core goes on executing the
  capsule's code with access to all of its RAM, and all of this RAM is in the free pool, from which the next
  allocation may take it.\<close>

theorem killed_capsule_keeps_access:
  assumes "machine_ok pf dtb" and "hv_reachable pf dtb (A, s)"
    and "p \<in> A" and "running s p = Some v" and "CAPSULES s (get_capsule_id v) = Some c" and "capsule_bytes c \<noteq> {}"
    and "me \<in> A" and "running s me = Some w" and "get_capsule_id w = get_capsule_id v"
  shows "hv_reachable pf dtb (A, kill_running_capsule pf me s)
    \<and> running (kill_running_capsule pf me s) p = Some v \<and> CAPSULES (kill_running_capsule pf me s) (get_capsule_id v) = None
    \<and> reach (kill_running_capsule pf me s) p = capsule_bytes c
    \<and> capsule_bytes c \<subseteq> free_bytes (REGIONS (kill_running_capsule pf me s))"
proof -
  have it: "iteration_ok pf" using assms(1) by (simp add: machine_ok_def)
  have inv: "system_inv (A, s)" by (rule reachable_system_inv[OF assms(1,2)])
  note k = kill_running_fields[OF it assms(8), unfolded assms(9)]
  have "reach (kill_running_capsule pf me s) p = reach s p" using k(3) by (simp add: reach_def granted_def)
  moreover have "reach s p = capsule_bytes c" by (rule isolated_reach[OF inv assms(3-6)])
  moreover have "running (kill_running_capsule pf me s) p = Some v"
    using assms(4) k(2,3) by (simp add: running_def PhysicalCore_get_id_def)
  moreover have "free_bytes (REGIONS (kill_running_capsule pf me s)) = free_bytes (REGIONS s) \<union> capsule_bytes c"
    using k(5) destroy_memory_inv(2)[OF system_invD(1)[OF inv] it assms(5)] by simp
  moreover have "hv_reachable pf dtb (A, kill_running_capsule pf me s)"
    by (rule reachable_step[OF assms(2) hv_step.killed[OF assms(7)]])
  ultimately show ?thesis using k(1) by simp
qed

section \<open>An example\<close>

text \<open>Both cores run a virtual core of the boot capsule.\<close>

lemma example_same_capsule:
  obtains u v w c where "hv_reachable example_platform [] ({0, 1}, u)" "running u 0 = Some v" "running u 1 = Some w"
    "get_capsule_id v = get_capsule_id w" "CAPSULES u (get_capsule_id w) = Some c"
    "memory c = memory (boot_capsule \<lparr>rgn_base = 0x80000000, rgn_size = 0x8000000\<rparr>)"
    "REGIONS u = \<lparr>regions = [\<lparr>rgn_base = 0x88000000, rgn_size = 0x8000000\<rparr>]\<rparr>"
proof -
  let ?pf = example_platform
  obtain t1 cid entry where r1: "hv_reachable ?pf [] ({0, 1}, t1)" and s1: "smode_supported t1 0" "smode_supported t1 1"
    and f1: "VCORES t1 = Map.empty" "CAPSULES t1 = [cid \<mapsto> boot_capsule \<lparr>rgn_base = 0x80000000, rgn_size = 0x8000000\<rparr>]"
    "REGIONS t1 = \<lparr>regions = [\<lparr>rgn_base = 0x88000000, rgn_size = 0x8000000\<rparr>]\<rparr>"
    "GLOBAL_QUEUES t1 = ScheduleQueues_queue ScheduleQueues_new (boot_vcore ?pf cid entry)"
    by (rule example_two_up)
  define t2 where "t2 = snd (create_and_add_vcore ?pf cid 1 entry High t1)"
  define w where "w = (boot_vcore ?pf cid entry)\<lparr>vc_id := \<lparr>capsuleid = cid, vcoreid = 1\<rparr>\<rparr>"
  define c where "c = add_vcore (boot_capsule \<lparr>rgn_base = 0x80000000, rgn_size = 0x8000000\<rparr>) 1"
  have f2: "CAPSULES t2 = [cid \<mapsto> c]" "smode_supported t2 0" "smode_supported t2 1" "REGIONS t2 = REGIONS t1"
    "GLOBAL_QUEUES t2 = ScheduleQueues_queue (ScheduleQueues_queue ScheduleQueues_new (boot_vcore ?pf cid entry)) w"
    using s1 f1 by (simp_all add: t2_def w_def c_def create_and_add_vcore_def VirtualCore_create_def scheduler_queue_def
        smode_supported_def boot_vcore_def)
  have r2: "hv_reachable ?pf [] ({0, 1}, t2)" unfolding t2_def by (rule reachable_step[OF r1 hv_step.vcore_added])
  have one: "one_area t" "PhysicalCore_get_id t 0 = 0" "PhysicalCore_get_id t 1 = 1" if "hv_reachable ?pf [] ({0, 1}, t)" for t
    using system_invD(4,6)[OF reachable_system_inv[OF example_machine that]] by (auto simp: cores_inv_def)
  note q = two_queued[OF f2(5)]
  have high: "get_priority (boot_vcore ?pf cid entry) = High" "get_priority w = High"
    by (simp_all add: get_priority_def boot_vcore_def w_def)
  obtain t3 where t3: "run_next ?pf 0 False t2 = Some (Done t3)" "VCORES t3 = (VCORES t2)(0 \<mapsto> boot_vcore ?pf cid entry)"
    "CAPSULES t3 = CAPSULES t2" "GLOBAL_QUEUES t3 = ScheduleQueues_queue ScheduleQueues_new w" "smode_supported t3 1" "REGIONS t3 = REGIONS t2"
    by (rule tick_global[OF f2(2) q(1)[OF high] one(1)[OF r2], of ?pf]) (use one(2)[OF r2] f2(3) in simp)
  have r3: "hv_reachable ?pf [] ({0, 1}, t3)" by (rule reachable_step[OF r2 hv_step.rescheduled[OF _ t3(1)]]) simp
  obtain t4 where t4: "run_next ?pf 1 False t3 = Some (Done t4)" "VCORES t4 = (VCORES t3)(1 \<mapsto> w)" "CAPSULES t4 = CAPSULES t3"
    "REGIONS t4 = REGIONS t3"
    by (rule tick_global[OF t3(5) _ one(1)[OF r3], of _ _ ?pf]) (use one(3)[OF r3] q(2)[OF high] t3(4) in auto)
  have r4: "hv_reachable ?pf [] ({0, 1}, t4)" by (rule reachable_step[OF r3 hv_step.rescheduled[OF _ t4(1)]]) simp
  show ?thesis
    by (rule that[OF r4, of "boot_vcore ?pf cid entry" w c])
      (use one(2,3)[OF r4] t3(2,3,6) t4(2-4) f2(1,4) f1(3) in \<open>simp_all add: running_def boot_vcore_def get_capsule_id_def w_def c_def add_vcore_def\<close>)
qed

lemma example_given_out_again:
  "fst (alloc_region (give_back dealloc_region \<lparr>regions = [\<lparr>rgn_base = 0x88000000, rgn_size = 0x8000000\<rparr>]\<rparr>
      [\<lparr>rgn_base = 0x80000000, rgn_size = 0x8000000\<rparr>]) 0x8000000) = Ok \<lparr>rgn_base = 0x80000000, rgn_size = 0x8000000\<rparr>"
  by code_simp

text \<open>When the capsule dies on core 0, core 1 goes on with access to 128 MiB that are free, and the next allocation
  of that size gives out exactly these.\<close>

theorem killed_capsule_keeps_access_witness:
  "\<exists>u w. hv_reachable example_platform [] ({0, 1}, u) \<and> running u 1 = Some w \<and> CAPSULES u (get_capsule_id w) = None
     \<and> reach u 1 = {0x80000000 ..< 0x88000000} \<and> reach u 1 \<subseteq> free_bytes (REGIONS u)
     \<and> (\<exists>r. fst (alloc_region (REGIONS u) 0x8000000) = Ok r \<and> region_bytes r = reach u 1)"
proof -
  obtain u v w c where u: "hv_reachable example_platform [] ({0, 1}, u)" "running u 0 = Some v" "running u 1 = Some w"
    "get_capsule_id v = get_capsule_id w" "CAPSULES u (get_capsule_id w) = Some c"
    "memory c = memory (boot_capsule \<lparr>rgn_base = 0x80000000, rgn_size = 0x8000000\<rparr>)"
    "REGIONS u = \<lparr>regions = [\<lparr>rgn_base = 0x88000000, rgn_size = 0x8000000\<rparr>]\<rparr>"
    by (rule example_same_capsule)
  have b: "capsule_bytes c = {0x80000000 ..< 0x88000000}"
    using u(6) by (simp add: boot_capsule_def capsule_bytes_def held_bytes_def get_physical_def region_bytes_def bytes_def)
  then have "capsule_bytes c \<noteq> {}" by simp
  note k = killed_capsule_keeps_access[OF example_machine u(1) _ u(3,5) this _ u(2,4), unfolded b]
  have "regions_of (memory c) = [\<lparr>rgn_base = 0x80000000, rgn_size = 0x8000000\<rparr>]"
    using u(6) by (simp add: boot_capsule_def get_physical_def)
  then have "REGIONS (kill_running_capsule example_platform 0 u) = give_back dealloc_region
      \<lparr>regions = [\<lparr>rgn_base = 0x88000000, rgn_size = 0x8000000\<rparr>]\<rparr> [\<lparr>rgn_base = 0x80000000, rgn_size = 0x8000000\<rparr>]"
    using kill_running_fields(5)[OF example_platform_iteration u(2)] essence_fields(1)[OF destroy_essence(2)[OF example_platform_iteration u(5)]]
      u(4,7) by simp
  moreover have "region_bytes \<lparr>rgn_base = 0x80000000, rgn_size = 0x8000000\<rparr> = {0x80000000 ..< 0x88000000}"
    by (simp add: region_bytes_def bytes_def)
  ultimately show ?thesis using k example_given_out_again by (intro exI[of _ "kill_running_capsule example_platform 0 u"] exI[of _ w]) auto
qed

end
