(* ===== verification/Hv_Build.thy ===== *)
theory Hv_Build
  imports Hv_Prelude "HOL-Library.List_Lexorder" "HOL-Library.Char_ord"
begin

text \<open>
  The build script, \<^verbatim>\<open>build.rs\<close>. It runs on the host before the hypervisor is compiled: it turns the boot
  capsule's supervisor and the platform's assembly files into object files with the target's GNU tools
  and packs them into an archive that the compiler links.

  The host is a parameter: its environment variables, its files, what its commands do, and the
  \<open>regex\<close> crate. A panic carries its message, less the error value that
  \<open>expect\<close> appends.
\<close>

section \<open>The host\<close>

datatype 'a built = Built 'a | Failed string

primrec built_bind :: "'a built \<Rightarrow> ('a \<Rightarrow> 'b built) \<Rightarrow> 'b built" where
  "built_bind (Built a) f = f a"
| "built_bind (Failed m) f = Failed m"

lemma built_bind_Built: "built_bind r f = Built b \<longleftrightarrow> (\<exists>a. r = Built a \<and> f a = Built b)"
  by (cases r) auto

text \<open>Regular expressions, as far as the script uses them: a character of a class, one expression after
  another, one or more repetitions, and a named group. Groups without a name are never read.\<close>

datatype rx = Chars string | Then rx rx | Plus rx | Named string rx

text \<open>An entry of a directory: its path, if it is valid UTF-8, and whether it is a regular file, if its
  metadata can be read. A command's output, \<open>None\<close> for text that is not valid UTF-8.\<close>

record DirEntry =
  entry_path :: "string option"
  entry_is_file :: "bool option"

record Output =
  out_success :: bool
  out_stdout :: "string option"
  out_stderr :: "string option"

type_synonym command = "string \<times> string list"

text \<open>The result of a command may depend on the commands before it.\<close>

record Host =
  env_var :: "string \<rightharpoonup> string"
  metadata_error :: "string \<rightharpoonup> string"
  read_dir :: "string \<rightharpoonup> DirEntry option list"
  run_command :: "command list \<Rightarrow> command \<rightharpoonup> Output"
  re_captures :: "rx \<Rightarrow> string \<Rightarrow> (string \<rightharpoonup> string) option"
  object_iter :: "string set \<Rightarrow> string list"

section \<open>Targets\<close>

record Target =
  tgt_target :: string
  tgt_cpu_arch :: string
  tgt_gnu_prefix :: string
  tgt_platform :: string
  tgt_width :: nat
  tgt_abi :: string

definition Target_new :: "string \<Rightarrow> Target built" where
  "Target_new triple =
     (let arch = takeWhile (\<lambda>c. c \<noteq> CHR ''-'') triple
      in if arch = ''riscv32imac''
         then Built \<lparr>tgt_target = ''riscv32imac'', tgt_cpu_arch = ''rv32imac'', tgt_gnu_prefix = ''riscv32'',
                     tgt_platform = ''riscv'', tgt_width = 32, tgt_abi = ''ilp32''\<rparr>
         else if arch = ''riscv64imac''
         then Built \<lparr>tgt_target = ''riscv64imac'', tgt_cpu_arch = ''rv64imac'', tgt_gnu_prefix = ''riscv64'',
                     tgt_platform = ''riscv'', tgt_width = 64, tgt_abi = ''lp64''\<rparr>
         else if arch = ''riscv64gc''
         then Built \<lparr>tgt_target = ''riscv64gc'', tgt_cpu_arch = ''rv64gc'', tgt_gnu_prefix = ''riscv64'',
                     tgt_platform = ''riscv'', tgt_width = 64, tgt_abi = ''lp64''\<rparr>
         else Failed (''Unknown target '' @ [CHR 0x27] @ arch @ [CHR 0x27]))"

section \<open>The build context\<close>

text \<open>The context, and with it what the script has done so far: the commands it ran, in order, and the
  lines it printed for cargo.\<close>

record Context =
  output_dir :: string
  objects :: "string set"
  as_exec :: string
  ar_exec :: string
  ld_exec :: string
  objcopy_exec :: string
  ctx_target :: Target
  ran :: "command list"
  printed :: "string list"

definition println :: "string \<Rightarrow> Context \<Rightarrow> Context" where
  "println line ctx = ctx\<lparr>printed := printed ctx @ [line]\<rparr>"

text \<open>\<open>Command::output().expect(..)\<close>\<close>

definition output_of :: "Host \<Rightarrow> command \<Rightarrow> string \<Rightarrow> Context \<Rightarrow> (Output \<times> Context) built" where
  "output_of h cmd complaint ctx =
     (case run_command h (ran ctx) cmd of
        None \<Rightarrow> Failed complaint
      | Some out \<Rightarrow> Built (out, ctx\<lparr>ran := ran ctx @ [cmd]\<rparr>))"

text \<open>The panic on a command that failed, with what the command said; \<open>unwrap\<close> panics on bad UTF-8.\<close>

definition command_panic :: "string \<Rightarrow> Output \<Rightarrow> 'a built" where
  "command_panic what out =
     (case (out_stdout out, out_stderr out) of
        (Some o', Some e) \<Rightarrow> Failed (what @ [CHR 0x0A] @ o' @ [CHR 0x0A] @ e)
      | _ \<Rightarrow> Failed ''called `Result::unwrap()` on an `Err` value'')"

definition register_object :: "string \<Rightarrow> Context \<Rightarrow> Context built" where
  "register_object path ctx =
     (if path \<in> objects ctx
      then Failed (''Cannot register object '' @ path @ '' - an object already exists in that location'')
      else Built (ctx\<lparr>objects := insert path (objects ctx)\<rparr>))"

section \<open>Packaging the supervisor\<close>

definition replace_char :: "char \<Rightarrow> char \<Rightarrow> string \<Rightarrow> string" where
  "replace_char a b = map (\<lambda>c. if c = a then b else c)"

definition symbol_prefix :: "string \<Rightarrow> string \<Rightarrow> string" where
  "symbol_prefix binary_dir component =
     ''_binary_'' @ replace_char (CHR ''.'') (CHR ''_'') (replace_char (CHR ''/'') (CHR ''_'') binary_dir)
       @ ''_'' @ component @ ''_''"

definition ld_command :: "Context \<Rightarrow> string \<Rightarrow> string \<Rightarrow> command" where
  "ld_command ctx binary_file object_file =
     (ld_exec ctx, [''-r'', ''--format=binary'', binary_file, ''-o'', object_file])"

definition objcopy_command :: "Context \<Rightarrow> string \<Rightarrow> string \<Rightarrow> string \<Rightarrow> command" where
  "objcopy_command ctx prefix component object_file =
     (let renamed_prefix = ''_binary_'' @ component @ ''_''
      in (objcopy_exec ctx,
          [''--redefine-sym'', prefix @ ''start='' @ renamed_prefix @ ''start'',
           ''--redefine-sym'', prefix @ ''end='' @ renamed_prefix @ ''end'',
           ''--redefine-sym'', prefix @ ''size='' @ renamed_prefix @ ''size'', object_file]))"

definition package_binary :: "Host \<Rightarrow> string \<Rightarrow> string \<Rightarrow> Context \<Rightarrow> Context built" where
  "package_binary h binary_dir component ctx =
     (let object_file = output_dir ctx @ ''/'' @ component @ ''.o'';
          binary_file = binary_dir @ ''/'' @ component
      in built_bind (output_of h (ld_command ctx binary_file object_file)
           (''Couldn'' @ [CHR 0x27] @ ''t run command to convert '' @ binary_file @ '' into linkable object file'') ctx)
         (\<lambda>(result, ctx1).
           if out_success result \<noteq> True
           then command_panic (''Conversion of '' @ binary_file @ '' to object '' @ object_file @ '' failed:'') result
           else built_bind
             (output_of h (objcopy_command ctx1 (symbol_prefix binary_dir component) component object_file)
               (''Couldn'' @ [CHR 0x27] @ ''t run command to rename symbols for '' @ binary_file) ctx1)
             (\<lambda>(rename, ctx2).
               if out_success rename \<noteq> True
               then command_panic (''Symbol rename for '' @ binary_file @ '' in '' @ object_file @ '' failed:'') result
               else register_object object_file ctx2)))"

section \<open>Assembling\<close>

text \<open>\<^verbatim>\<open>(([A-Za-z0-9_]+)(/))+(?P<leaf>[A-Za-z0-9]+)(\.s)\<close>\<close>

definition alnum_class :: string where
  "alnum_class = ''ABCDEFGHIJKLMNOPQRSTUVWXYZabcdefghijklmnopqrstuvwxyz0123456789''"

definition word_class :: string where
  "word_class = alnum_class @ ''_''"

definition asm_pattern :: rx where
  "asm_pattern =
     Then (Plus (Then (Plus (Chars word_class)) (Chars ''/'')))
       (Then (Named ''leaf'' (Plus (Chars alnum_class)))
         (Then (Chars ''.'') (Chars ''s'')))"

definition as_command :: "Context \<Rightarrow> string \<Rightarrow> string \<Rightarrow> string \<Rightarrow> command" where
  "as_command ctx ptrwidth object_file path =
     (as_exec ctx, [''-march'', tgt_cpu_arch (ctx_target ctx), ''-mabi'', tgt_abi (ctx_target ctx),
        ''--defsym'', ''ptrwidth='' @ ptrwidth, ''-o'', object_file, path])"

text \<open>The width is printed in decimal; it is 32 or 64.\<close>

definition width_text :: "nat \<Rightarrow> string" where
  "width_text n = [char_of (48 + n div 10 mod 10), char_of (48 + n mod 10)]"

text \<open>Indexing the captures with a group that did not take part would panic.\<close>

definition assemble :: "Host \<Rightarrow> string \<Rightarrow> Context \<Rightarrow> Context built" where
  "assemble h path ctx =
     (case re_captures h asm_pattern path of
        None \<Rightarrow> Built ctx
      | Some groups \<Rightarrow>
          (case groups ''leaf'' of
             None \<Rightarrow> Failed ''no group named leaf''
           | Some leafname \<Rightarrow>
               (let object_file = output_dir ctx @ ''/'' @ leafname @ ''.o''
                in built_bind (output_of h (as_command ctx (width_text (tgt_width (ctx_target ctx))) object_file path)
                     (''Failed to execute command to assemble '' @ path) ctx)
                   (\<lambda>(result, ctx1).
                     if out_success result \<noteq> True
                     then command_panic (''Assembling '' @ path @ '' failed:'') result
                     else register_object object_file ctx1))))"

fun assemble_entries :: "Host \<Rightarrow> DirEntry option list \<Rightarrow> Context \<Rightarrow> Context built" where
  "assemble_entries h [] ctx = Built ctx"
| "assemble_entries h (file # files) ctx =
     (case file of
        None \<Rightarrow> assemble_entries h files ctx
      | Some f \<Rightarrow>
          if entry_is_file f = Some True
          then (case entry_path f of
                  None \<Rightarrow> Failed ''called `Option::unwrap()` on a `None` value''
                | Some path \<Rightarrow>
                    built_bind (assemble h path (println (''cargo:rerun-if-changed='' @ path) ctx))
                      (assemble_entries h files))
          else assemble_entries h files ctx)"

definition assemble_directory :: "Host \<Rightarrow> string \<Rightarrow> Context \<Rightarrow> Context built" where
  "assemble_directory h slurp_from ctx =
     (case read_dir h slurp_from of
        Some directory \<Rightarrow> assemble_entries h directory ctx
      | None \<Rightarrow> Built ctx)"

section \<open>The archive\<close>

definition ar_command :: "Host \<Rightarrow> Context \<Rightarrow> string \<Rightarrow> command" where
  "ar_command h ctx archive_path = (ar_exec ctx, ''crus'' # archive_path # object_iter h (objects ctx))"

definition link_archive :: "Host \<Rightarrow> Context \<Rightarrow> Context built" where
  "link_archive h ctx =
     (let archive_name = ''hv'';
          archive_path = output_dir ctx @ ''/lib'' @ archive_name @ ''.a''
      in built_bind (output_of h (ar_command h ctx archive_path)
           (''Failed to execute command to archive '' @ archive_path) ctx)
         (\<lambda>(result, ctx1).
           if out_success result \<noteq> True
           then command_panic (''Archiving '' @ archive_path @ '' failed:'') result
           else Built (println (''cargo:rustc-link-lib=static='' @ archive_name)
                        (println (''cargo:rustc-link-search='' @ output_dir ctx1) ctx1))))"

section \<open>The script\<close>

definition new_context :: "string \<Rightarrow> Target \<Rightarrow> Context" where
  "new_context dir target =
     \<lparr>output_dir = dir, objects = {},
      as_exec = tgt_gnu_prefix target @ ''-elf-as'', ar_exec = tgt_gnu_prefix target @ ''-elf-ar'',
      ld_exec = tgt_gnu_prefix target @ ''-elf-ld'', objcopy_exec = tgt_gnu_prefix target @ ''-elf-objcopy'',
      ctx_target = target, ran = [], printed = []\<rparr>"

definition boot_files :: "Target \<Rightarrow> string" where
  "boot_files target = ''boot/binaries/'' @ tgt_target target"

definition asm_directory :: "Target \<Rightarrow> string" where
  "asm_directory target = ''src/platform-'' @ tgt_platform target @ ''/asm''"

definition link_script_line :: "Target \<Rightarrow> string" where
  "link_script_line target = ''cargo:rerun-if-changed=src/platform-'' @ tgt_platform target @ ''/link.ld''"

definition build_main :: "Host \<Rightarrow> Context built" where
  "build_main h =
     (case env_var h ''TARGET'' of
        None \<Rightarrow> Failed ''Missing target triple, use --target with cargo''
      | Some triple \<Rightarrow>
          built_bind (Target_new triple) (\<lambda>target.
            (case env_var h ''OUT_DIR'' of
               None \<Rightarrow> Failed ''No output directory specified''
             | Some dir \<Rightarrow>
                 (let context = new_context dir target;
                      boot_supervisor = boot_files target @ ''/supervisor''
                  in case metadata_error h boot_supervisor of
                       Some e \<Rightarrow> Failed (''Expected boot capsule supervisor at '' @ boot_supervisor
                         @ '', can'' @ [CHR 0x27] @ ''t find it (error: '' @ e @ '')'')
                     | None \<Rightarrow>
                         built_bind (package_binary h (boot_files target) ''supervisor'' context) (\<lambda>ctx1.
                         built_bind (assemble_directory h (asm_directory target) (println (link_script_line target) ctx1))
                           (link_archive h))))))"

section \<open>What a successful build has done\<close>

definition command_ok :: "Host \<Rightarrow> command list \<Rightarrow> command \<Rightarrow> bool" where
  "command_ok h before cmd \<longleftrightarrow> (case run_command h before cmd of None \<Rightarrow> False | Some out \<Rightarrow> out_success out)"

definition all_ok :: "Host \<Rightarrow> command list \<Rightarrow> bool" where
  "all_ok h cmds \<longleftrightarrow> (\<forall>i<length cmds. command_ok h (take i cmds) (cmds ! i))"

lemma all_ok_snoc: "all_ok h (cs @ [c]) \<longleftrightarrow> all_ok h cs \<and> command_ok h cs c"
  by (auto simp: all_ok_def nth_append less_Suc_eq)

lemma all_ok_Nil [simp]: "all_ok h []"
  by (simp add: all_ok_def)

lemma output_of_Built:
  "output_of h cmd m ctx = Built (out, ctx') \<longleftrightarrow> run_command h (ran ctx) cmd = Some out \<and> ctx' = ctx\<lparr>ran := ran ctx @ [cmd]\<rparr>"
  by (auto simp: output_of_def split: option.splits)

lemma command_panic_Built [simp]: "command_panic what out \<noteq> Built x"
  by (simp add: command_panic_def split: option.splits)

lemma register_object_Built:
  "register_object path ctx = Built ctx' \<longleftrightarrow> path \<notin> objects ctx \<and> ctx' = ctx\<lparr>objects := insert path (objects ctx)\<rparr>"
  by (auto simp: register_object_def)

text \<open>The files of a directory that are assembled, each with its leafname.\<close>

definition asm_source :: "Host \<Rightarrow> DirEntry option \<Rightarrow> (string \<times> string) option" where
  "asm_source h file =
     (case file of
        Some f \<Rightarrow>
          if entry_is_file f = Some True
          then (case entry_path f of
                  Some path \<Rightarrow>
                    (case re_captures h asm_pattern path of
                       Some groups \<Rightarrow> map_option (Pair path) (groups ''leaf'')
                     | None \<Rightarrow> None)
                | None \<Rightarrow> None)
          else None
      | None \<Rightarrow> None)"

definition asm_sources :: "Host \<Rightarrow> DirEntry option list \<Rightarrow> (string \<times> string) list" where
  "asm_sources h files = List.map_filter (asm_source h) files"

definition object_of :: "Context \<Rightarrow> string \<times> string \<Rightarrow> string" where
  "object_of ctx source = output_dir ctx @ ''/'' @ snd source @ ''.o''"

definition as_command_for :: "Context \<Rightarrow> string \<times> string \<Rightarrow> command" where
  "as_command_for ctx source =
     as_command ctx (width_text (tgt_width (ctx_target ctx))) (object_of ctx source) (fst source)"

lemma asm_sources_simps [simp]:
  "asm_sources h [] = []"
  "asm_sources h (f # fs) = (case asm_source h f of None \<Rightarrow> asm_sources h fs | Some x \<Rightarrow> x # asm_sources h fs)"
  by (simp_all add: asm_sources_def map_filter_simps split: option.splits)

text \<open>The parts of the context that never change.\<close>

definition same_setup :: "Context \<Rightarrow> Context \<Rightarrow> bool" where
  "same_setup a b \<longleftrightarrow> output_dir a = output_dir b \<and> as_exec a = as_exec b \<and> ar_exec a = ar_exec b \<and> ld_exec a = ld_exec b
     \<and> objcopy_exec a = objcopy_exec b \<and> ctx_target a = ctx_target b"

lemma same_setup_commands:
  assumes "same_setup a b"
  shows "object_of a = object_of b" "as_command_for a = as_command_for b"
  using assms by (simp_all add: same_setup_def object_of_def as_command_for_def as_command_def fun_eq_iff)

lemma assemble_Built:
  assumes "assemble h path ctx = Built ctx'"
  obtains (skipped) "re_captures h asm_pattern path = None" "ctx' = ctx"
  | (assembled) groups leaf where "re_captures h asm_pattern path = Some groups" "groups ''leaf'' = Some leaf"
      "object_of ctx (path, leaf) \<notin> objects ctx" "command_ok h (ran ctx) (as_command_for ctx (path, leaf))"
      "ctx' = ctx\<lparr>ran := ran ctx @ [as_command_for ctx (path, leaf)], objects := insert (object_of ctx (path, leaf)) (objects ctx)\<rparr>"
proof (cases "re_captures h asm_pattern path")
  case None
  then show ?thesis using skipped assms by (simp add: assemble_def)
next
  case (Some groups)
  with assms obtain leaf where leaf: "groups ''leaf'' = Some leaf"
    by (cases "groups ''leaf''") (auto simp: assemble_def)
  with Some assms show ?thesis
    by (intro assembled[of groups leaf])
      (auto simp: assemble_def built_bind_Built output_of_Built register_object_Built object_of_def as_command_for_def
        command_ok_def Let_def split: if_splits)
qed

lemma assemble_entries_Built:
  "assemble_entries h files ctx = Built ctx' \<Longrightarrow>
     same_setup ctx' ctx
   \<and> objects ctx' = objects ctx \<union> set (map (object_of ctx) (asm_sources h files))
   \<and> ran ctx' = ran ctx @ map (as_command_for ctx) (asm_sources h files)
   \<and> distinct (map (object_of ctx) (asm_sources h files))
   \<and> set (map (object_of ctx) (asm_sources h files)) \<inter> objects ctx = {}
   \<and> (all_ok h (ran ctx) \<longrightarrow> all_ok h (ran ctx'))"
proof (induction h files ctx rule: assemble_entries.induct)
  case (1 h ctx)
  then show ?case by (simp add: same_setup_def)
next
  case (2 h fl files ctx)
  show ?case
  proof (cases "\<exists>f path. fl = Some f \<and> entry_is_file f = Some True \<and> entry_path f = Some path")
    case False
    then have "assemble_entries h files ctx = Built ctx'" "asm_source h fl = None"
      using 2(4) by (auto simp: asm_source_def split: option.splits if_splits)
    moreover have "fl = None \<or> (\<exists>f. fl = Some f \<and> entry_is_file f \<noteq> Some True)"
      using 2(4) False by (auto split: option.splits if_splits)
    ultimately show ?thesis using 2(1,3) by auto
  next
    case True
    then obtain f path where f: "fl = Some f" "entry_is_file f = Some True" "entry_path f = Some path" by blast
    let ?c = "println (''cargo:rerun-if-changed='' @ path) ctx"
    from 2(4) f obtain c1 where c1: "assemble h path ?c = Built c1" "assemble_entries h files c1 = Built ctx'"
      by (auto simp: built_bind_Built)
    note IH = 2(2)[OF f c1(2)]
    from c1(1) show ?thesis
    proof (cases rule: assemble_Built)
      case skipped
      then have "same_setup c1 ctx" "objects c1 = objects ctx" "ran c1 = ran ctx" by (auto simp: same_setup_def println_def)
      moreover have "asm_source h fl = None" using f skipped by (simp add: asm_source_def)
      ultimately show ?thesis
        using IH same_setup_commands[of c1 ctx] by (auto simp: same_setup_def)
    next
      case (assembled groups leaf)
      have s0: "same_setup ?c ctx" "objects ?c = objects ctx" "ran ?c = ran ctx" by (auto simp: same_setup_def println_def)
      note e0 = same_setup_commands[OF s0(1)]
      have s1: "same_setup c1 ctx" "objects c1 = insert (object_of ctx (path, leaf)) (objects ctx)"
        "ran c1 = ran ctx @ [as_command_for ctx (path, leaf)]"
        using assembled(5) s0 e0 by (auto simp: same_setup_def)
      moreover have "asm_source h fl = Some (path, leaf)" using f assembled by (simp add: asm_source_def)
      ultimately show ?thesis
        using IH same_setup_commands[OF s1(1)] assembled(3,4) s0 e0 by (auto simp: same_setup_def all_ok_snoc)
    qed
  qed
qed

lemma package_binary_Built:
  assumes "package_binary h dir part ctx = Built ctx'"
  defines "ob \<equiv> output_dir ctx @ ''/'' @ part @ ''.o''"
  defines "ld \<equiv> ld_command ctx (dir @ ''/'' @ part) ob" and "oc \<equiv> objcopy_command ctx (symbol_prefix dir part) part ob"
  shows "ob \<notin> objects ctx" "ctx' = ctx\<lparr>ran := ran ctx @ [ld, oc], objects := insert ob (objects ctx)\<rparr>"
    "all_ok h (ran ctx) \<Longrightarrow> all_ok h (ran ctx')"
proof -
  obtain r1 r2 where r: "run_command h (ran ctx) ld = Some r1" "out_success r1"
    "run_command h (ran ctx @ [ld]) oc = Some r2" "out_success r2"
    "register_object ob (ctx\<lparr>ran := ran ctx @ [ld, oc]\<rparr>) = Built ctx'"
    using assms by (auto simp: package_binary_def Let_def built_bind_Built output_of_Built objcopy_command_def ld_command_def
        split: if_splits prod.splits)
  then show "ob \<notin> objects ctx" "ctx' = ctx\<lparr>ran := ran ctx @ [ld, oc], objects := insert ob (objects ctx)\<rparr>"
    by (auto simp: register_object_Built)
  then show "all_ok h (ran ctx')" if "all_ok h (ran ctx)"
    using that r all_ok_snoc[of h "ran ctx @ [ld]" oc] all_ok_snoc[of h "ran ctx" ld] by (simp add: command_ok_def)
qed

lemma link_archive_Built:
  assumes "link_archive h ctx = Built ctx'"
  shows "objects ctx' = objects ctx" "ran ctx' = ran ctx @ [ar_command h ctx (output_dir ctx @ ''/libhv.a'')]"
    "all_ok h (ran ctx) \<Longrightarrow> all_ok h (ran ctx')"
    "\<exists>lines. printed ctx' = lines @ [''cargo:rustc-link-search='' @ output_dir ctx, ''cargo:rustc-link-lib=static=hv'']"
  using assms by (auto simp: link_archive_def Let_def built_bind_Built output_of_Built println_def all_ok_snoc command_ok_def
      split: if_splits)

section \<open>When a build succeeds\<close>

definition tools_ok :: "Host \<Rightarrow> bool" where
  "tools_ok h \<longleftrightarrow> (\<forall>before cmd. command_ok h before cmd)"

definition entry_ok :: "Host \<Rightarrow> DirEntry option \<Rightarrow> bool" where
  "entry_ok h e \<longleftrightarrow> (case e of None \<Rightarrow> True | Some f \<Rightarrow> entry_is_file f = Some True \<longrightarrow>
     (case entry_path f of None \<Rightarrow> False
      | Some path \<Rightarrow> (case re_captures h asm_pattern path of None \<Rightarrow> True | Some groups \<Rightarrow> groups ''leaf'' \<noteq> None)))"

lemma output_of_ok:
  assumes "tools_ok h"
  obtains out where "output_of h cmd m ctx = Built (out, ctx\<lparr>ran := ran ctx @ [cmd]\<rparr>)" "out_success out"
  using assms[unfolded tools_ok_def command_ok_def, rule_format, of "ran ctx" cmd] that
  by (auto simp: output_of_def split: option.splits)

lemma bind_output_ok:
  assumes "tools_ok h" and "\<And>out. out_success out \<Longrightarrow> \<exists>r. k (out, ctx\<lparr>ran := ran ctx @ [cmd]\<rparr>) = Built r"
  shows "\<exists>r. built_bind (output_of h cmd m ctx) k = Built r"
proof -
  obtain out where "output_of h cmd m ctx = Built (out, ctx\<lparr>ran := ran ctx @ [cmd]\<rparr>)" "out_success out"
    by (rule output_of_ok[OF assms(1)])
  with assms(2) show ?thesis by simp
qed

lemma assemble_ok:
  assumes "tools_ok h" and "entry_ok h (Some f)" "entry_is_file f = Some True" "entry_path f = Some path"
    and "set_option (map_option (object_of ctx) (asm_source h (Some f))) \<inter> objects ctx = {}"
  obtains ctx' where "assemble h path ctx = Built ctx'"
proof (cases "re_captures h asm_pattern path")
  case None
  then show ?thesis using that[of ctx] by (simp add: assemble_def)
next
  case (Some groups)
  then obtain leaf where leaf: "groups ''leaf'' = Some leaf" using assms(2-4) by (auto simp: entry_ok_def)
  have fresh: "output_dir ctx @ ''/'' @ leaf @ ''.o'' \<notin> objects ctx"
    using assms(3-5) Some leaf by (simp add: asm_source_def object_of_def)
  define cmd where "cmd = as_command ctx (width_text (tgt_width (ctx_target ctx))) (output_dir ctx @ ''/'' @ leaf @ ''.o'') path"
  obtain out where "output_of h cmd (''Failed to execute command to assemble '' @ path) ctx = Built (out, ctx\<lparr>ran := ran ctx @ [cmd]\<rparr>)"
    "out_success out" by (rule output_of_ok[OF assms(1)])
  then show ?thesis using that Some leaf fresh
    by (simp add: assemble_def cmd_def register_object_def Let_def del: append_Cons append.simps)
qed

lemma assemble_entries_ok:
  assumes "tools_ok h"
  shows "list_all (entry_ok h) files \<Longrightarrow> distinct (map (object_of ctx) (asm_sources h files)) \<Longrightarrow>
     set (map (object_of ctx) (asm_sources h files)) \<inter> objects ctx = {} \<Longrightarrow> \<exists>ctx'. assemble_entries h files ctx = Built ctx'"
proof (induction files arbitrary: ctx)
  case (Cons fl files)
  show ?case
  proof (cases "\<exists>f. fl = Some f \<and> entry_is_file f = Some True")
    case False
    then have "asm_source h fl = None" by (auto simp: asm_source_def split: option.splits)
    with False Cons show ?thesis by (auto split: option.splits)
  next
    case True
    then obtain f where f: "fl = Some f" "entry_is_file f = Some True" by blast
    with Cons.prems(1) obtain path where path: "entry_path f = Some path" by (auto simp: entry_ok_def split: option.splits)
    define c where "c = println (''cargo:rerun-if-changed='' @ path) ctx"
    have c: "same_setup c ctx" "objects c = objects ctx" by (simp_all add: c_def println_def same_setup_def)
    have "set_option (map_option (object_of c) (asm_source h (Some f))) \<inter> objects c = {}"
      using Cons.prems(3) f c(2) same_setup_commands[OF c(1)] by (cases "asm_source h (Some f)") auto
    with assms Cons.prems(1) f path obtain c1 where c1: "assemble h path c = Built c1"
      using assemble_ok[of h f path c] by auto
    have "assemble_entries h [fl] ctx = Built c1" using f path c1 by (simp add: c_def)
    note step = assemble_entries_Built[OF this]
    note sc = same_setup_commands[OF conjunct1[OF step]]
    have "\<exists>ctx'. assemble_entries h files c1 = Built ctx'"
    proof (rule Cons.IH)
      show "list_all (entry_ok h) files" using Cons.prems(1) by simp
      show "distinct (map (object_of c1) (asm_sources h files))"
        using Cons.prems(2) sc by (auto split: option.splits)
      show "set (map (object_of c1) (asm_sources h files)) \<inter> objects c1 = {}"
        using Cons.prems(2,3) sc step by (auto split: option.splits)
    qed
    then show ?thesis using f path c1 by (simp add: c_def)
  qed
qed simp

lemma package_binary_ok:
  assumes "tools_ok h" and "output_dir ctx @ ''/'' @ part @ ''.o'' \<notin> objects ctx"
  shows "\<exists>ctx'. package_binary h dir part ctx = Built ctx'"
  unfolding package_binary_def Let_def using assms(2)
  by (intro bind_output_ok assms(1)) (auto intro!: bind_output_ok assms(1) simp: register_object_def)

lemma link_archive_ok:
  assumes "tools_ok h"
  shows "\<exists>ctx'. link_archive h ctx = Built ctx'"
  unfolding link_archive_def Let_def by (intro bind_output_ok assms) auto

section \<open>Which files are assembled\<close>

definition alnum :: "char \<Rightarrow> bool" where
  "alnum c \<longleftrightarrow> c \<in> set alnum_class"

definition word_char :: "char \<Rightarrow> bool" where
  "word_char c \<longleftrightarrow> c \<in> set word_class"

text \<open>The strings an expression matches, with what its named groups hold after the match.\<close>

inductive rx_match :: "rx \<Rightarrow> string \<Rightarrow> (string \<rightharpoonup> string) \<Rightarrow> bool" where
  chars: "c \<in> set cs \<Longrightarrow> rx_match (Chars cs) [c] Map.empty"
| then_: "rx_match a u g \<Longrightarrow> rx_match b v g' \<Longrightarrow> rx_match (Then a b) (u @ v) (g ++ g')"
| once: "rx_match a u g \<Longrightarrow> rx_match (Plus a) u g"
| again: "rx_match a u g \<Longrightarrow> rx_match (Plus a) v g' \<Longrightarrow> rx_match (Plus a) (u @ v) (g ++ g')"
| named: "rx_match a u g \<Longrightarrow> rx_match (Named n a) u (g(n \<mapsto> u))"

inductive_simps rx_match_simps:
  "rx_match (Chars cs) u g" "rx_match (Then a b) u g" "rx_match (Named n a) u g"

text \<open>What the \<open>regex\<close> crate promises of \<open>captures\<close>: a match of some part of the text, if there is any.\<close>

definition regex_ok :: "Host \<Rightarrow> bool" where
  "regex_ok h \<longleftrightarrow> (\<forall>path.
     case re_captures h asm_pattern path of
       None \<Rightarrow> \<nexists>pre u post g. path = pre @ u @ post \<and> rx_match asm_pattern u g
     | Some g \<Rightarrow> \<exists>pre u post. path = pre @ u @ post \<and> rx_match asm_pattern u g)"

text \<open>What the pattern says of a path: somewhere in it there is a directory name, a slash, a leafname of
  letters and digits, and \<open>.s\<close>.\<close>

definition conforms :: "string \<Rightarrow> string \<Rightarrow> bool" where
  "conforms path leaf \<longleftrightarrow> (\<exists>pre dir post. path = pre @ dir @ ''/'' @ leaf @ ''.s'' @ post
     \<and> dir \<noteq> [] \<and> list_all word_char dir \<and> leaf \<noteq> [] \<and> list_all alnum leaf)"

lemma match_run: "rx_match (Plus (Chars cs)) u g \<longleftrightarrow> u \<noteq> [] \<and> set u \<subseteq> set cs \<and> g = Map.empty"
proof
  show "u \<noteq> [] \<and> set u \<subseteq> set cs \<and> g = Map.empty" if "rx_match (Plus (Chars cs)) u g"
    using that by (induction "Plus (Chars cs)" u g rule: rx_match.induct) (auto simp: rx_match_simps)
  show "rx_match (Plus (Chars cs)) u g" if "u \<noteq> [] \<and> set u \<subseteq> set cs \<and> g = Map.empty"
    using that
  proof (induction u arbitrary: g rule: induct_list012)
    case (2 c)
    then show ?case using rx_match.once[OF rx_match.chars] by simp
  next
    case (3 c d u)
    then show ?case using rx_match.again[OF rx_match.chars[of c cs] "3.IH"(2)[of Map.empty]] by simp
  qed simp
qed

lemma match_dirs:
  "rx_match (Plus (Then (Plus (Chars cs)) (Chars ''/''))) u g \<Longrightarrow>
     g = Map.empty \<and> (\<exists>v d. u = v @ d @ ''/'' \<and> d \<noteq> [] \<and> set d \<subseteq> set cs)"
proof (induction "Plus (Then (Plus (Chars cs)) (Chars ''/''))" u g rule: rx_match.induct)
  case (once u g)
  then obtain d where "u = d @ ''/''" "d \<noteq> []" "set d \<subseteq> set cs" "g = Map.empty" by (auto simp: rx_match_simps match_run)
  then show ?case by (intro conjI exI[of _ "[]"] exI[of _ d]) simp_all
next
  case (again u g v g')
  then obtain w d where "v = w @ d @ ''/''" "d \<noteq> []" "set d \<subseteq> set cs" by blast
  moreover from again have "g = Map.empty" "g' = Map.empty" by (auto simp: rx_match_simps match_run)
  ultimately show ?case by (intro conjI exI[of _ "u @ w"] exI[of _ d]) simp_all
qed

lemma class_chars: "set u \<subseteq> set word_class \<longleftrightarrow> list_all word_char u" "set u \<subseteq> set alnum_class \<longleftrightarrow> list_all alnum u"
  by (auto simp: list_all_iff word_char_def alnum_def)

lemma match_asm_pattern:
  "(\<exists>pre u post. path = pre @ u @ post \<and> rx_match asm_pattern u g) \<longleftrightarrow> (\<exists>leaf. g = [''leaf'' \<mapsto> leaf] \<and> conforms path leaf)"
proof
  assume "\<exists>pre u post. path = pre @ u @ post \<and> rx_match asm_pattern u g"
  then obtain pre u post where u: "path = pre @ u @ post" "rx_match asm_pattern u g" by blast
  then obtain v g1 leaf where "u = v @ leaf @ ''.s''" "g = g1 ++ [''leaf'' \<mapsto> leaf]" "leaf \<noteq> []" "list_all alnum leaf"
    "rx_match (Plus (Then (Plus (Chars word_class)) (Chars ''/''))) v g1"
    unfolding asm_pattern_def rx_match_simps match_run class_chars by auto
  moreover from match_dirs[OF this(5), unfolded class_chars] obtain w d where "g1 = Map.empty" "v = w @ d @ ''/''" "d \<noteq> []" "list_all word_char d"
    by blast
  ultimately show "\<exists>leaf. g = [''leaf'' \<mapsto> leaf] \<and> conforms path leaf"
    unfolding conforms_def u(1) by (intro exI[of _ leaf] conjI exI[of _ "pre @ w"] exI[of _ d] exI[of _ post]) simp_all
next
  assume "\<exists>leaf. g = [''leaf'' \<mapsto> leaf] \<and> conforms path leaf"
  then obtain leaf pre dir post where c: "g = [''leaf'' \<mapsto> leaf]" "path = pre @ dir @ ''/'' @ leaf @ ''.s'' @ post"
    "dir \<noteq> []" "list_all word_char dir" "leaf \<noteq> []" "list_all alnum leaf" by (auto simp: conforms_def)
  have d: "rx_match (Plus (Then (Plus (Chars word_class)) (Chars ''/''))) (dir @ ''/'') (Map.empty ++ Map.empty)"
  proof (rule rx_match.once, rule rx_match.then_)
    show "rx_match (Plus (Chars word_class)) dir Map.empty" using c(3,4) by (simp add: match_run class_chars)
    show "rx_match (Chars ''/'') ''/'' Map.empty" by (simp add: rx_match_simps)
  qed
  have l: "rx_match (Named ''leaf'' (Plus (Chars alnum_class))) leaf [''leaf'' \<mapsto> leaf]"
    using c(5,6) by (intro rx_match.named) (simp add: match_run class_chars)
  have e: "rx_match (Then (Chars ''.'') (Chars ''s'')) (''.'' @ ''s'') (Map.empty ++ Map.empty)"
    by (intro rx_match.then_ rx_match.chars) simp_all
  have "rx_match asm_pattern ((dir @ ''/'') @ leaf @ ''.'' @ ''s'') g"
    using rx_match.then_[OF d rx_match.then_[OF l e]] c(1) unfolding asm_pattern_def by simp
  then show "\<exists>pre u post. path = pre @ u @ post \<and> rx_match asm_pattern u g"
    using c(2) by (intro exI[of _ pre] exI[of _ "(dir @ ''/'') @ leaf @ ''.'' @ ''s''"] exI[of _ post]) simp
qed

lemma regex_ok_conforms:
  "regex_ok h \<longleftrightarrow> (\<forall>path. case re_captures h asm_pattern path of
       None \<Rightarrow> \<forall>leaf. \<not> conforms path leaf
     | Some g \<Rightarrow> \<exists>leaf. g = [''leaf'' \<mapsto> leaf] \<and> conforms path leaf)"
proof -
  have "(\<nexists>pre u post g. path = pre @ u @ post \<and> rx_match asm_pattern u g) \<longleftrightarrow> (\<forall>leaf. \<not> conforms path leaf)" for path
    using match_asm_pattern[of path] by blast
  then show ?thesis unfolding regex_ok_def match_asm_pattern by (simp only:)
qed

lemma alnum_slash_dot: "\<not> alnum (CHR ''/'')" "\<not> alnum (CHR ''.'')"
  by (simp_all add: alnum_def alnum_class_def)

lemma first_dot:
  assumes "a @ CHR ''.'' # u = b @ CHR ''.'' # v" and "CHR ''.'' \<notin> set a" and "CHR ''.'' \<notin> set b"
  shows "a = b \<and> u = v"
  using assms by (auto simp: append_eq_append_conv2 Cons_eq_append_conv append_eq_Cons_conv)

lemma slash_before_dot:
  assumes "leaf @ CHR ''.'' # u = w @ CHR ''/'' # v" and "CHR ''/'' \<notin> set leaf"
  shows "CHR ''.'' \<in> set w"
  using assms by (auto simp: append_eq_append_conv2 Cons_eq_append_conv append_eq_Cons_conv)

text \<open>In a path whose directory part has no dot, the only candidate for the leafname is the file's name
  up to its first dot.\<close>

lemma conforms_plain:
  assumes "path = front @ ''/'' @ name @ ''.'' @ rest" and "CHR ''/'' \<notin> set (name @ rest)" and "CHR ''.'' \<notin> set (front @ name)"
  shows "conforms path leaf \<longleftrightarrow>
    leaf = name \<and> name \<noteq> [] \<and> list_all alnum name \<and> front \<noteq> [] \<and> word_char (last front) \<and> take 1 rest = ''s''"
proof
  assume "conforms path leaf"
  then obtain pre dir post where c: "path = pre @ dir @ ''/'' @ leaf @ ''.s'' @ post" "dir \<noteq> []" "list_all word_char dir"
    "leaf \<noteq> []" "list_all alnum leaf" by (auto simp: conforms_def)
  have leaf: "CHR ''/'' \<notin> set leaf" "CHR ''.'' \<notin> set leaf" using c(5) alnum_slash_dot by (auto simp: list_all_iff)
  have e: "(pre @ dir) @ CHR ''/'' # leaf @ CHR ''.'' # CHR ''s'' # post = front @ CHR ''/'' # name @ CHR ''.'' # rest"
    using c(1) assms(1) by simp
  then obtain us where "pre @ dir = front @ us \<and> us @ CHR ''/'' # leaf @ CHR ''.'' # CHR ''s'' # post = CHR ''/'' # name @ CHR ''.'' # rest
      \<or> (pre @ dir) @ us = front \<and> CHR ''/'' # leaf @ CHR ''.'' # CHR ''s'' # post = us @ CHR ''/'' # name @ CHR ''.'' # rest"
    unfolding append_eq_append_conv2[of "pre @ dir"] by blast
  then have "pre @ dir = front \<and> leaf @ CHR ''.'' # CHR ''s'' # post = name @ CHR ''.'' # rest"
  proof (elim disjE conjE)
    assume u: "pre @ dir = front @ us" "us @ CHR ''/'' # leaf @ CHR ''.'' # CHR ''s'' # post = CHR ''/'' # name @ CHR ''.'' # rest"
    show ?thesis
    proof (cases us)
      case (Cons x xs)
      with u(2) have "name @ CHR ''.'' # rest = xs @ CHR ''/'' # leaf @ CHR ''.'' # CHR ''s'' # post" by simp
      then have "CHR ''/'' \<in> set (name @ CHR ''.'' # rest)" by simp
      then show ?thesis using assms(2) by simp
    qed (use u in simp)
  next
    assume u: "(pre @ dir) @ us = front" "CHR ''/'' # leaf @ CHR ''.'' # CHR ''s'' # post = us @ CHR ''/'' # name @ CHR ''.'' # rest"
    show ?thesis
    proof (cases us)
      case (Cons x xs)
      with u(2) have "leaf @ CHR ''.'' # CHR ''s'' # post = xs @ CHR ''/'' # name @ CHR ''.'' # rest" by simp
      from slash_before_dot[OF this leaf(1)] u(1) Cons assms(3) show ?thesis by auto
    qed (use u in simp)
  qed
  moreover from this assms(3) leaf(2) have "leaf = name \<and> CHR ''s'' # post = rest" by (intro first_dot) auto
  ultimately show "leaf = name \<and> name \<noteq> [] \<and> list_all alnum name \<and> front \<noteq> [] \<and> word_char (last front) \<and> take 1 rest = ''s''"
    using c(2-5) by (auto simp: list_all_iff)
next
  assume a: "leaf = name \<and> name \<noteq> [] \<and> list_all alnum name \<and> front \<noteq> [] \<and> word_char (last front) \<and> take 1 rest = ''s''"
  then obtain post where "rest = CHR ''s'' # post" by (cases rest) auto
  with a show "conforms path leaf" unfolding conforms_def assms(1)
    by (intro exI[of _ "butlast front"] exI[of _ "[last front]"] exI[of _ post]) simp
qed

section \<open>A search that satisfies the crate's contract\<close>

fun search_leaf :: "string \<Rightarrow> string option" where
  "search_leaf (d # x # rest) =
     (if word_char d \<and> x = CHR ''/'' \<and> takeWhile alnum rest \<noteq> [] \<and> take 2 (dropWhile alnum rest) = ''.s''
      then Some (takeWhile alnum rest) else search_leaf (x # rest))"
| "search_leaf _ = None"

lemma conforms_alt:
  "conforms path leaf \<longleftrightarrow> (\<exists>pre d post. path = pre @ d # CHR ''/'' # leaf @ CHR ''.'' # CHR ''s'' # post
     \<and> word_char d \<and> leaf \<noteq> [] \<and> list_all alnum leaf)"
proof
  assume "conforms path leaf"
  then obtain pre dir post where c: "path = pre @ dir @ ''/'' @ leaf @ ''.s'' @ post" "dir \<noteq> []" "list_all word_char dir"
    "leaf \<noteq> []" "list_all alnum leaf" by (auto simp: conforms_def)
  then show "\<exists>pre d post. path = pre @ d # CHR ''/'' # leaf @ CHR ''.'' # CHR ''s'' # post
     \<and> word_char d \<and> leaf \<noteq> [] \<and> list_all alnum leaf"
    by (intro exI[of _ "pre @ butlast dir"] exI[of _ "last dir"] exI[of _ post]) (simp add: list_all_iff)
next
  assume "\<exists>pre d post. path = pre @ d # CHR ''/'' # leaf @ CHR ''.'' # CHR ''s'' # post
     \<and> word_char d \<and> leaf \<noteq> [] \<and> list_all alnum leaf"
  then obtain pre d post where "path = pre @ d # CHR ''/'' # leaf @ CHR ''.'' # CHR ''s'' # post"
    "word_char d" "leaf \<noteq> []" "list_all alnum leaf" by blast
  then show "conforms path leaf" unfolding conforms_def
    by (intro exI[of _ pre] exI[of _ "[d]"] exI[of _ post]) simp
qed

lemma conforms_Cons:
  "conforms (c # path) leaf \<longleftrightarrow> conforms path leaf
     \<or> word_char c \<and> leaf \<noteq> [] \<and> list_all alnum leaf \<and> (\<exists>post. path = CHR ''/'' # leaf @ CHR ''.'' # CHR ''s'' # post)"
  unfolding conforms_alt by (auto simp: Cons_eq_append_conv)

lemma alnum_run:
  assumes "list_all alnum leaf"
  shows "takeWhile alnum (leaf @ CHR ''.'' # post) = leaf" "dropWhile alnum (leaf @ CHR ''.'' # post) = CHR ''.'' # post"
  using assms alnum_slash_dot by (auto simp: list_all_iff takeWhile_append dropWhile_append)

lemma take_two: "take 2 xs = [a, b] \<longleftrightarrow> (\<exists>post. xs = a # b # post)"
  by (cases xs; cases "tl xs") auto

lemma search_leaf_Some: "search_leaf path = Some leaf \<Longrightarrow> conforms path leaf"
proof (induction path rule: search_leaf.induct)
  case (1 d x rest)
  show ?case
  proof (cases "word_char d \<and> x = CHR ''/'' \<and> takeWhile alnum rest \<noteq> [] \<and> take 2 (dropWhile alnum rest) = ''.s''")
    case True
    then obtain post where "dropWhile alnum rest = CHR ''.'' # CHR ''s'' # post" by (auto simp: take_two)
    moreover have leaf: "takeWhile alnum rest = leaf" using 1(2) True by simp
    ultimately have "x # rest = CHR ''/'' # leaf @ CHR ''.'' # CHR ''s'' # post"
      using takeWhile_dropWhile_id[of alnum rest] True by simp
    moreover have "list_all alnum leaf" unfolding leaf[symmetric] by (auto simp: list_all_iff dest: set_takeWhileD)
    ultimately show ?thesis using True leaf unfolding conforms_Cons[of d] by blast
  next
    case False
    then show ?thesis using 1 by (simp add: conforms_Cons[of d] if_not_P)
  qed
qed simp_all

lemma search_leaf_None: "search_leaf path = None \<Longrightarrow> \<not> conforms path leaf"
proof (induction path rule: search_leaf.induct)
  case (1 d x rest)
  then have "\<not> conforms (x # rest) leaf" by (auto split: if_splits)
  moreover have "\<not> (word_char d \<and> leaf \<noteq> [] \<and> list_all alnum leaf \<and> (\<exists>post. x # rest = CHR ''/'' # leaf @ CHR ''.'' # CHR ''s'' # post))"
    using 1(2) by (auto simp: alnum_run)
  ultimately show ?case by (simp add: conforms_Cons[of d])
qed (simp_all add: conforms_alt)

lemma search_leaf_regex_ok:
  assumes "\<And>path. re_captures h asm_pattern path = map_option (\<lambda>leaf. [''leaf'' \<mapsto> leaf]) (search_leaf path)"
  shows "regex_ok h"
  using assms search_leaf_Some search_leaf_None by (auto simp: regex_ok_conforms split: option.splits)

text \<open>Iterating over a hash set gives each of its elements once, in some order.\<close>

definition hash_set_ok :: "Host \<Rightarrow> bool" where
  "hash_set_ok h \<longleftrightarrow> (\<forall>S. finite S \<longrightarrow> set (object_iter h S) = S \<and> distinct (object_iter h S))"

lemma hash_set_okD: "hash_set_ok h \<Longrightarrow> finite S \<Longrightarrow> set (object_iter h S) = S" "hash_set_ok h \<Longrightarrow> finite S \<Longrightarrow> distinct (object_iter h S)"
  by (simp_all add: hash_set_ok_def)

text \<open>
  The linker is not part of the sources; \<open>ld_symbol path what\<close> stands for the symbol it defines for the start, end or size of a
  binary input file. Its documentation says: \<open>_binary_\<close>, the file's name as given on the command line with every
  character other than an ASCII letter or digit replaced by an underscore, and the suffix.
\<close>

definition ld_ok :: "(string \<Rightarrow> string \<Rightarrow> string) \<Rightarrow> bool" where
  "ld_ok ld_symbol \<longleftrightarrow> (\<forall>path what. ld_symbol path what =
     ''_binary_'' @ map (\<lambda>c. if alnum c then c else CHR ''_'') path @ ''_'' @ what)"

text \<open>The options of objcopy that give these symbols the name of the component.\<close>

definition redefine :: "(string \<Rightarrow> string \<Rightarrow> string) \<Rightarrow> string \<Rightarrow> string \<Rightarrow> string \<Rightarrow> string list" where
  "redefine ld_symbol path part what =
     [''--redefine-sym'', ld_symbol path what @ ''='' @ ''_binary_'' @ part @ ''_'' @ what]"

definition plain_part :: "string \<Rightarrow> bool" where
  "plain_part part \<longleftrightarrow> list_all (\<lambda>c. alnum c \<or> c = CHR ''_'') part"

definition plain_dir :: "string \<Rightarrow> bool" where
  "plain_dir dir \<longleftrightarrow> list_all (\<lambda>c. alnum c \<or> c \<in> {CHR ''_'', CHR ''.'', CHR ''/''}) dir"

text \<open>The script's guess of the linker's prefix is right for plain names only.\<close>

lemma symbol_prefix_ld:
  assumes "ld_ok ld_symbol"
  shows "symbol_prefix dir part @ rest = ld_symbol (dir @ ''/'' @ part) [] @ rest \<longleftrightarrow> plain_dir dir \<and> plain_part part"
proof -
  let ?m = "\<lambda>c. if alnum c then c else CHR ''_''"
  let ?g = "\<lambda>c. if c = CHR ''/'' then CHR ''_'' else if c = CHR ''.'' then CHR ''_'' else c"
  have g: "replace_char (CHR ''.'') (CHR ''_'') (replace_char (CHR ''/'') (CHR ''_'') dir) = map ?g dir"
    by (auto simp: replace_char_def)
  have "map ?g dir = map ?m dir \<longleftrightarrow> plain_dir dir"
    using alnum_slash_dot by (auto simp: plain_dir_def list_all_iff map_eq_conv)
  moreover have "part = map ?m part \<longleftrightarrow> plain_part part"
    using map_eq_conv[of id part ?m] by (auto simp: plain_part_def list_all_iff)
  ultimately show ?thesis
    using assms alnum_slash_dot by (simp add: symbol_prefix_def g ld_ok_def append_eq_append_conv)
qed

definition supported :: "string list" where
  "supported = [''riscv32imac'', ''riscv64imac'', ''riscv64gc'']"

section \<open>Properties\<close>

text \<open>C26: a build that succeeds has packaged the supervisor and assembled every source file of the platform it
  recognises, each exactly once and with the target's architecture, ABI and tools; every command it
  ran succeeded; no two of the object files have the same name; and the archive it links contains
  exactly these object files. In particular two sources with the same leafname, or a source named
  like the supervisor, fail the build.\<close>

theorem build_correct:
  assumes "build_main h = Built ctx" and "hash_set_ok h"
  shows "\<exists>triple target dir. env_var h ''TARGET'' = Some triple \<and> Target_new triple = Built target \<and> env_var h ''OUT_DIR'' = Some dir
    \<and> metadata_error h (boot_files target @ ''/supervisor'') = None
    \<and> (let start = new_context dir target;
           sources = asm_sources h (case read_dir h (asm_directory target) of None \<Rightarrow> [] | Some d \<Rightarrow> d);
           supervisor = dir @ ''/supervisor.o'';
           objs = supervisor # map (object_of start) sources
       in distinct objs \<and> objects ctx = set objs \<and> all_ok h (ran ctx)
        \<and> (\<exists>listed. set listed = set objs \<and> distinct listed
             \<and> ran ctx = [ld_command start (boot_files target @ ''/supervisor'') supervisor,
                 objcopy_command start (symbol_prefix (boot_files target) ''supervisor'') ''supervisor'' supervisor]
               @ map (as_command_for start) sources
               @ [(ar_exec start, ''crus'' # (dir @ ''/libhv.a'') # listed)])
        \<and> ''cargo:rustc-link-lib=static=hv'' \<in> set (printed ctx))"
proof -
  obtain triple target dir where e: "env_var h ''TARGET'' = Some triple" "Target_new triple = Built target"
      "env_var h ''OUT_DIR'' = Some dir" "metadata_error h (boot_files target @ ''/supervisor'') = None"
    and m: "built_bind (package_binary h (boot_files target) ''supervisor'' (new_context dir target)) (\<lambda>ctx1.
        built_bind (assemble_directory h (asm_directory target)
          (println (link_script_line target) ctx1)) (link_archive h)) = Built ctx"
    using assms(1) by (auto simp: build_main_def built_bind_Built Let_def split: option.splits)
  define c0 where "c0 = new_context dir target"
  define fs where "fs = (case read_dir h (asm_directory target) of None \<Rightarrow> [] | Some d \<Rightarrow> d)"
  obtain c1 c2 where c1: "package_binary h (boot_files target) ''supervisor'' c0 = Built c1"
    and c2: "assemble_entries h fs (println (link_script_line target) c1) = Built c2"
    and c3: "link_archive h c2 = Built ctx"
  proof -
    from m obtain a b where "package_binary h (boot_files target) ''supervisor'' c0 = Built a"
      "assemble_directory h (asm_directory target) (println (link_script_line target) a) = Built b" "link_archive h b = Built ctx"
      by (auto simp: built_bind_Built c0_def)
    then show thesis using that[of a b]
      by (cases "read_dir h (asm_directory target)") (simp_all add: assemble_directory_def fs_def)
  qed
  note p = package_binary_Built[OF c1] and l = link_archive_Built[OF c3]
  define d where "d = println (link_script_line target) c1"
  have z: "output_dir c0 = dir" "objects c0 = {}" "ran c0 = []" by (simp_all add: c0_def new_context_def)
  have d: "same_setup d c0" "objects d = {dir @ ''/supervisor.o''}" "ran d = ran c1" "all_ok h (ran d)"
    using p(1,3) p(2) z by (simp_all add: d_def same_setup_def println_def)
  note sc = same_setup_commands[OF d(1)]
  note a = assemble_entries_Built[OF c2[folded d_def], unfolded sc d(2)]
  have c2s: "output_dir c2 = dir" "ar_exec c2 = ar_exec c0"
    using a d(1) z(1) by (simp_all add: same_setup_def)
  have objs: "objects ctx = set ((dir @ ''/supervisor.o'') # map (object_of c0) (asm_sources h fs))"
    using a l(1) by simp
  have "distinct ((dir @ ''/supervisor.o'') # map (object_of c0) (asm_sources h fs))"
    using a by auto
  moreover have "all_ok h (ran ctx)" using a d(4) l(3) by blast
  moreover have "ran ctx = [ld_command c0 (boot_files target @ ''/supervisor'') (dir @ ''/supervisor.o''),
       objcopy_command c0 (symbol_prefix (boot_files target) ''supervisor'') ''supervisor'' (dir @ ''/supervisor.o'')]
       @ map (as_command_for c0) (asm_sources h fs) @ [(ar_exec c0, ''crus'' # (dir @ ''/libhv.a'') # object_iter h (objects ctx))]"
    using l(1,2) a d(3) p(2) z c2s by (simp add: ar_command_def)
  moreover have "''cargo:rustc-link-lib=static=hv'' \<in> set (printed ctx)" using l(4) by auto
  moreover have fin: "finite (objects ctx)" unfolding objs by (rule finite_set)
  ultimately show ?thesis
    unfolding Let_def using e hash_set_okD[OF assms(2) fin] objs
    by (intro exI[of _ triple] exI[of _ target] exI[of _ dir] conjI exI[of _ "object_iter h (objects ctx)"])
      (simp_all only: c0_def fs_def)
qed

text \<open>A build fails only for a reason: if the triple is supported, both environment variables are set, the
  supervisor is there, every tool succeeds, every regular file of the assembly directory has a readable
  name, and no two object files get the same name, then the build succeeds.\<close>

theorem build_succeeds:
  assumes "env_var h ''TARGET'' = Some triple" and "Target_new triple = Built target" and "env_var h ''OUT_DIR'' = Some dir"
    and "metadata_error h (boot_files target @ ''/supervisor'') = None" and "tools_ok h"
    and "read_dir h (asm_directory target) = Some files" and "list_all (entry_ok h) files"
    and "distinct ((dir @ ''/supervisor.o'') # map (object_of (new_context dir target)) (asm_sources h files))"
  shows "\<exists>ctx. build_main h = Built ctx"
proof -
  define c0 where "c0 = new_context dir target"
  have z: "output_dir c0 = dir" "objects c0 = {}" by (simp_all add: c0_def new_context_def)
  then obtain c1 where c1: "package_binary h (boot_files target) ''supervisor'' c0 = Built c1"
    using package_binary_ok[OF assms(5), of c0 "''supervisor''"] by auto
  define d where "d = println (link_script_line target) c1"
  have d: "same_setup d c0" "objects d = {dir @ ''/supervisor.o''}"
    using package_binary_Built(2)[OF c1] z by (simp_all add: d_def println_def same_setup_def)
  obtain c2 where c2: "assemble_entries h files d = Built c2"
    using assemble_entries_ok[OF assms(5) assms(7), of d] assms(8) d(2) unfolding same_setup_commands[OF d(1)] c0_def by auto
  obtain c3 where "link_archive h c2 = Built c3" using link_archive_ok[OF assms(5)] by blast
  then have "build_main h = Built c3"
    using assms(1-4,6) c1 c2 by (simp add: build_main_def c0_def d_def assemble_directory_def Let_def)
  then show ?thesis ..
qed

text \<open>C27: what assembling one path does, for a path whose directory part has no dot: it depends on the file's
  name up to its first dot. If that is a nonempty word of ASCII letters and digits, the last character of
  the directory is a letter, digit or underscore, and the first character after the dot is \<open>s\<close>, the file is
  assembled into \<open>name.o\<close>, and the build fails if the assembler does or if that object exists already.
  Otherwise the file is skipped without a word. So \<open>irq_low.s\<close> is not assembled, and the backup
  \<open>start.s~\<close> is.\<close>

theorem assemble_selects:
  assumes "regex_ok h" and "path = front @ ''/'' @ name @ ''.'' @ rest"
    and "CHR ''/'' \<notin> set (name @ rest)" and "CHR ''.'' \<notin> set (front @ name)"
  shows "let selected = (name \<noteq> [] \<and> list_all alnum name \<and> front \<noteq> [] \<and> word_char (last front) \<and> take 1 rest = ''s'');
             cmd = as_command_for ctx (path, name);
             obj = output_dir ctx @ ''/'' @ name @ ''.o''
         in if \<not> selected then assemble h path ctx = Built ctx
            else if command_ok h (ran ctx) cmd \<and> obj \<notin> objects ctx
            then assemble h path ctx = Built (ctx\<lparr>ran := ran ctx @ [cmd], objects := insert obj (objects ctx)\<rparr>)
            else \<exists>m. assemble h path ctx = Failed m"
proof -
  define selected where "selected \<longleftrightarrow> name \<noteq> [] \<and> list_all alnum name \<and> front \<noteq> [] \<and> word_char (last front) \<and> take 1 rest = ''s''"
  define cmd where "cmd = as_command_for ctx (path, name)"
  define obj where "obj = output_dir ctx @ ''/'' @ name @ ''.o''"
  have leaf: "re_captures h asm_pattern path = None \<longleftrightarrow> \<not> selected"
    "re_captures h asm_pattern path = Some groups \<Longrightarrow> groups ''leaf'' = Some name" for groups
    using assms(1)[unfolded regex_ok_conforms, rule_format, of path] conforms_plain[OF assms(2-4)]
    by (cases "re_captures h asm_pattern path"; auto simp: selected_def)+
  have sel: "assemble h path ctx = built_bind (output_of h cmd (''Failed to execute command to assemble '' @ path) ctx)
      (\<lambda>(result, ctx1). if out_success result \<noteq> True then command_panic (''Assembling '' @ path @ '' failed:'') result
        else register_object obj ctx1)" if selected
  proof -
    from that leaf(1) obtain groups where g: "re_captures h asm_pattern path = Some groups" by auto
    show ?thesis
      by (simp only: assemble_def g leaf(2)[OF g] cmd_def obj_def as_command_for_def object_of_def Let_def option.case fst_conv snd_conv)
  qed
  have "assemble h path ctx = Built ctx" if "\<not> selected"
    using that leaf(1) by (simp add: assemble_def)
  moreover have "assemble h path ctx = Built (ctx\<lparr>ran := ran ctx @ [cmd], objects := insert obj (objects ctx)\<rparr>)"
    if selected "command_ok h (ran ctx) cmd" "obj \<notin> objects ctx"
    using that(2,3) unfolding sel[OF that(1)]
    by (auto simp: output_of_def command_ok_def register_object_def split: option.splits)
  moreover have "\<exists>m. assemble h path ctx = Failed m" if selected "\<not> (command_ok h (ran ctx) cmd \<and> obj \<notin> objects ctx)"
    using that(2) unfolding sel[OF that(1)]
    by (auto simp: output_of_def command_ok_def register_object_def command_panic_def split: option.splits)
  ultimately show ?thesis unfolding Let_def selected_def[symmetric] cmd_def[symmetric] obj_def[symmetric] by simp
qed

text \<open>The targets are described consistently: a triple is accepted exactly if its first part is one of the three
  supported architectures; then the pointer width, the processor name and the prefix of the tools are those of
  that name, the ABI is the one for the width, and the directory of the supervisor has a plain name.\<close>

lemma Target_new_consistent:
  "case Target_new triple of
     Built t \<Rightarrow> tgt_target t \<in> set supported \<and> takeWhile (\<lambda>c. c \<noteq> CHR ''-'') triple = tgt_target t
       \<and> tgt_cpu_arch t = ''rv'' @ drop 5 (tgt_target t) \<and> tgt_gnu_prefix t = take 7 (tgt_target t)
       \<and> width_text (tgt_width t) = take 2 (drop 5 (tgt_target t))
       \<and> tgt_abi t = (if tgt_width t = 32 then ''ilp32'' else ''lp64'') \<and> plain_dir (boot_files t)
   | Failed m \<Rightarrow> takeWhile (\<lambda>c. c \<noteq> CHR ''-'') triple \<notin> set supported"
proof -
  define arch where "arch = takeWhile (\<lambda>c. c \<noteq> CHR ''-'') triple"
  consider "arch = ''riscv32imac''" | "arch = ''riscv64imac''" | "arch = ''riscv64gc''" | "arch \<notin> set supported"
    by (auto simp: supported_def)
  then show ?thesis unfolding arch_def[symmetric]
    by cases (simp_all add: Target_new_def arch_def[symmetric] supported_def width_text_def boot_files_def plain_dir_def
        alnum_def alnum_class_def char_of_def bit_0)
qed

text \<open>C28: which symbols the packaged binary has. Packaging runs the linker and then objcopy on the object file, and the
  symbols that objcopy is told to rename are the three that the linker has defined exactly if the component's name
  consists of letters, digits and underscores and its directory of these, dots and slashes. The directory
  and name of the boot supervisor do so for every target that is supported, so its symbols are
  \<open>_binary_supervisor_start\<close> and so on; a directory with, say, a hyphen would leave them as they were.\<close>

theorem package_binary_symbols:
  assumes "ld_ok ld_symbol" and "package_binary h dir part ctx = Built ctx'"
  shows "let obj = output_dir ctx @ ''/'' @ part @ ''.o''; file = dir @ ''/'' @ part
    in (ran ctx' = ran ctx @ [(ld_exec ctx, [''-r'', ''--format=binary'', file, ''-o'', obj]),
          (objcopy_exec ctx, redefine ld_symbol file part ''start'' @ redefine ld_symbol file part ''end''
             @ redefine ld_symbol file part ''size'' @ [obj])]
        \<longleftrightarrow> plain_dir dir \<and> plain_part part)
     \<and> (Target_new triple = Built t \<longrightarrow> plain_dir (boot_files t)) \<and> plain_part ''supervisor''"
proof -
  have split: "ld_symbol path what = ld_symbol path [] @ what" for path what using assms(1) by (simp add: ld_ok_def)
  have "symbol_prefix dir part @ rest = ld_symbol (dir @ ''/'' @ part) [] @ rest \<longleftrightarrow> plain_dir dir \<and> plain_part part" for rest
    by (rule symbol_prefix_ld[OF assms(1)])
  then have "ran ctx' = ran ctx @ [(ld_exec ctx, [''-r'', ''--format=binary'', dir @ ''/'' @ part, ''-o'', output_dir ctx @ ''/'' @ part @ ''.o'']),
      (objcopy_exec ctx, redefine ld_symbol (dir @ ''/'' @ part) part ''start'' @ redefine ld_symbol (dir @ ''/'' @ part) part ''end''
        @ redefine ld_symbol (dir @ ''/'' @ part) part ''size'' @ [output_dir ctx @ ''/'' @ part @ ''.o''])]
      \<longleftrightarrow> plain_dir dir \<and> plain_part part"
    unfolding package_binary_Built(2)[OF assms(2)] ld_command_def objcopy_command_def Let_def redefine_def split[of _ "_ # _"]
    by simp
  moreover have "plain_dir (boot_files t)" if "Target_new triple = Built t"
    using Target_new_consistent[of triple] that by simp
  moreover have "plain_part ''supervisor''" by (simp add: plain_part_def alnum_def alnum_class_def)
  ultimately show ?thesis by (simp add: Let_def)
qed

section \<open>An example\<close>

definition sample_entry :: "string \<Rightarrow> DirEntry option" where
  "sample_entry path = Some \<lparr>entry_path = Some path, entry_is_file = Some True\<rparr>"

definition sample_host :: Host where
  "sample_host =
     \<lparr>env_var = [''TARGET'' \<mapsto> ''riscv32imac-unknown-none-elf'', ''OUT_DIR'' \<mapsto> ''out''],
      metadata_error = Map.empty,
      read_dir = [''src/platform-riscv/asm'' \<mapsto>
        [sample_entry ''src/platform-riscv/asm/start.s'', sample_entry ''src/platform-riscv/asm/irq_low.s'', None,
         sample_entry ''src/platform-riscv/asm/const.h'', sample_entry ''src/platform-riscv/asm/irq.s'']],
      run_command = (\<lambda>before cmd. Some \<lparr>out_success = True, out_stdout = Some [], out_stderr = Some []\<rparr>),
      re_captures = (\<lambda>pattern path. map_option (\<lambda>leaf. [''leaf'' \<mapsto> leaf]) (search_leaf path)),
      object_iter = sorted_list_of_set\<rparr>"

lemma sample_host_ok: "hash_set_ok sample_host" "regex_ok sample_host"
  by (simp_all add: hash_set_ok_def sample_host_def search_leaf_regex_ok)

lemma sample_sources:
  "asm_sources sample_host (the (read_dir sample_host ''src/platform-riscv/asm'')) =
     [(''src/platform-riscv/asm/start.s'', ''start''), (''src/platform-riscv/asm/irq.s'', ''irq'')]"
  by code_simp

definition sample_target :: Target where
  "sample_target = \<lparr>tgt_target = ''riscv32imac'', tgt_cpu_arch = ''rv32imac'', tgt_gnu_prefix = ''riscv32'',
     tgt_platform = ''riscv'', tgt_width = 32, tgt_abi = ''ilp32''\<rparr>"

lemma sample_setup:
  "env_var sample_host ''TARGET'' = Some ''riscv32imac-unknown-none-elf''" "env_var sample_host ''OUT_DIR'' = Some ''out''"
  "Target_new ''riscv32imac-unknown-none-elf'' = Built sample_target" "asm_directory sample_target = ''src/platform-riscv/asm''"
  "metadata_error sample_host p = None" "tools_ok sample_host"
  by (simp_all add: sample_host_def Target_new_def sample_target_def asm_directory_def tools_ok_def command_ok_def)

lemma sample_directory:
  "\<exists>files. read_dir sample_host ''src/platform-riscv/asm'' = Some files \<and> list_all (entry_ok sample_host) files"
proof -
  have "list_all (entry_ok sample_host) (the (read_dir sample_host ''src/platform-riscv/asm''))" by code_simp
  moreover have "read_dir sample_host ''src/platform-riscv/asm'' \<noteq> None" by (simp add: sample_host_def)
  ultimately show ?thesis by auto
qed

lemma sample_objects:
  "(''out'' @ ''/supervisor.o'') # map (object_of (new_context ''out'' sample_target))
     (asm_sources sample_host (the (read_dir sample_host ''src/platform-riscv/asm'')))
   = [''out/supervisor.o'', ''out/start.o'', ''out/irq.o'']"
  unfolding sample_sources by (simp add: object_of_def new_context_def)

theorem build_succeeds_witness: "\<exists>ctx. build_main sample_host = Built ctx"
proof -
  obtain files where f: "read_dir sample_host ''src/platform-riscv/asm'' = Some files" "list_all (entry_ok sample_host) files"
    using sample_directory by blast
  show ?thesis
  proof (rule build_succeeds[OF sample_setup(1,3,2,5,6)])
    show "read_dir sample_host (asm_directory sample_target) = Some files" unfolding sample_setup(4) by (rule f(1))
    show "distinct ((''out'' @ ''/supervisor.o'') # map (object_of (new_context ''out'' sample_target)) (asm_sources sample_host files))"
      using sample_objects unfolding f(1) option.sel by simp
  qed (rule f(2))
qed

lemma sample_built: "case build_main sample_host of Built ctx \<Rightarrow> True | Failed m \<Rightarrow> False"
  by code_simp

theorem build_correct_witness:
  "\<exists>ctx. build_main sample_host = Built ctx \<and> objects ctx = {''out/supervisor.o'', ''out/start.o'', ''out/irq.o''}
     \<and> length (ran ctx) = 5 \<and> all_ok sample_host (ran ctx)"
proof -
  obtain ctx where ctx: "build_main sample_host = Built ctx" using sample_built by (cases "build_main sample_host") auto
  obtain files where f: "read_dir sample_host ''src/platform-riscv/asm'' = Some files" using sample_directory by blast
  note src = sample_sources[unfolded f option.sel]
  from build_correct[OF ctx sample_host_ok(1)]
  have "let start = new_context ''out'' sample_target;
           sources = asm_sources sample_host files;
           supervisor = ''out'' @ ''/supervisor.o'';
           objs = supervisor # map (object_of start) sources
       in objects ctx = set objs \<and> all_ok sample_host (ran ctx) \<and> length (ran ctx) = length sources + 3"
    unfolding sample_setup(1,2) by (auto simp: sample_setup f Let_def)
  then have "objects ctx = set [''out/supervisor.o'', ''out/start.o'', ''out/irq.o'']" "all_ok sample_host (ran ctx)" "length (ran ctx) = 5"
    unfolding Let_def src by (simp_all add: object_of_def new_context_def)
  with ctx show ?thesis by auto
qed

text \<open>\<open>irq_low.s\<close> is skipped, and \<open>start.s~\<close> would replace the object of \<open>start.s\<close>, so it fails the build.\<close>

theorem assemble_selects_witness:
  "assemble sample_host ''src/platform-riscv/asm/irq_low.s'' (new_context ''out'' sample_target) = Built (new_context ''out'' sample_target)
   \<and> (\<exists>m. assemble sample_host ''src/platform-riscv/asm/start.s~''
         ((new_context ''out'' sample_target)\<lparr>objects := {''out/start.o''}\<rparr>) = Failed m)"
proof -
  have "assemble sample_host ''src/platform-riscv/asm/irq_low.s'' (new_context ''out'' sample_target) = Built (new_context ''out'' sample_target)"
    using assemble_selects[OF sample_host_ok(2), of "''src/platform-riscv/asm/irq_low.s''" "''src/platform-riscv/asm''" "''irq_low''" "''s''"
        "new_context ''out'' sample_target"] by (simp add: alnum_def alnum_class_def)
  moreover have "\<exists>m. assemble sample_host ''src/platform-riscv/asm/start.s~''
         ((new_context ''out'' sample_target)\<lparr>objects := {''out/start.o''}\<rparr>) = Failed m"
    using assemble_selects[OF sample_host_ok(2), of "''src/platform-riscv/asm/start.s~''" "''src/platform-riscv/asm''" "''start''" "''s~''"
        "(new_context ''out'' sample_target)\<lparr>objects := {''out/start.o''}\<rparr>"] by (simp add: new_context_def Let_def alnum_def word_char_def alnum_class_def word_class_def)
  ultimately show ?thesis ..
qed

text \<open>The sample host packages its supervisor, and its linker names the symbols as documented.\<close>

theorem package_binary_symbols_witness:
  "\<exists>ld_symbol ctx'. ld_symbol ''boot/binaries/riscv32imac/supervisor'' ''start'' = ''_binary_boot_binaries_riscv32imac_supervisor_start''
     \<and> package_binary sample_host (boot_files sample_target) ''supervisor'' (new_context ''out'' sample_target) = Built ctx'
     \<and> ''--redefine-sym'' # [ld_symbol ''boot/binaries/riscv32imac/supervisor'' ''start'' @ ''=_binary_supervisor_start'']
       = take 2 (snd (ran ctx' ! 1))"
proof -
  define f where "f = (\<lambda>path what. ''_binary_'' @ map (\<lambda>c. if alnum c then c else CHR ''_'') path @ ''_'' @ what)"
  have f: "ld_ok f" by (simp add: ld_ok_def f_def)
  have dir: "boot_files sample_target = ''boot/binaries/riscv32imac''" by (simp add: boot_files_def sample_target_def)
  obtain ctx' where p: "package_binary sample_host (boot_files sample_target) ''supervisor'' (new_context ''out'' sample_target) = Built ctx'"
    using package_binary_ok[OF sample_setup(6), of "new_context ''out'' sample_target" "''supervisor''"] by (auto simp: new_context_def)
  have "ran ctx' ! 1 = (objcopy_exec (new_context ''out'' sample_target),
      redefine f ''boot/binaries/riscv32imac/supervisor'' ''supervisor'' ''start''
      @ redefine f ''boot/binaries/riscv32imac/supervisor'' ''supervisor'' ''end''
      @ redefine f ''boot/binaries/riscv32imac/supervisor'' ''supervisor'' ''size'' @ [''out/supervisor.o''])"
    using package_binary_symbols[OF f p, of "''riscv32imac-unknown-none-elf''" sample_target] sample_setup(3)
    by (simp add: Let_def dir) (auto simp: new_context_def)
  then have "take 2 (snd (ran ctx' ! 1)) =
      [''--redefine-sym'', f ''boot/binaries/riscv32imac/supervisor'' ''start'' @ ''=_binary_supervisor_start'']"
    by (simp add: redefine_def)
  moreover have "f ''boot/binaries/riscv32imac/supervisor'' ''start'' = ''_binary_boot_binaries_riscv32imac_supervisor_start''"
    by (simp add: f_def alnum_def alnum_class_def)
  ultimately show ?thesis using p by (intro exI[of _ f] exI[of _ ctx']) simp
qed

end
